(* ===== verification/Prelude.thy ===== *)
theory Prelude
  imports Main "HOL-Library.AList" "HOL-Library.Word"
begin

text \<open>
  What the components share: machine words, addresses, the ways a call can end
  without returning, a state monad with those ends, and Go maps as association
  lists with distinct keys.
\<close>

unbundle bit_operations_syntax

section \<open>Words, addresses, time\<close>

type_synonym u32 = "32 word"
type_synonym u64 = "64 word"

text \<open>
  A pointer is a natural number and the nil pointer is 0, as it is for the
  comparisons of pointers the code makes through \<open>uintptr\<close>. A point in time is a
  natural number and the zero value \<open>time.Time{}\<close> is 0.
\<close>

type_synonym addr = nat
type_synonym time = nat

abbreviation (input) nil :: addr where "nil \<equiv> 0"

section \<open>Calls that do not return\<close>

text \<open>
  The \<open>log.Panicf\<close> calls of the code, the run-time panics of Go that its
  operations can raise, and not returning at all.
\<close>

datatype abort =
    Panic_reserved_ino
  | Panic_virtual_entry string
  | Panic_lookup_underflow u64 u32 u32
  | Panic_lookup_changed u64 u32
  | Panic_unknown_node u64
  | Panic_unknown_file u32
  | Panic_nil_map
  | Panic_index
  | Panic_slice
  | Panic_nil_pointer
  | Diverges

section \<open>A state monad with aborts\<close>

type_synonym ('s, 'a) M = "'s \<Rightarrow> abort + ('a \<times> 's)"

definition ret :: "'a \<Rightarrow> ('s, 'a) M" where
  "ret x s = Inr (x, s)"

definition fail :: "abort \<Rightarrow> ('s, 'a) M" where
  "fail e s = Inl e"

definition bindM :: "('s, 'a) M \<Rightarrow> ('a \<Rightarrow> ('s, 'b) M) \<Rightarrow> ('s, 'b) M" where
  "bindM m f s = (case m s of Inl e \<Rightarrow> Inl e | Inr (x, s') \<Rightarrow> f x s')"

definition getsM :: "('s \<Rightarrow> 'a) \<Rightarrow> ('s, 'a) M" where
  "getsM f s = Inr (f s, s)"

definition modifyM :: "('s \<Rightarrow> 's) \<Rightarrow> ('s, unit) M" where
  "modifyM f s = Inr ((), f s)"

text \<open>A \<open>for range\<close> loop over a list.\<close>

primrec forM :: "'a list \<Rightarrow> ('a \<Rightarrow> ('s, unit) M) \<Rightarrow> ('s, unit) M" where
  "forM [] f = ret ()"
| "forM (x # xs) f = bindM (f x) (\<lambda>_. forM xs f)"

named_theorems monad_simps \<open>evaluation of the state monad\<close>

lemma ret_apply [monad_simps]: "ret x s = Inr (x, s)"
  by (simp add: ret_def)

lemma fail_apply [monad_simps]: "fail e s = Inl e"
  by (simp add: fail_def)

lemma getsM_apply [monad_simps]: "getsM f s = Inr (f s, s)"
  by (simp add: getsM_def)

lemma modifyM_apply [monad_simps]: "modifyM f s = Inr ((), f s)"
  by (simp add: modifyM_def)

lemma bindM_Inr [monad_simps]: "m s = Inr (x, s') \<Longrightarrow> bindM m f s = f x s'"
  by (simp add: bindM_def)

lemma bindM_Inl [monad_simps]: "m s = Inl e \<Longrightarrow> bindM m f s = Inl e"
  by (simp add: bindM_def)

lemma bindM_ret [monad_simps]: "bindM (ret x) f = f x"
  by (rule ext) (simp add: bindM_def ret_def)

lemma bindM_fail [monad_simps]: "bindM (fail e) f = fail e"
  by (rule ext) (simp add: bindM_def fail_def)

lemma bindM_gets [monad_simps]: "bindM (getsM g) f s = f (g s) s"
  by (simp add: bindM_def getsM_def)

lemma bindM_modify [monad_simps]: "bindM (modifyM g) f s = f () (g s)"
  by (simp add: bindM_def modifyM_def)

lemma forM_modify: "(\<And>x. f x = modifyM (g x)) \<Longrightarrow> forM xs f s = Inr ((), fold g xs s)"
  by (induction xs arbitrary: s) (simp_all add: ret_apply bindM_modify)

lemma bindM_assoc: "bindM (bindM m f) g = bindM m (\<lambda>x. bindM (f x) g)"
  by (rule ext) (auto simp: bindM_def split: sum.splits)

lemma bindM_eq_Inr:
  "bindM m f s = Inr r \<longleftrightarrow> (\<exists>x s'. m s = Inr (x, s') \<and> f x s' = Inr r)"
  by (auto simp: bindM_def split: sum.splits)

lemma bindM_eq_Inl:
  "bindM m f s = Inl e \<longleftrightarrow> m s = Inl e \<or> (\<exists>x s'. m s = Inr (x, s') \<and> f x s' = Inl e)"
  by (auto simp: bindM_def split: sum.splits)

lemma bindM_cong:
  "m s = m' s \<Longrightarrow> (\<And>x s'. m' s = Inr (x, s') \<Longrightarrow> f x s' = f' x s') \<Longrightarrow> bindM m f s = bindM m' f' s"
  by (auto simp: bindM_def split: sum.splits)

section \<open>Go maps\<close>

text \<open>
  A Go map is an association list with distinct keys, a nil map being the empty
  one wherever the code only reads or deletes. Its order stands for the order in
  which a \<open>range\<close> loop happens to visit the keys. Reading a missing key of a map
  of pointers gives the nil pointer.
\<close>

definition go_get :: "('k \<times> addr) list \<Rightarrow> 'k \<Rightarrow> addr" where
  "go_get m k = (case map_of m k of None \<Rightarrow> nil | Some a \<Rightarrow> a)"

definition go_map_ok :: "('k \<times> addr) list \<Rightarrow> bool" where
  "go_map_ok m \<longleftrightarrow> distinct (map fst m) \<and> nil \<notin> snd ` set m"

named_theorems go_map_simps \<open>reading an updated Go map\<close>

lemma go_get_Nil [go_map_simps, simp]: "go_get [] k = nil"
  by (simp add: go_get_def)

lemma go_get_Cons: "go_get ((k, v) # m) k' = (if k = k' then v else go_get m k')"
  by (simp add: go_get_def)

lemma go_get_update [go_map_simps, simp]:
  "go_get (AList.update k v m) k' = (if k' = k then v else go_get m k')"
  by (simp add: go_get_def update_conv')

lemma go_get_delete [go_map_simps, simp]:
  "go_get (AList.delete k m) k' = (if k' = k then nil else go_get m k')"
  by (simp add: go_get_def delete_conv')

lemma go_map_ok_Nil [simp]: "go_map_ok []"
  by (simp add: go_map_ok_def)

lemma set_update_distinct:
  "distinct (map fst m) \<Longrightarrow> set (AList.update k v m) = insert (k, v) {p \<in> set m. fst p \<noteq> k}"
  by (induction m) force+

lemma set_delete: "set (AList.delete k m) = {p \<in> set m. fst p \<noteq> k}"
  by (auto simp: AList.delete_eq)

lemma go_map_ok_update [simp]:
  "go_map_ok m \<Longrightarrow> v \<noteq> nil \<Longrightarrow> go_map_ok (AList.update k v m)"
  by (auto simp: go_map_ok_def distinct_update set_update_distinct)

lemma go_map_ok_delete [simp]: "go_map_ok m \<Longrightarrow> go_map_ok (AList.delete k m)"
  by (auto simp: go_map_ok_def distinct_delete set_delete)

lemma distinct_set_AList: "distinct (map fst m) \<Longrightarrow> (k, v) \<in> set m \<Longrightarrow> (k, v') \<in> set m \<Longrightarrow> v = v'"
  by (metis map_of_is_SomeI option.inject)

lemma go_get_eq_iff: "go_map_ok m \<Longrightarrow> v \<noteq> nil \<Longrightarrow> go_get m k = v \<longleftrightarrow> (k, v) \<in> set m"
  by (auto simp: go_map_ok_def go_get_def split: option.splits dest: map_of_SomeD distinct_set_AList)

lemma go_get_in_set: "go_get m k \<noteq> nil \<Longrightarrow> (k, go_get m k) \<in> set m"
  by (auto simp: go_get_def split: option.splits dest: map_of_SomeD)

lemma go_map_empty_iff: "go_map_ok m \<Longrightarrow> m = [] \<longleftrightarrow> (\<forall>k. go_get m k = nil)"
  by (cases m) (force simp: go_map_ok_def go_get_Cons)+

lemma length_update_alist:
  "length (AList.update k v m) = (if k \<in> fst ` set m then length m else Suc (length m))"
  by (induction m) auto

lemma update_new: "k \<notin> fst ` set m \<Longrightarrow> AList.update k v m = m @ [(k, v)]"
  by (induction m) auto

named_theorems alist_simps \<open>keys and values of an updated association list\<close>

definition mkeys :: "('k \<times> 'v) list \<Rightarrow> 'k set" where
  "mkeys m = fst ` set m"

definition mvals :: "('k \<times> 'v) list \<Rightarrow> 'v set" where
  "mvals m = snd ` set m"

lemma mkeys_Nil [alist_simps, simp]: "mkeys [] = {}"
  by (simp add: mkeys_def)

lemma mkeys_Cons [alist_simps, simp]: "mkeys (p # m) = insert (fst p) (mkeys m)"
  by (simp add: mkeys_def)

lemma mvals_Nil [alist_simps, simp]: "mvals [] = {}"
  by (simp add: mvals_def)

lemma mvals_Cons [alist_simps, simp]: "mvals (p # m) = insert (snd p) (mvals m)"
  by (simp add: mvals_def)

lemma mkeys_update [alist_simps, simp]: "mkeys (AList.update k v m) = insert k (mkeys m)"
  by (induction m) (auto simp: alist_simps)

lemma mkeys_delete [alist_simps, simp]: "mkeys (AList.delete k m) = mkeys m - {k}"
  by (induction m) (auto simp: alist_simps)

lemma mvals_update: "x \<in> mvals (AList.update k v m) \<Longrightarrow> x = v \<or> x \<in> mvals m"
  by (induction m) (auto simp: alist_simps split: if_splits)

lemma mvals_delete: "x \<in> mvals (AList.delete k m) \<Longrightarrow> x \<in> mvals m"
  by (auto simp: mvals_def set_delete)

lemma mkeys_memI: "(k, v) \<in> set m \<Longrightarrow> k \<in> mkeys m"
  by (force simp: mkeys_def)

lemma mvals_memI: "(k, v) \<in> set m \<Longrightarrow> v \<in> mvals m"
  by (force simp: mvals_def)

lemmas [alist_simps] = distinct_update distinct_delete

section \<open>Sorting association lists\<close>

lemma insort_key_snoc:
  "f x < f m \<Longrightarrow> insort_key f x (ys @ [m]) = insort_key f x ys @ [m]"
  by (induction ys) auto

lemma sort_key_snoc:
  "(\<And>x. x \<in> set xs \<Longrightarrow> f x < f m) \<Longrightarrow> sort_key f (xs @ [m]) = sort_key f xs @ [m]"
  by (induction xs) (auto simp: insort_key_snoc)

lemma insort_key_last:
  "(\<And>y. y \<in> set ys \<Longrightarrow> f y < f x) \<Longrightarrow> insort_key f x ys = ys @ [x]"
  by (induction ys) force+

lemma distinct_vals_eq:
  "distinct (map snd m) \<Longrightarrow> (k, v) \<in> set m \<Longrightarrow> (k', v) \<in> set m \<Longrightarrow> k = k'"
  by (metis distinct_map inj_on_def prod.inject snd_conv)

lemma sort_key_last:
  assumes "distinct (map snd m)" "(k, t) \<in> set m" "\<forall>v \<in> mvals m. v \<le> t"
  shows "\<exists>ys. sort_key snd m = ys @ [(k, t)]"
proof -
  have ne: "sort_key snd m \<noteq> []" using assms(2) by (metis empty_iff empty_set set_sort)
  then obtain ys k' t' where l: "sort_key snd m = ys @ [(k', t')]"
    by (metis append_butlast_last_id surj_pair)
  then have s: "set m = insert (k', t') (set ys)" by (metis set_append set_sort Un_commute empty_set
        insert_is_Un list.simps(15))
  have "sorted (map snd (ys @ [(k', t')]))" using l by (metis sorted_sort_key)
  then have "\<forall>x \<in> set ys. snd x \<le> t'" by (simp add: sorted_append)
  with s assms(2) have "t \<le> t'" by fastforce
  moreover have "t' \<le> t" using assms(3) s mvals_memI by (metis insertI1)
  ultimately have "k' = k" "t' = t" using assms(1,2) s distinct_vals_eq by (metis insertI1 order_antisym)+
  with l show ?thesis by blast
qed

lemma sort_key_delete:
  "sort_key snd (AList.delete k m) = AList.delete k (sort_key snd m)"
  by (simp add: AList.delete_eq filter_sort)

end
