(* ===== verification/Parents.thy ===== *)
theory Parents
  imports Prelude "HOL-Library.Multiset"
begin

text \<open>
  The parents of an inode (\<open>inode_parents.go\<close>): the store \<open>inodeParents\<close> with its
  operations, the contract \<open>parent_store\<close> the inode tree relies on (a set of
  parent entries) and the stronger contract \<open>recency_store\<close> of the paths and of
  the dump (a list of entries, the most recently added first).
\<close>

section \<open>The store\<close>

record parentEntry =
  pe_name :: string
  pe_node :: addr

abbreviation pent :: "string \<Rightarrow> addr \<Rightarrow> parentEntry" where
  "pent n a \<equiv> \<lparr>pe_name = n, pe_node = a\<rparr>"

lemma pent_eta [simp]: "pent (pe_name e) (pe_node e) = e"
  by (cases e) simp

text \<open>The zero value \<open>parentEntry{}\<close>.\<close>

definition parentEntry_zero :: parentEntry where
  "parentEntry_zero = pent '''' nil"

record inodeParents =
  newest :: parentEntry
  other :: "(parentEntry \<times> time) list"

definition inodeParents_zero :: inodeParents where
  "inodeParents_zero = \<lparr>newest = parentEntry_zero, other = []\<rparr>"

text \<open>
  \<open>add\<close>; the first argument is what \<open>time.Now()\<close> returns. Allocating the map
  \<open>other\<close> when it is nil leaves it empty.
\<close>

definition parents_add :: "time \<Rightarrow> parentEntry \<Rightarrow> inodeParents \<Rightarrow> inodeParents" where
  "parents_add now n p =
    (let p1 = (if pe_node (newest p) = nil then p\<lparr>newest := n\<rparr> else p)
     in if newest p1 = n then p1
        else let p2 = p1\<lparr>other := AList.update (newest p1) now (other p1)\<rparr>
             in p2\<lparr>other := AList.delete n (other p2), newest := n\<rparr>)"

definition parents_get :: "inodeParents \<Rightarrow> parentEntry" where
  "parents_get p = newest p"

definition parents_count :: "inodeParents \<Rightarrow> nat" where
  "parents_count p = (if pe_node (newest p) = nil then 0 else 1 + length (other p))"

definition parents_all :: "inodeParents \<Rightarrow> parentEntry list" where
  "parents_all p = (if parents_count p = 0 then [] else newest p # map fst (other p))"

text \<open>The loop of \<open>delete\<close> that finds the latest entry of \<open>other\<close>.\<close>

fun latest_loop :: "(parentEntry \<times> time) list \<Rightarrow> time \<Rightarrow> parentEntry \<Rightarrow> parentEntry" where
  "latest_loop [] t i = i"
| "latest_loop ((k, v) # m) t i = (if t < v then latest_loop m v k else latest_loop m t i)"

definition parents_delete :: "parentEntry \<Rightarrow> inodeParents \<Rightarrow> inodeParents" where
  "parents_delete n p =
    (if pe_node (newest p) = nil then p
     else if newest p \<noteq> n then p\<lparr>other := AList.delete n (other p)\<rparr>
     else if length (other p) = 0 then p\<lparr>newest := parentEntry_zero\<rparr>
     else let i = latest_loop (other p) 0 parentEntry_zero
          in p\<lparr>newest := i, other := AList.delete i (other p)\<rparr>)"

definition parents_clear :: "inodeParents \<Rightarrow> inodeParents" where
  "parents_clear p = p\<lparr>newest := parentEntry_zero, other := []\<rparr>"

text \<open>
  \<open>sortParents\<close> pairs the newest entry with the current time, the others with their
  time stamps, and sorts by time: oldest first.
\<close>

definition sortParents :: "time \<Rightarrow> inodeParents \<Rightarrow> parentEntry list" where
  "sortParents now p =
    (if 0 < parents_count p then map fst (sort_key snd ((newest p, now) # other p)) else [])"

section \<open>Invariants\<close>

text \<open>
  \<open>parents_ok\<close> holds of every store the operations build. \<open>parents_timed now\<close> adds
  that the time stamps differ and lie before \<open>now\<close>, as they do when the clock
  never returns the same time twice.
\<close>

definition parents_ok :: "inodeParents \<Rightarrow> bool" where
  "parents_ok p \<longleftrightarrow>
     (pe_node (newest p) = nil \<longrightarrow> newest p = parentEntry_zero \<and> other p = []) \<and>
     distinct (map fst (other p)) \<and> newest p \<notin> mkeys (other p) \<and>
     (\<forall>e \<in> mkeys (other p). pe_node e \<noteq> nil) \<and> (\<forall>t \<in> mvals (other p). 0 < t)"

definition parents_timed :: "time \<Rightarrow> inodeParents \<Rightarrow> bool" where
  "parents_timed now p \<longleftrightarrow>
     parents_ok p \<and> distinct (map snd (other p)) \<and> (\<forall>t \<in> mvals (other p). t < now)"

text \<open>The entries, most recent first.\<close>

definition recency :: "inodeParents \<Rightarrow> parentEntry list" where
  "recency p =
    (if pe_node (newest p) = nil then [] else newest p # rev (map fst (sort_key snd (other p))))"

definition parents_set :: "inodeParents \<Rightarrow> parentEntry set" where
  "parents_set p = set (parents_all p)"

lemma parents_set_eq:
  "parents_set p = (if pe_node (newest p) = nil then {} else insert (newest p) (mkeys (other p)))"
  by (simp add: parents_set_def parents_all_def parents_count_def mkeys_def)

lemma parents_timed_ok: "parents_timed now p \<Longrightarrow> parents_ok p"
  by (simp add: parents_timed_def)

lemma parents_timed_mono: "parents_timed now p \<Longrightarrow> now \<le> now' \<Longrightarrow> parents_timed now' p"
  by (fastforce simp: parents_timed_def)

lemma parents_ok_zero [simp]: "parents_ok inodeParents_zero"
  by (simp add: parents_ok_def inodeParents_zero_def parentEntry_zero_def alist_simps)

lemma parents_timed_zero [simp]: "parents_timed now inodeParents_zero"
  by (simp add: parents_timed_def) (simp add: inodeParents_zero_def alist_simps)

lemma parents_set_zero [simp]: "parents_set inodeParents_zero = {}"
  by (simp add: parents_set_eq inodeParents_zero_def parentEntry_zero_def)

lemma parents_ok_node: "parents_ok p \<Longrightarrow> e \<in> parents_set p \<Longrightarrow> pe_node e \<noteq> nil"
  by (auto simp: parents_ok_def parents_set_eq split: if_splits)

lemma set_recency: "set (recency p) = parents_set p"
  by (auto simp: recency_def parents_set_eq mkeys_def)

lemma distinct_parents_all: "parents_ok p \<Longrightarrow> distinct (parents_all p)"
  by (auto simp: parents_ok_def parents_all_def mkeys_def)

lemma length_parents_all: "length (parents_all p) = parents_count p"
  by (simp add: parents_all_def parents_count_def)

lemma parents_count_card: "parents_ok p \<Longrightarrow> parents_count p = card (parents_set p)"
  by (metis distinct_card distinct_parents_all length_parents_all parents_set_def)

section \<open>The operations on the set of entries\<close>

lemma parents_add_nil:
  "pe_node (newest p) = nil \<Longrightarrow> parents_add now n p = p\<lparr>newest := n\<rparr>"
  by (simp add: parents_add_def)

lemma parents_add_same: "newest p = n \<Longrightarrow> parents_add now n p = p"
  by (simp add: parents_add_def)

lemma parents_add_new:
  "pe_node (newest p) \<noteq> nil \<Longrightarrow> newest p \<noteq> n \<Longrightarrow>
    parents_add now n p =
      p\<lparr>newest := n, other := AList.delete n (AList.update (newest p) now (other p))\<rparr>"
  by (simp add: parents_add_def)

lemma parents_add_cases:
  obtains "pe_node (newest p) = nil" | "pe_node (newest p) \<noteq> nil" "newest p = n"
  | "pe_node (newest p) \<noteq> nil" "newest p \<noteq> n"
  by blast

lemma parents_ok_add:
  assumes "parents_ok p" "pe_node n \<noteq> nil" "0 < now"
  shows "parents_ok (parents_add now n p)"
proof (cases rule: parents_add_cases[where p = p and n = n])
  case 1
  with assms show ?thesis by (simp add: parents_add_nil parents_ok_def)
next
  case 2
  with assms show ?thesis by (simp add: parents_add_same)
next
  case 3
  with assms show ?thesis
    by (auto simp: parents_add_new parents_ok_def alist_simps dest!: mvals_delete mvals_update
       )
qed

lemma parents_set_add:
  assumes "parents_ok p" "pe_node n \<noteq> nil"
  shows "parents_set (parents_add now n p) = insert n (parents_set p)"
proof (cases rule: parents_add_cases[where p = p and n = n])
  case 1
  with assms show ?thesis by (simp add: parents_add_nil parents_ok_def parents_set_eq)
next
  case 2
  with assms show ?thesis by (auto simp add: parents_add_same parents_set_eq)
next
  case 3
  with assms show ?thesis by (auto simp add: parents_add_new parents_set_eq alist_simps)
qed

text \<open>The loop returns a key with the greatest time stamp, if any is after the initial one.\<close>

lemma latest_loop_max:
  "\<exists>t'. t \<le> t' \<and> (\<forall>v \<in> mvals m. v \<le> t') \<and>
     (latest_loop m t i = i \<and> t' = t \<or> (latest_loop m t i, t') \<in> set m)"
proof (induction m t i rule: latest_loop.induct)
  case (1 t i)
  show ?case by auto
next
  case (2 k v m t i)
  show ?case
  proof (cases "t < v")
    case True
    with "2.IH"(1) obtain t' where "v \<le> t'" "\<forall>w \<in> mvals m. w \<le> t'"
      "latest_loop m v k = k \<and> t' = v \<or> (latest_loop m v k, t') \<in> set m" by blast
    with True show ?thesis by (intro exI[of _ t']) auto
  next
    case False
    with "2.IH"(2) obtain t' where "t \<le> t'" "\<forall>w \<in> mvals m. w \<le> t'"
      "latest_loop m t i = i \<and> t' = t \<or> (latest_loop m t i, t') \<in> set m" by blast
    with False show ?thesis by (intro exI[of _ t']) auto
  qed
qed

lemma latest_loop_pos:
  assumes "m \<noteq> []" "\<forall>t \<in> mvals m. 0 < t"
  obtains t where "(latest_loop m 0 i, t) \<in> set m" "\<forall>v \<in> mvals m. v \<le> t"
proof -
  from latest_loop_max[of 0 m i] obtain t where
    t: "\<forall>v \<in> mvals m. v \<le> t"
      "latest_loop m 0 i = i \<and> t = 0 \<or> (latest_loop m 0 i, t) \<in> set m" by auto
  obtain e u where "(e, u) \<in> set m" using assms(1) by (cases m) auto
  with assms(2) t(1) have "0 < t" by (meson mvals_memI less_le_trans)
  with t that show ?thesis by auto
qed

lemma parents_delete_latest:
  assumes "parents_ok p" "other p \<noteq> []"
  shows "latest_loop (other p) 0 parentEntry_zero \<in> mkeys (other p)"
proof -
  from assms(1) have "\<forall>t \<in> mvals (other p). 0 < t" by (simp add: parents_ok_def)
  with assms(2) obtain t where "(latest_loop (other p) 0 parentEntry_zero, t) \<in> set (other p)"
    by (rule latest_loop_pos)
  then show ?thesis by (rule mkeys_memI)
qed

lemma parents_delete_cases:
  obtains (empty) "pe_node (newest p) = nil"
  | (other) "pe_node (newest p) \<noteq> nil" "newest p \<noteq> n"
  | (last) "pe_node (newest p) \<noteq> nil" "newest p = n" "other p = []"
  | (displaced) "pe_node (newest p) \<noteq> nil" "newest p = n" "other p \<noteq> []"
  by blast

lemma parents_delete_next:
  "pe_node (newest p) \<noteq> nil \<Longrightarrow> newest p = n \<Longrightarrow> other p \<noteq> [] \<Longrightarrow>
    parents_delete n p =
      p\<lparr>newest := latest_loop (other p) 0 parentEntry_zero,
        other := AList.delete (latest_loop (other p) 0 parentEntry_zero) (other p)\<rparr>"
  by (simp add: parents_delete_def Let_def)

lemma parents_ok_delete:
  assumes "parents_ok p"
  shows "parents_ok (parents_delete n p)"
proof (cases rule: parents_delete_cases[where p = p and n = n])
  case empty
  with assms show ?thesis by (simp add: parents_delete_def)
next
  case other
  with assms show ?thesis
    by (auto simp: parents_ok_def parents_delete_def alist_simps dest!: mvals_delete)
next
  case last
  with assms show ?thesis by (simp add: parents_ok_def parents_delete_def parentEntry_zero_def)
next
  case displaced
  with parents_delete_latest[OF assms] have "latest_loop (other p) 0 parentEntry_zero \<in> mkeys (other p)"
    by simp
  with displaced assms show ?thesis
    by (auto simp: parents_ok_def parents_delete_next alist_simps dest!: mvals_delete)
qed

lemma parents_set_delete:
  assumes "parents_ok p"
  shows "parents_set (parents_delete n p) = parents_set p - {n}"
proof (cases rule: parents_delete_cases[where p = p and n = n])
  case empty
  with assms show ?thesis by (simp add: parents_delete_def parents_set_eq)
next
  case other
  with assms show ?thesis by (auto simp: parents_set_eq parents_delete_def alist_simps)
next
  case last
  with assms show ?thesis by (simp add: parents_set_eq parents_delete_def parentEntry_zero_def)
next
  case displaced
  with parents_delete_latest[OF assms] have i: "latest_loop (other p) 0 parentEntry_zero \<in> mkeys (other p)"
    by simp
  then have "pe_node (latest_loop (other p) 0 parentEntry_zero) \<noteq> nil"
    using assms by (simp add: parents_ok_def)
  with displaced i assms show ?thesis
    by (auto simp: parents_ok_def parents_set_eq parents_delete_next alist_simps)
qed

lemma parents_ok_clear [simp]: "parents_ok (parents_clear p)"
  by (simp add: parents_ok_def parents_clear_def parentEntry_zero_def alist_simps)

lemma parents_set_clear [simp]: "parents_set (parents_clear p) = {}"
  by (simp add: parents_set_eq parents_clear_def parentEntry_zero_def)

lemma parents_timed_clear [simp]: "parents_timed now (parents_clear p)"
  by (simp add: parents_timed_def) (simp add: parents_clear_def alist_simps)

section \<open>The order of the entries\<close>

lemma parents_timed_add:
  assumes "parents_timed now p" "pe_node n \<noteq> nil" "0 < now"
  shows "parents_timed (Suc now) (parents_add now n p)"
proof (cases rule: parents_add_cases[where p = p and n = n])
  case 1
  with assms parents_ok_add[of p n now] show ?thesis
    by (auto simp: parents_timed_def parents_add_nil less_Suc_eq)
next
  case 2
  with assms show ?thesis by (simp add: parents_add_same parents_timed_mono)
next
  case 3
  let ?o = "AList.delete n (other p @ [(newest p, now)])"
  have "newest p \<notin> fst ` set (other p)"
    using assms by (simp add: parents_timed_def parents_ok_def mkeys_def)
  then have o: "parents_add now n p = p\<lparr>newest := n, other := ?o\<rparr>"
    using 3 by (simp add: parents_add_new update_new)
  have "distinct (map snd (other p @ [(newest p, now)]))"
    using assms by (auto simp: parents_timed_def mvals_def)
  then have "distinct (map snd ?o)"
    by (metis AList.delete_eq distinct_map_filter)
  moreover have "\<forall>t \<in> mvals ?o. t < Suc now"
  proof
    fix t
    assume "t \<in> mvals ?o"
    then have "t \<in> mvals (other p @ [(newest p, now)])" by (rule mvals_delete)
    then show "t < Suc now" using assms by (auto simp: parents_timed_def mvals_def)
  qed
  moreover have "parents_ok (parents_add now n p)"
    using assms by (simp add: parents_ok_add parents_timed_def)
  ultimately show ?thesis using o by (simp add: parents_timed_def)
qed

lemma recency_add:
  assumes "parents_timed now p" "pe_node n \<noteq> nil"
  shows "recency (parents_add now n p) = n # removeAll n (recency p)"
proof (cases rule: parents_add_cases[where p = p and n = n])
  case 1
  with assms show ?thesis
    by (auto simp: parents_add_nil recency_def parents_timed_def parents_ok_def)
next
  case 2
  with assms have "n \<notin> set (map fst (other p))"
    by (simp add: parents_timed_def parents_ok_def mkeys_def)
  with 2 show ?thesis by (simp add: parents_add_same recency_def)
next
  case 3
  have "newest p \<notin> fst ` set (other p)"
    using assms by (simp add: parents_timed_def parents_ok_def mkeys_def)
  then have "AList.update (newest p) now (other p) = other p @ [(newest p, now)]"
    by (rule update_new)
  moreover have "sort_key snd (other p @ [(newest p, now)]) = sort_key snd (other p) @ [(newest p, now)]"
    using assms by (intro sort_key_snoc) (auto simp: parents_timed_def dest: mvals_memI)
  ultimately show ?thesis
    using 3 assms(2)
    by (simp add: parents_add_new recency_def sort_key_delete delete_keys removeAll_filter_not_eq rev_filter
        del: delete_conv)
qed

lemma recency_get: "parents_ok p \<Longrightarrow> parents_get p = (case recency p of [] \<Rightarrow> parentEntry_zero | e # _ \<Rightarrow> e)"
  by (simp add: parents_get_def recency_def parents_ok_def)

lemma recency_clear: "recency (parents_clear p) = []"
  by (simp add: recency_def parents_clear_def parentEntry_zero_def)

lemma recency_count: "length (recency p) = parents_count p"
  by (simp add: recency_def parents_count_def)

lemma distinct_recency: "parents_ok p \<Longrightarrow> distinct (recency p)"
  by (metis card_distinct parents_count_card recency_count set_recency)

lemma parents_timed_delete:
  assumes "parents_timed now p"
  shows "parents_timed now (parents_delete n p)"
proof -
  have "\<exists>k. other (parents_delete n p) = AList.delete k (other p) \<or> other (parents_delete n p) = other p"
    by (simp add: parents_delete_def Let_def) blast
  moreover have "distinct (map snd (AList.delete k (other p)))" for k
    using assms by (simp add: parents_timed_def AList.delete_eq distinct_map_filter)
  ultimately show ?thesis
    using assms by (auto simp: parents_timed_def parents_ok_delete dest!: mvals_delete)
qed

lemma recency_delete:
  assumes "parents_timed now p"
  shows "recency (parents_delete n p) = removeAll n (recency p)"
proof (cases rule: parents_delete_cases[where p = p and n = n])
  case empty
  then show ?thesis by (simp add: parents_delete_def recency_def)
next
  case other
  then show ?thesis
    by (simp add: parents_delete_def recency_def sort_key_delete delete_keys removeAll_filter_not_eq
        rev_filter)
next
  case last
  then show ?thesis by (simp add: parents_delete_def recency_def parentEntry_zero_def)
next
  case displaced
  let ?i = "latest_loop (other p) 0 parentEntry_zero"
  have ok: "parents_ok p" "\<forall>t \<in> mvals (other p). 0 < t"
    using assms by (simp_all add: parents_timed_def parents_ok_def)
  obtain t where t: "(?i, t) \<in> set (other p)" "\<forall>v \<in> mvals (other p). v \<le> t"
    using latest_loop_pos[OF displaced(3) ok(2)] by blast
  with assms obtain ys where s: "sort_key snd (other p) = ys @ [(?i, t)]"
    using sort_key_last[of "other p" ?i t] by (auto simp: parents_timed_def)
  have "distinct (map fst (sort_key snd (other p)))"
    using ok(1) by (simp add: parents_ok_def distinct_map)
  then have "AList.delete ?i (sort_key snd (other p)) = ys"
    by (simp add: s AList.delete_eq filter_id_conv) force
  moreover have "n \<notin> set (map fst (sort_key snd (other p)))"
    using displaced(2) ok(1) by (simp add: parents_ok_def mkeys_def)
  moreover have "pe_node ?i \<noteq> nil"
    using parents_delete_latest[OF ok(1) displaced(3)] ok(1) by (simp add: parents_ok_def)
  ultimately show ?thesis
    using displaced
    by (simp add: parents_delete_next recency_def sort_key_delete s)
qed

lemma sortParents_rev_recency:
  assumes "parents_timed now p"
  shows "sortParents now p = rev (recency p)"
proof -
  have "sort_key snd ((newest p, now) # other p) = sort_key snd (other p) @ [(newest p, now)]"
    using assms mvals_memI insort_key_last[of "sort_key snd (other p)" snd "(newest p, now)"]
    by (fastforce simp: parents_timed_def)
  then show ?thesis
    by (simp add: sortParents_def recency_def parents_count_def)
qed

section \<open>The contracts\<close>

text \<open>
  A sequence of operations on a store, the clock advancing with every \<open>add\<close>, and
  what it does to a set and to a list of entries.
\<close>

datatype 'e store_op = SAdd 'e | SDelete 'e | SClear

fun store_run ::
  "(time \<Rightarrow> 'e \<Rightarrow> 's \<Rightarrow> 's) \<Rightarrow> ('e \<Rightarrow> 's \<Rightarrow> 's) \<Rightarrow> ('s \<Rightarrow> 's) \<Rightarrow> time \<Rightarrow> 's \<Rightarrow> 'e store_op list \<Rightarrow> 's"
where
  "store_run add del clr now s [] = s"
| "store_run add del clr now s (SAdd e # xs) = store_run add del clr (Suc now) (add now e s) xs"
| "store_run add del clr now s (SDelete e # xs) = store_run add del clr now (del e s) xs"
| "store_run add del clr now s (SClear # xs) = store_run add del clr now (clr s) xs"

fun set_run :: "'e set \<Rightarrow> 'e store_op list \<Rightarrow> 'e set" where
  "set_run A [] = A"
| "set_run A (SAdd e # xs) = set_run (insert e A) xs"
| "set_run A (SDelete e # xs) = set_run (A - {e}) xs"
| "set_run A (SClear # xs) = set_run {} xs"

fun recent_run :: "'e list \<Rightarrow> 'e store_op list \<Rightarrow> 'e list" where
  "recent_run l [] = l"
| "recent_run l (SAdd e # xs) = recent_run (e # removeAll e l) xs"
| "recent_run l (SDelete e # xs) = recent_run (removeAll e l) xs"
| "recent_run l (SClear # xs) = recent_run [] xs"

lemma set_recent_run: "set (recent_run l xs) = set_run (set l) xs"
  by (induction l xs rule: recent_run.induct) auto

locale parent_store =
  fixes add :: "time \<Rightarrow> 'e \<Rightarrow> 's \<Rightarrow> 's"
    and del :: "'e \<Rightarrow> 's \<Rightarrow> 's"
    and clr :: "'s \<Rightarrow> 's"
    and entries :: "'s \<Rightarrow> 'e set"
    and valid :: "'e \<Rightarrow> bool"
    and inv :: "time \<Rightarrow> 's \<Rightarrow> bool"
  assumes inv_add: "inv now s \<Longrightarrow> valid e \<Longrightarrow> inv (Suc now) (add now e s)"
    and inv_del: "inv now s \<Longrightarrow> inv now (del e s)"
    and inv_clr: "inv now s \<Longrightarrow> inv now (clr s)"
    and inv_mono: "inv now s \<Longrightarrow> now \<le> now' \<Longrightarrow> inv now' s"
    and entries_add: "inv now s \<Longrightarrow> valid e \<Longrightarrow> entries (add now e s) = insert e (entries s)"
    and entries_del: "inv now s \<Longrightarrow> entries (del e s) = entries s - {e}"
    and entries_clr: "inv now s \<Longrightarrow> entries (clr s) = {}"
begin

lemma entries_run:
  "inv now s \<Longrightarrow> (\<And>e. SAdd e \<in> set xs \<Longrightarrow> valid e) \<Longrightarrow>
    entries (store_run add del clr now s xs) = set_run (entries s) xs"
proof (induction xs arbitrary: now s)
  case (Cons x xs)
  then show ?case
    by (cases x) (simp_all add: inv_add inv_del inv_clr entries_add entries_del entries_clr)
qed simp

lemma entries_del_add:
  "inv now s \<Longrightarrow> valid e \<Longrightarrow> e \<notin> entries s \<Longrightarrow> entries (del e (add now e s)) = entries s"
  using entries_del[OF inv_add] entries_add by simp

end

locale recency_store =
  fixes add :: "time \<Rightarrow> 'e \<Rightarrow> 's \<Rightarrow> 's"
    and del :: "'e \<Rightarrow> 's \<Rightarrow> 's"
    and clr :: "'s \<Rightarrow> 's"
    and get :: "'s \<Rightarrow> 'e"
    and zero :: 'e
    and recent :: "'s \<Rightarrow> 'e list"
    and valid :: "'e \<Rightarrow> bool"
    and inv :: "time \<Rightarrow> 's \<Rightarrow> bool"
  assumes inv_add: "inv now s \<Longrightarrow> valid e \<Longrightarrow> inv (Suc now) (add now e s)"
    and inv_del: "inv now s \<Longrightarrow> inv now (del e s)"
    and inv_clr: "inv now s \<Longrightarrow> inv now (clr s)"
    and inv_mono: "inv now s \<Longrightarrow> now \<le> now' \<Longrightarrow> inv now' s"
    and recent_add: "inv now s \<Longrightarrow> valid e \<Longrightarrow> recent (add now e s) = e # removeAll e (recent s)"
    and recent_del: "inv now s \<Longrightarrow> recent (del e s) = removeAll e (recent s)"
    and recent_clr: "inv now s \<Longrightarrow> recent (clr s) = []"
    and recent_get: "inv now s \<Longrightarrow> get s = (case recent s of [] \<Rightarrow> zero | e # _ \<Rightarrow> e)"
begin

lemma inv_run:
  "inv now s \<Longrightarrow> (\<And>e. SAdd e \<in> set xs \<Longrightarrow> valid e) \<Longrightarrow> \<exists>now'. inv now' (store_run add del clr now s xs)"
proof (induction xs arbitrary: now s)
  case (Cons x xs)
  then show ?case by (cases x) (simp_all add: inv_add inv_del inv_clr)
qed auto

lemma inv_clock:
  "inv now s \<Longrightarrow> (\<And>e. SAdd e \<in> set xs \<Longrightarrow> valid e) \<Longrightarrow>
    inv (now + length xs) (store_run add del clr now s xs)"
proof (induction xs arbitrary: now s)
  case (Cons x xs)
  show ?case
  proof (cases x)
    case (SAdd e)
    with Cons show ?thesis using Cons.IH[of "Suc now" "add now e s"] by (simp add: inv_add)
  next
    case (SDelete e)
    with Cons.prems have "inv (now + length xs) (store_run add del clr now (del e s) xs)"
      by (intro Cons.IH) (simp_all add: inv_del)
    then show ?thesis using SDelete by (auto intro: inv_mono)
  next
    case SClear
    with Cons.prems have "inv (now + length xs) (store_run add del clr now (clr s) xs)"
      by (intro Cons.IH) (simp_all add: inv_clr)
    then show ?thesis using SClear by (auto intro: inv_mono)
  qed
qed simp

lemma recent_run:
  "inv now s \<Longrightarrow> (\<And>e. SAdd e \<in> set xs \<Longrightarrow> valid e) \<Longrightarrow>
    recent (store_run add del clr now s xs) = recent_run (recent s) xs"
proof (induction xs arbitrary: now s)
  case (Cons x xs)
  then show ?case
    by (cases x) (simp_all add: inv_add inv_del inv_clr recent_add recent_del recent_clr)
qed simp

lemma get_add: "inv now s \<Longrightarrow> valid e \<Longrightarrow> get (add now e s) = e"
  using recent_get[OF inv_add] recent_add by simp

lemma get_run:
  "inv now s \<Longrightarrow> (\<And>e. SAdd e \<in> set xs \<Longrightarrow> valid e) \<Longrightarrow>
    get (store_run add del clr now s xs) =
      (case recent_run (recent s) xs of [] \<Rightarrow> zero | e # _ \<Rightarrow> e)"
  using inv_run[of now s xs] recent_run[of now s xs] recent_get by auto

end

text \<open>A store that keeps the order of its entries also keeps their set.\<close>

sublocale recency_store \<subseteq> by_set: parent_store add del clr "\<lambda>s. set (recent s)" valid inv
  by unfold_locales
    (auto simp: inv_add inv_del inv_clr recent_add recent_del recent_clr intro: inv_mono)

text \<open>
  \<open>inodeParents\<close> keeps the set of its entries whatever the clock does, and their
  order when every reading of the clock is later than those before.
\<close>

interpretation ps: parent_store parents_add parents_delete parents_clear parents_set
  "\<lambda>e. pe_node e \<noteq> nil" "\<lambda>now p. 0 < now \<and> parents_ok p"
  by unfold_locales (auto simp: parents_ok_add parents_ok_delete parents_set_add parents_set_delete)

interpretation rs: recency_store parents_add parents_delete parents_clear parents_get parentEntry_zero
  recency "\<lambda>e. pe_node e \<noteq> nil" "\<lambda>now p. 0 < now \<and> parents_timed now p"
  by unfold_locales
    (auto simp: parents_timed_add parents_timed_delete recency_add recency_delete recency_clear
      intro: recency_get parents_timed_ok parents_timed_mono)

section \<open>Theorems on parents\<close>

text \<open>
  C26: Over any sequence of additions, removals and clearings \<open>inodeParents\<close> holds the same entries as a set
  would, whatever the clock reads.
\<close>

theorem inodeParents_set:
  assumes "0 < t" "\<And>e. SAdd e \<in> set xs \<Longrightarrow> pe_node e \<noteq> nil"
  shows "parents_set (store_run parents_add parents_delete parents_clear t inodeParents_zero xs) = set_run {} xs"
  using ps.entries_run[of t inodeParents_zero xs] assms by simp

theorem inodeParents_set_witness:
  "parents_set (store_run parents_add parents_delete parents_clear 5 inodeParents_zero
     [SAdd (pent ''a'' 1), SAdd (pent ''b'' 2), SDelete (pent ''b'' 2)]) = {pent ''a'' 1}"
proof -
  have "pe_node e \<noteq> nil" if "SAdd e \<in> set [SAdd (pent ''a'' 1), SAdd (pent ''b'' 2), SDelete (pent ''b'' 2)]" for e
    using that by auto
  with inodeParents_set[of 5 "[SAdd (pent ''a'' 1), SAdd (pent ''b'' 2), SDelete (pent ''b'' 2)]"] show ?thesis by fastforce
qed

text \<open>
  C27: When the clock advances with every addition, the entry \<open>get\<close> answers is the one added last among those
  that are still there, or the zero entry when none is.
\<close>

theorem inodeParents_newest:
  assumes "0 < t" "\<And>e. SAdd e \<in> set xs \<Longrightarrow> pe_node e \<noteq> nil"
  shows "parents_get (store_run parents_add parents_delete parents_clear t inodeParents_zero xs) =
    (case recent_run [] xs of [] \<Rightarrow> parentEntry_zero | e # _ \<Rightarrow> e)"
  using rs.get_run[of t inodeParents_zero xs] assms recency_clear[of inodeParents_zero]
  by (simp add: parents_clear_def inodeParents_zero_def parents_timed_zero[unfolded inodeParents_zero_def])

theorem inodeParents_newest_witness:
  "parents_get (store_run parents_add parents_delete parents_clear 5 inodeParents_zero
     [SAdd (pent ''a'' 1), SAdd (pent ''b'' 2), SDelete (pent ''b'' 2)]) = pent ''a'' 1"
proof -
  have "pe_node e \<noteq> nil" if "SAdd e \<in> set [SAdd (pent ''a'' 1), SAdd (pent ''b'' 2), SDelete (pent ''b'' 2)]" for e
    using that by auto
  with inodeParents_newest[of 5 "[SAdd (pent ''a'' 1), SAdd (pent ''b'' 2), SDelete (pent ''b'' 2)]"] show ?thesis by fastforce
qed

lemma recent_run_adds: "distinct (xs @ l) \<Longrightarrow> recent_run l (map SAdd xs) = rev xs @ l"
  by (induction xs arbitrary: l) (auto simp: removeAll_id)

lemma recent_run_append: "recent_run l (xs @ ys) = recent_run (recent_run l xs) ys"
  by (induction l xs rule: recent_run.induct) simp_all

lemma distinct_recent_run: "distinct l \<Longrightarrow> distinct (recent_run l xs)"
  by (induction l xs rule: recent_run.induct) (auto simp: distinct_removeAll)

lemma valid_recent_run:
  "(\<And>e. SAdd e \<in> set xs \<Longrightarrow> P e) \<Longrightarrow> (\<And>e. e \<in> set l \<Longrightarrow> P e) \<Longrightarrow> e \<in> set (recent_run l xs) \<Longrightarrow> P e"
  by (induction l xs rule: recent_run.induct) auto

text \<open>
  C28: \<open>sortParents\<close> lists the entries of a store in the order in which each was added last. A store into
  which they are added in this order is as good as the first: over any further additions, removals and
  clearings, \<open>get\<close> of the two answers the same.
\<close>

theorem sortParents_recency:
  assumes "0 < t" "0 < t2" "\<And>e. SAdd e \<in> set (xs @ ys) \<Longrightarrow> pe_node e \<noteq> nil" "t + length xs \<le> t'"
    and "p = store_run parents_add parents_delete parents_clear t inodeParents_zero xs"
  shows "sortParents t' p = rev (recent_run [] xs) \<and>
    parents_get (store_run parents_add parents_delete parents_clear t2 inodeParents_zero
        (map SAdd (sortParents t' p) @ ys)) =
      parents_get (store_run parents_add parents_delete parents_clear t' p ys)"
proof
  let ?run = "store_run parents_add parents_delete parents_clear" and ?z = inodeParents_zero
  have z: "0 < k \<and> parents_timed k ?z" if "0 < k" for k using that by (simp add: parents_timed_zero)
  have rz: "recency ?z = []" using recency_clear[of ?z] by (simp add: parents_clear_def inodeParents_zero_def)
  have vx: "SAdd e \<in> set xs \<Longrightarrow> pe_node e \<noteq> nil" and vy: "SAdd e \<in> set ys \<Longrightarrow> pe_node e \<noteq> nil" for e
    using assms(3) by auto
  have "0 < t + length xs \<and> parents_timed (t + length xs) p"
    unfolding assms(5) by (rule rs.inv_clock[OF z[OF assms(1)] vx])
  then have p: "0 < t' \<and> parents_timed t' p" using rs.inv_mono[OF _ assms(4)] by blast
  have r: "recency p = recent_run [] xs"
    unfolding assms(5) using rs.recent_run[OF z[OF assms(1)] vx] rz by simp
  show s: "sortParents t' p = rev (recent_run [] xs)"
    using sortParents_rev_recency[of t' p] p r by simp
  let ?l = "map SAdd (rev (recent_run [] xs)) @ ys"
  have v: "SAdd e \<in> set ?l \<Longrightarrow> pe_node e \<noteq> nil" for e
    using vy valid_recent_run[of xs "\<lambda>e. pe_node e \<noteq> nil" "[]" e] vx by auto
  have "parents_get (?run t2 ?z ?l) = (case recent_run [] ?l of [] \<Rightarrow> parentEntry_zero | e # _ \<Rightarrow> e)"
    using rs.get_run[of t2 ?z ?l] z[OF assms(2)] v rz by simp
  also have "recent_run [] ?l = recent_run (recency p) ys"
    using recent_run_adds[of "rev (recent_run [] xs)" "[]"] distinct_recent_run[of "[]" xs] r
    by (simp add: recent_run_append)
  finally show "parents_get (?run t2 ?z (map SAdd (sortParents t' p) @ ys)) = parents_get (?run t' p ys)"
    using rs.get_run[OF p vy] s by simp
qed

theorem sortParents_recency_witness:
  "let p = store_run parents_add parents_delete parents_clear 3 inodeParents_zero
       [SAdd (pent ''a'' 1), SAdd (pent ''b'' 2), SAdd (pent ''a'' 1)];
     q = store_run parents_add parents_delete parents_clear 1 inodeParents_zero [SAdd (pent ''b'' 2), SAdd (pent ''a'' 1)]
   in sortParents 9 p = [pent ''b'' 2, pent ''a'' 1] \<and>
     parents_get (parents_delete (pent ''a'' 1) q) = parents_get (parents_delete (pent ''a'' 1) p)"
proof -
  let ?xs = "[SAdd (pent ''a'' 1), SAdd (pent ''b'' 2), SAdd (pent ''a'' 1)]"
  let ?p = "store_run parents_add parents_delete parents_clear 3 inodeParents_zero ?xs"
  have v: "pe_node e \<noteq> nil" if "SAdd e \<in> set (?xs @ [SDelete (pent ''a'' 1)])" for e using that by auto
  have "sortParents 9 ?p = rev (recent_run [] ?xs) \<and>
      parents_get (store_run parents_add parents_delete parents_clear 1 inodeParents_zero
        (map SAdd (sortParents 9 ?p) @ [SDelete (pent ''a'' 1)])) =
      parents_get (store_run parents_add parents_delete parents_clear 9 ?p [SDelete (pent ''a'' 1)])"
    by (rule sortParents_recency[of 3 1 ?xs "[SDelete (pent ''a'' 1)]" 9 ?p, OF _ _ v _ refl]) simp_all
  then have s: "sortParents 9 ?p = [pent ''b'' 2, pent ''a'' 1]"
    and g: "parents_get (store_run parents_add parents_delete parents_clear 1 inodeParents_zero
        (map SAdd (sortParents 9 ?p) @ [SDelete (pent ''a'' 1)])) =
      parents_get (store_run parents_add parents_delete parents_clear 9 ?p [SDelete (pent ''a'' 1)])"
    by (simp, blast)
  from s g[unfolded s] show ?thesis by (simp add: Let_def)
qed

end
