(* ===== verification/Api.thy ===== *)
theory Api
  imports Prelude
begin

text \<open>
  The vocabulary of the package: the data of go-fuse that crosses its interface,
  the context of a request (\<open>context.go\<close>), the interface \<open>FileSystem\<close> and the
  options (\<open>api.go\<close>), and the file system that refuses everything (\<open>default.go\<close>).
  The functions of go-fuse that the package calls are the fields of \<open>fuselib\<close>,
  a parameter of the definitions that use them.
\<close>

section \<open>Data of go-fuse\<close>

text \<open>A byte is a character, so that a byte slice and a Go string are both character lists.\<close>

type_synonym bytes = string
type_synonym duration = "64 word"

text \<open>The status codes the package names, and any other one.\<close>

datatype Status = OK | ENOSYS | ERANGE | ENODATA | Errno int

definition Ok :: "Status \<Rightarrow> bool" where
  "Ok code \<longleftrightarrow> code = OK"

lemma Ok_simps [simp]: "Ok OK" "\<not> Ok ENOSYS" "\<not> Ok ERANGE" "\<not> Ok ENODATA" "\<not> Ok (Errno e)"
  by (simp_all add: Ok_def)

lemma not_Ok [simp]: "\<not> Ok code \<longleftrightarrow> code \<noteq> OK"
  by (simp add: Ok_def)

record Owner =
  ow_Uid :: u32
  ow_Gid :: u32

record Caller =
  ca_Owner :: Owner
  ca_Pid :: u32

definition Caller_zero :: Caller where
  "Caller_zero = \<lparr>ca_Owner = \<lparr>ow_Uid = 0, ow_Gid = 0\<rparr>, ca_Pid = 0\<rparr>"

text \<open>The fields of \<open>fuse.Attr\<close> that the package reads or writes.\<close>

record Attr =
  at_Ino :: u64
  at_Size :: u64
  at_Blocks :: u64
  at_Mode :: u32
  at_Uid :: u32
  at_Gid :: u32
  at_Blksize :: u32

record EntryOut =
  eo_NodeId :: u64
  eo_Generation :: u64
  eo_EntryValid :: u64
  eo_AttrValid :: u64
  eo_EntryValidNsec :: u32
  eo_AttrValidNsec :: u32
  eo_Attr :: Attr

record AttrOut =
  ao_AttrValid :: u64
  ao_AttrValidNsec :: u32
  ao_Attr :: Attr

record OpenOut =
  oo_Fh :: u64
  oo_OpenFlags :: u32

record DirEntry =
  de_Mode :: u32
  de_Name :: string
  de_Ino :: u64

record FileLock =
  lk_Start :: u64
  lk_End :: u64
  lk_Typ :: u32
  lk_Pid :: u32

record StatfsOut =
  sf_Blocks :: u64
  sf_Bfree :: u64
  sf_Bavail :: u64
  sf_Files :: u64
  sf_Ffree :: u64
  sf_Bsize :: u32
  sf_NameLen :: u32
  sf_Frsize :: u32

text \<open>A read result is nil or holds data.\<close>

type_synonym ReadResult = "bytes option"

text \<open>
  The functions and constants of go-fuse the package uses, and the platform the
  package is built for. \<open>AddDirLookupEntry\<close> answers with a pointer into the reply,
  nil when the entry does not fit; \<open>lib_SetLookupEntry\<close> is a write through that
  pointer. The type \<open>'d\<close> is the reply \<open>DirEntryList\<close>; \<open>lib_NodeIds\<close> is what the kernel
  reads in it, the numbers other than 0 of its entries, and no code uses it.
\<close>

datatype goos = Linux | Darwin

record 'd fuselib =
  lib_goos :: goos
  lib_IsDir :: "Attr \<Rightarrow> bool"
  lib_EntryOut_SetAttrTimeout :: "duration \<Rightarrow> EntryOut \<Rightarrow> EntryOut"
  lib_EntryOut_SetEntryTimeout :: "duration \<Rightarrow> EntryOut \<Rightarrow> EntryOut"
  lib_AttrOut_SetTimeout :: "duration \<Rightarrow> AttrOut \<Rightarrow> AttrOut"
  lib_FOPEN_DIRECT_IO :: u32
  lib_FOPEN_KEEP_CACHE :: u32
  lib_AddDirEntry :: "DirEntry \<Rightarrow> 'd \<Rightarrow> bool \<times> 'd"
  lib_AddDirLookupEntry :: "DirEntry \<Rightarrow> 'd \<Rightarrow> EntryOut option \<times> 'd"
  lib_SetLookupEntry :: "EntryOut \<Rightarrow> 'd \<Rightarrow> 'd"
  lib_NodeIds :: "'d \<Rightarrow> u64 list"

text \<open>\<open>syscall.S_IFDIR\<close>, which \<open>fuse.S_IFDIR\<close> repeats.\<close>

definition S_IFDIR :: u32 where
  "S_IFDIR = 0x4000"

section \<open>The context of a request (context.go)\<close>

text \<open>A channel is a number, 0 for the nil channel; whether it can be received from is
  up to the environment.\<close>

type_synonym chan = nat

record Context =
  cx_Cancel :: chan
  cx_Caller :: Caller
  cx_Opener :: "Owner option"

definition Context_zero :: Context where
  "Context_zero = \<lparr>cx_Cancel = 0, cx_Caller = Caller_zero, cx_Opener = None\<rparr>"

definition Context_Deadline :: "Context \<Rightarrow> time \<times> bool" where
  "Context_Deadline c = (0, False)"

definition Context_Done :: "Context \<Rightarrow> chan" where
  "Context_Done c = cx_Cancel c"

datatype ctx_error = Canceled

definition Context_Err :: "(chan \<Rightarrow> bool) \<Rightarrow> Context \<Rightarrow> ctx_error option" where
  "Context_Err ready c = (if cx_Cancel c \<noteq> 0 \<and> ready (cx_Cancel c) then Some Canceled else None)"

text \<open>
  Keys and values of a \<open>context.Context\<close>, as interface values: \<open>Any_Owner None\<close> is an
  interface that holds a nil \<open>*fuse.Owner\<close>, which is not the nil interface.
\<close>

datatype ctx_key = openerKey | Key_other nat

datatype any = Any_nil | Any_Owner "Owner option" | Any_other nat

definition Context_Value :: "Context \<Rightarrow> ctx_key \<Rightarrow> any" where
  "Context_Value c key = (if key = openerKey then Any_Owner (cx_Opener c) else Any_nil)"

text \<open>A \<open>context.Context\<close>: a request's, one of \<open>context.WithValue\<close>, or one with no values.\<close>

datatype gocontext =
    Ctx_request Context
  | Ctx_value gocontext ctx_key any
  | Ctx_background

fun gocontext_Value :: "gocontext \<Rightarrow> ctx_key \<Rightarrow> any" where
  "gocontext_Value (Ctx_request c) key = Context_Value c key"
| "gocontext_Value (Ctx_value parent k v) key = (if k = key then v else gocontext_Value parent key)"
| "gocontext_Value Ctx_background key = Any_nil"

definition OpenerValue :: "gocontext \<Rightarrow> Owner option \<times> bool" where
  "OpenerValue ctx = (case gocontext_Value ctx openerKey of Any_Owner v \<Rightarrow> (v, True) | _ \<Rightarrow> (None, False))"

definition WithOpener :: "gocontext \<Rightarrow> Owner option \<Rightarrow> gocontext" where
  "WithOpener ctx opener = Ctx_value ctx openerKey (Any_Owner opener)"

text \<open>
  The pool of contexts. \<open>contextPool.Get()\<close> takes a context from the pool, or makes a
  new one when there is none to take.
\<close>

definition contextPool_Get :: "Context list \<Rightarrow> Context \<times> Context list" where
  "contextPool_Get pool = (case pool of [] \<Rightarrow> (Context_zero, []) | c # cs \<Rightarrow> (c, cs))"

definition newContext :: "chan \<Rightarrow> Caller \<Rightarrow> Context list \<Rightarrow> Context \<times> Context list" where
  "newContext cancel caller pool =
    (let (ctx, pool') = contextPool_Get pool
     in (ctx\<lparr>cx_Cancel := cancel, cx_Caller := caller, cx_Opener := None\<rparr>, pool'))"

definition releaseContext :: "Context \<Rightarrow> Context list \<Rightarrow> Context list" where
  "releaseContext ctx pool =
    ctx\<lparr>cx_Cancel := 0, cx_Caller := Caller_zero, cx_Opener := None\<rparr> # pool"

lemma newContext_fresh:
  "fst (newContext cancel caller pool) = \<lparr>cx_Cancel = cancel, cx_Caller = caller, cx_Opener = None\<rparr>"
  by (simp add: newContext_def contextPool_Get_def split: list.split)

lemma releaseContext_zero: "releaseContext ctx pool = Context_zero # pool"
  by (simp add: releaseContext_def Context_zero_def)

section \<open>The interface and the options (api.go)\<close>

text \<open>
  A file system, whose calls read and change a world of type \<open>'w\<close>. An argument
  \<open>out\<close> is passed in and its new value returned.
\<close>

record 'w FileSystem =
  fs_GetAttr :: "Context \<Rightarrow> string \<Rightarrow> u32 \<Rightarrow> Attr \<Rightarrow> 'w \<Rightarrow> (Status \<times> Attr) \<times> 'w"
  fs_Access :: "Context \<Rightarrow> string \<Rightarrow> u32 \<Rightarrow> 'w \<Rightarrow> Status \<times> 'w"
  fs_Mknod :: "Context \<Rightarrow> string \<Rightarrow> u32 \<Rightarrow> u32 \<Rightarrow> 'w \<Rightarrow> Status \<times> 'w"
  fs_Mkdir :: "Context \<Rightarrow> string \<Rightarrow> u32 \<Rightarrow> 'w \<Rightarrow> Status \<times> 'w"
  fs_Unlink :: "Context \<Rightarrow> string \<Rightarrow> 'w \<Rightarrow> Status \<times> 'w"
  fs_Rmdir :: "Context \<Rightarrow> string \<Rightarrow> 'w \<Rightarrow> Status \<times> 'w"
  fs_Rename :: "Context \<Rightarrow> string \<Rightarrow> string \<Rightarrow> 'w \<Rightarrow> Status \<times> 'w"
  fs_Link :: "Context \<Rightarrow> string \<Rightarrow> string \<Rightarrow> 'w \<Rightarrow> Status \<times> 'w"
  fs_Symlink :: "Context \<Rightarrow> string \<Rightarrow> string \<Rightarrow> 'w \<Rightarrow> Status \<times> 'w"
  fs_Readlink :: "Context \<Rightarrow> string \<Rightarrow> 'w \<Rightarrow> (string \<times> Status) \<times> 'w"
  fs_GetXAttr :: "Context \<Rightarrow> string \<Rightarrow> string \<Rightarrow> 'w \<Rightarrow> (bytes \<times> Status) \<times> 'w"
  fs_ListXAttr :: "Context \<Rightarrow> string \<Rightarrow> 'w \<Rightarrow> (string list \<times> Status) \<times> 'w"
  fs_SetXAttr :: "Context \<Rightarrow> string \<Rightarrow> string \<Rightarrow> bytes \<Rightarrow> u32 \<Rightarrow> 'w \<Rightarrow> Status \<times> 'w"
  fs_RemoveXAttr :: "Context \<Rightarrow> string \<Rightarrow> string \<Rightarrow> 'w \<Rightarrow> Status \<times> 'w"
  fs_Create :: "Context \<Rightarrow> string \<Rightarrow> u32 \<Rightarrow> u32 \<Rightarrow> 'w \<Rightarrow> (u32 \<times> bool \<times> Status) \<times> 'w"
  fs_Open :: "Context \<Rightarrow> string \<Rightarrow> u32 \<Rightarrow> 'w \<Rightarrow> (u32 \<times> bool \<times> bool \<times> Status) \<times> 'w"
  fs_Read :: "Context \<Rightarrow> string \<Rightarrow> u32 \<Rightarrow> bytes \<Rightarrow> u64 \<Rightarrow> 'w \<Rightarrow> (ReadResult \<times> Status) \<times> 'w"
  fs_Write :: "Context \<Rightarrow> string \<Rightarrow> u32 \<Rightarrow> bytes \<Rightarrow> u64 \<Rightarrow> 'w \<Rightarrow> (u32 \<times> Status) \<times> 'w"
  fs_Fallocate :: "Context \<Rightarrow> string \<Rightarrow> u32 \<Rightarrow> u64 \<Rightarrow> u64 \<Rightarrow> u32 \<Rightarrow> 'w \<Rightarrow> Status \<times> 'w"
  fs_Fsync :: "Context \<Rightarrow> string \<Rightarrow> u32 \<Rightarrow> u32 \<Rightarrow> 'w \<Rightarrow> Status \<times> 'w"
  fs_Flush :: "Context \<Rightarrow> string \<Rightarrow> u32 \<Rightarrow> u64 \<Rightarrow> 'w \<Rightarrow> Status \<times> 'w"
  fs_Release :: "Context \<Rightarrow> string \<Rightarrow> u32 \<Rightarrow> 'w \<Rightarrow> unit \<times> 'w"
  fs_GetLk :: "Context \<Rightarrow> string \<Rightarrow> u32 \<Rightarrow> u64 \<Rightarrow> FileLock \<Rightarrow> u32 \<Rightarrow> FileLock \<Rightarrow> 'w \<Rightarrow> (Status \<times> FileLock) \<times> 'w"
  fs_SetLk :: "Context \<Rightarrow> string \<Rightarrow> u32 \<Rightarrow> u64 \<Rightarrow> FileLock \<Rightarrow> u32 \<Rightarrow> 'w \<Rightarrow> Status \<times> 'w"
  fs_SetLkw :: "Context \<Rightarrow> string \<Rightarrow> u32 \<Rightarrow> u64 \<Rightarrow> FileLock \<Rightarrow> u32 \<Rightarrow> 'w \<Rightarrow> Status \<times> 'w"
  fs_Chmod :: "Context \<Rightarrow> string \<Rightarrow> u32 \<Rightarrow> u32 \<Rightarrow> 'w \<Rightarrow> Status \<times> 'w"
  fs_Chown :: "Context \<Rightarrow> string \<Rightarrow> u32 \<Rightarrow> u32 \<Rightarrow> u32 \<Rightarrow> 'w \<Rightarrow> Status \<times> 'w"
  fs_Truncate :: "Context \<Rightarrow> string \<Rightarrow> u32 \<Rightarrow> u64 \<Rightarrow> 'w \<Rightarrow> Status \<times> 'w"
  fs_Utimens :: "Context \<Rightarrow> string \<Rightarrow> u32 \<Rightarrow> time option \<Rightarrow> time option \<Rightarrow> 'w \<Rightarrow> Status \<times> 'w"
  fs_Lsdir :: "Context \<Rightarrow> string \<Rightarrow> 'w \<Rightarrow> (DirEntry list \<times> Status) \<times> 'w"
  fs_StatFs :: "Context \<Rightarrow> string \<Rightarrow> StatfsOut \<Rightarrow> 'w \<Rightarrow> (Status \<times> StatfsOut) \<times> 'w"

text \<open>Of the logger only matters whether one is set.\<close>

record Options =
  op_EntryTimeout :: "duration option"
  op_AttrTimeout :: "duration option"
  op_NegativeTimeout :: "duration option"
  op_NullPermissions :: bool
  op_UID :: u32
  op_GID :: u32
  op_Logger :: bool

definition Options_default :: Options where
  "Options_default =
    \<lparr>op_EntryTimeout = Some 1000000000, op_AttrTimeout = Some 1000000000, op_NegativeTimeout = None,
     op_NullPermissions = False, op_UID = 0, op_GID = 0, op_Logger = False\<rparr>"

end
