(* ===== verification/Inode.thy ===== *)
theory Inode
  imports Parents Api
begin

text \<open>
  The state of the package: inodes and open files on a heap of addresses, and the
  bridge (\<open>rawBridge\<close>) that holds the table of inodes by number, the table of open
  files, and what its environment provides (fresh addresses, a clock, random
  numbers, a log). Here are also the constructors \<open>newInode\<close> and \<open>NewPathFS\<close>, and the
  look-ups \<open>inode\<close>, \<open>inodeSafe\<close> and \<open>inodeAndFile\<close>.
\<close>

section \<open>Inodes\<close>

text \<open>
  \<open>children\<close> is None for the nil map of an inode that is no directory. The mutex \<open>mu\<close>
  has no value here: \<open>Locks\<close> models which mutexes an operation takes, in which order.
\<close>

record inode =
  ino :: u64
  revision :: u32
  lookupCount :: u32
  parents :: inodeParents
  children :: "(string \<times> addr) list option"

definition inode_zero :: inode where
  "inode_zero =
    \<lparr>ino = 0, revision = 0, lookupCount = 0, parents = inodeParents_zero, children = None\<rparr>"

text \<open>Reading \<open>children\<close>, and its length, take a nil map for an empty one.\<close>

definition childmap :: "inode \<Rightarrow> (string \<times> addr) list" where
  "childmap n = (case children n of None \<Rightarrow> [] | Some m \<Rightarrow> m)"

definition child :: "inode \<Rightarrow> string \<Rightarrow> addr" where
  "child n name = go_get (childmap n) name"

definition isDir :: "inode \<Rightarrow> bool" where
  "isDir n \<longleftrightarrow> children n \<noteq> None"

definition isLive :: "inode \<Rightarrow> bool" where
  "isLive n \<longleftrightarrow> 0 < lookupCount n \<or> 0 < length (childmap n)"

text \<open>\<open>delete(n.children, name)\<close>, which does nothing to a nil map.\<close>

definition del_child :: "string \<Rightarrow> inode \<Rightarrow> inode" where
  "del_child name n = n\<lparr>children := map_option (AList.delete name) (children n)\<rparr>"

definition bump :: "inode \<Rightarrow> inode" where
  "bump n = n\<lparr>revision := revision n + 1\<rparr>"

section \<open>The bridge\<close>

record fileEntry =
  fe_opener :: Owner
  fe_path :: string
  fe_uFh :: u32
  fe_stream :: "DirEntry list option"

definition fileEntry_zero :: fileEntry where
  "fileEntry_zero =
    \<lparr>fe_opener = \<lparr>ow_Uid = 0, ow_Gid = 0\<rparr>, fe_path = '''', fe_uFh = 0, fe_stream = None\<rparr>"

text \<open>The messages of \<open>logf\<close>.\<close>

datatype logmsg =
    Log_orphaned u64 string
  | Log_empty_name u32
  | Log_lost u64

record rawBridge =
  options :: Options
  root :: addr
  nodes :: "(u64 \<times> addr) list"
  nodeCountHigh :: nat
  files :: "fileEntry list"
  freeFiles :: "u32 list"
  heap :: "addr \<Rightarrow> inode"
  hnext :: addr
  clock :: time
  rands :: "nat \<Rightarrow> u64"
  randpos :: nat
  logs :: "logmsg list"

definition upd :: "addr \<Rightarrow> (inode \<Rightarrow> inode) \<Rightarrow> rawBridge \<Rightarrow> rawBridge" where
  "upd a f b = b\<lparr>heap := (heap b)(a := f (heap b a))\<rparr>"

text \<open>\<open>logf\<close> prints when the options have a logger.\<close>

definition logf :: "logmsg \<Rightarrow> (rawBridge, unit) M" where
  "logf m = modifyM (\<lambda>b. if op_Logger (options b) then b\<lparr>logs := logs b @ [m]\<rparr> else b)"

text \<open>\<open>time.Now()\<close>: a time later than all those read before.\<close>

definition now :: "(rawBridge, time) M" where
  "now = bindM (getsM clock) (\<lambda>t. bindM (modifyM (\<lambda>b. b\<lparr>clock := Suc t\<rparr>)) (\<lambda>_. ret t))"

definition rand_Uint64 :: "(rawBridge, u64) M" where
  "rand_Uint64 = bindM (getsM (\<lambda>b. rands b (randpos b)))
    (\<lambda>r. bindM (modifyM (\<lambda>b. b\<lparr>randpos := Suc (randpos b)\<rparr>)) (\<lambda>_. ret r))"

text \<open>A pointer \<open>&inode{...}\<close> to a new object.\<close>

definition alloc :: "inode \<Rightarrow> (rawBridge, addr) M" where
  "alloc n = bindM (getsM hnext)
    (\<lambda>a. bindM (modifyM (\<lambda>b. b\<lparr>heap := (heap b)(a := n), hnext := Suc a\<rparr>)) (\<lambda>_. ret a))"

definition newInode :: "u64 \<Rightarrow> bool \<Rightarrow> (rawBridge, addr) M" where
  "newInode i dir =
    (if i = NOT 0 then fail Panic_reserved_ino
     else let n = inode_zero\<lparr>ino := i\<rparr>
          in alloc (if dir then n\<lparr>children := Some []\<rparr> else n))"

text \<open>
  A bridge before \<open>NewPathFS\<close>: no object yet, and an environment with any random
  numbers. Address 0 is the nil pointer.
\<close>

definition bridge_blank :: "Options \<Rightarrow> (nat \<Rightarrow> u64) \<Rightarrow> rawBridge" where
  "bridge_blank opts rs =
    \<lparr>options = opts, root = nil, nodes = [], nodeCountHigh = 0, files = [], freeFiles = [],
     heap = (\<lambda>_. inode_zero), hnext = 1, clock = 1, rands = rs, randpos = 0, logs = []\<rparr>"

definition NewPathFS :: "Options option \<Rightarrow> (nat \<Rightarrow> u64) \<Rightarrow> abort + rawBridge" where
  "NewPathFS opts0 rs =
    (let opts = (case opts0 of None \<Rightarrow> Options_default | Some opts \<Rightarrow> opts)
     in case newInode 1 True (bridge_blank opts rs) of
          Inl e \<Rightarrow> Inl e
        | Inr (r, b) \<Rightarrow>
            let b1 = b\<lparr>root := r\<rparr>;
                b2 = b1\<lparr>nodes := [(1, root b1)]\<rparr>;
                b3 = upd (root b2) (\<lambda>n. n\<lparr>lookupCount := 1\<rparr>) b2;
                b4 = b3\<lparr>nodeCountHigh := 1\<rparr>
            in Inr (b4\<lparr>files := [fileEntry_zero]\<rparr>))"

section \<open>Look-ups\<close>

definition bridge_inode :: "u64 \<Rightarrow> (rawBridge, addr) M" where
  "bridge_inode i = bindM (getsM (\<lambda>b. go_get (nodes b) i))
    (\<lambda>n. if n = nil then fail (Panic_unknown_node i) else ret n)"

definition inodeSafe :: "u64 \<Rightarrow> (rawBridge, addr) M" where
  "inodeSafe i = getsM (\<lambda>b. go_get (nodes b) i)"

text \<open>
  \<open>inodeAndFile\<close> reads \<open>b.files[fh]\<close>, which panics when out of range, before it looks at
  the inode; no entry of \<open>files\<close> is a nil pointer. It sets the opener of the context.
\<close>

definition inodeAndFile :: "u64 \<Rightarrow> u32 \<Rightarrow> Context \<Rightarrow> (rawBridge, addr \<times> fileEntry \<times> Context) M" where
  "inodeAndFile i fh ctx =
    bindM (getsM (\<lambda>b. go_get (nodes b) i)) (\<lambda>n.
    bindM (getsM files) (\<lambda>fs.
      if length fs \<le> unat fh then fail Panic_index
      else if n = nil then fail (Panic_unknown_node i)
      else let f = fs ! unat fh;
               ctx' = (if fh \<noteq> 0 then ctx\<lparr>cx_Opener := Some (fe_opener f)\<rparr> else ctx)
           in ret (n, f, ctx')))"

definition NodeCount :: "(rawBridge, nat) M" where
  "NodeCount = getsM (\<lambda>b. length (nodes b))"

section \<open>Lemmas\<close>

lemma heap_upd [simp]: "heap (upd a f b) = (heap b)(a := f (heap b a))"
  by (simp add: upd_def)

lemma upd_frame [simp]:
  "options (upd a f b) = options b" "root (upd a f b) = root b" "nodes (upd a f b) = nodes b"
  "nodeCountHigh (upd a f b) = nodeCountHigh b" "files (upd a f b) = files b"
  "freeFiles (upd a f b) = freeFiles b" "hnext (upd a f b) = hnext b" "clock (upd a f b) = clock b"
  "rands (upd a f b) = rands b" "randpos (upd a f b) = randpos b" "logs (upd a f b) = logs b"
  by (simp_all add: upd_def)

lemma childmap_simps [simp]:
  "children n = None \<Longrightarrow> childmap n = []" "children n = Some m \<Longrightarrow> childmap n = m"
  by (simp_all add: childmap_def)

lemma childmap_children_upd [simp]:
  "childmap (n\<lparr>children := Some m\<rparr>) = m" "childmap (n\<lparr>children := None\<rparr>) = []"
  by (simp_all add: childmap_def)

lemma childmap_frame [simp]:
  "childmap (n\<lparr>ino := i\<rparr>) = childmap n" "childmap (n\<lparr>revision := r\<rparr>) = childmap n"
  "childmap (n\<lparr>lookupCount := k\<rparr>) = childmap n" "childmap (n\<lparr>parents := p\<rparr>) = childmap n"
  "childmap (bump n) = childmap n"
  by (simp_all add: childmap_def bump_def)

lemma bump_frame [simp]:
  "ino (bump n) = ino n" "lookupCount (bump n) = lookupCount n" "parents (bump n) = parents n"
  "children (bump n) = children n" "revision (bump n) = revision n + 1"
  by (simp_all add: bump_def)

lemma childmap_del_child [simp]: "childmap (del_child name n) = AList.delete name (childmap n)"
  by (simp add: childmap_def del_child_def split: option.split)

lemma del_child_frame [simp]:
  "ino (del_child name n) = ino n" "lookupCount (del_child name n) = lookupCount n"
  "parents (del_child name n) = parents n" "revision (del_child name n) = revision n"
  "isDir (del_child name n) = isDir n"
  by (simp_all add: del_child_def isDir_def)

lemma isLive_cong: "lookupCount n = lookupCount m \<Longrightarrow> childmap n = childmap m \<Longrightarrow> isLive n = isLive m"
  by (simp add: isLive_def)

lemma inode_zero_simps [simp]:
  "ino inode_zero = 0" "revision inode_zero = 0" "lookupCount inode_zero = 0"
  "parents inode_zero = inodeParents_zero" "children inode_zero = None" "childmap inode_zero = []"
  by (simp_all add: inode_zero_def childmap_def)

lemma now_apply [monad_simps]: "now b = Inr (clock b, b\<lparr>clock := Suc (clock b)\<rparr>)"
  by (simp add: now_def monad_simps)

lemma rand_apply [monad_simps]:
  "rand_Uint64 b = Inr (rands b (randpos b), b\<lparr>randpos := Suc (randpos b)\<rparr>)"
  by (simp add: rand_Uint64_def monad_simps)

lemma alloc_apply [monad_simps]:
  "alloc n b = Inr (hnext b, b\<lparr>heap := (heap b)(hnext b := n), hnext := Suc (hnext b)\<rparr>)"
  by (simp add: alloc_def monad_simps)

lemma bridge_inode_apply [monad_simps]:
  "bridge_inode i b =
    (if go_get (nodes b) i = nil then Inl (Panic_unknown_node i) else Inr (go_get (nodes b) i, b))"
  by (simp add: bridge_inode_def monad_simps)

lemma inodeSafe_apply [monad_simps]: "inodeSafe i b = Inr (go_get (nodes b) i, b)"
  by (simp add: inodeSafe_def monad_simps)

end
