(* ===== verification/Tree.thy ===== *)
theory Tree
  imports Inode
begin

text \<open>
  The operations on the tree of inodes (\<open>inode.go\<close>): \<open>addChild\<close>, \<open>removeRef\<close>, \<open>rmChild\<close>
  and \<open>mvChild\<close>. Each is one call that no other call interrupts; the places where the
  code re-reads a revision after it has taken more locks, and starts over when it
  has changed, are loops here as they are in the code. A loop gets as fuel the
  number of rounds an undisturbed call needs, and \<open>removeRef\<close>, which calls itself on
  the parents of the inode it removes, a depth that grows with the number of parent
  links (\<open>links\<close>); that the fuel is enough is proved in \<open>Tree_Inv\<close>.
\<close>

section \<open>addChild\<close>

text \<open>The loop that locks the parent, and the inode the table has for the number.\<close>

fun addChild_loop :: "nat \<Rightarrow> u64 \<Rightarrow> addr \<Rightarrow> (rawBridge, addr) M" where
  "addChild_loop 0 i c = fail Diverges"
| "addChild_loop (Suc k) i c =
     bindM (getsM (\<lambda>b. go_get (nodes b) i)) (\<lambda>old.
       if old = c then ret c else addChild_loop k i old)"

text \<open>\<open>parent.children[name] = child\<close>, a panic when \<open>children\<close> is the nil map.\<close>

definition set_child :: "addr \<Rightarrow> string \<Rightarrow> addr \<Rightarrow> (rawBridge, unit) M" where
  "set_child p name c =
    bindM (getsM (\<lambda>b. children (heap b p))) (\<lambda>m.
      case m of
        None \<Rightarrow> fail Panic_nil_map
      | Some cs \<Rightarrow> modifyM (upd p (\<lambda>n. n\<lparr>children := Some (AList.update name c cs)\<rparr>)))"

definition add_parent :: "addr \<Rightarrow> parentEntry \<Rightarrow> (rawBridge, unit) M" where
  "add_parent c e =
    bindM now (\<lambda>t. modifyM (upd c (\<lambda>n. n\<lparr>parents := parents_add t e (parents n)\<rparr>)))"

definition del_parent :: "addr \<Rightarrow> parentEntry \<Rightarrow> (rawBridge, unit) M" where
  "del_parent c e = modifyM (upd c (\<lambda>n. n\<lparr>parents := parents_delete e (parents n)\<rparr>))"

definition bumpM :: "addr \<Rightarrow> (rawBridge, unit) M" where
  "bumpM a = modifyM (upd a bump)"

definition addChild :: "addr \<Rightarrow> string \<Rightarrow> u64 \<Rightarrow> bool \<Rightarrow> (rawBridge, addr) M" where
  "addChild parent name i dir =
    (if name = ''.'' \<or> name = ''..'' then fail (Panic_virtual_entry name)
     else
       bindM (addChild_loop 2 i nil) (\<lambda>c0.
       bindM (if c0 = nil then newInode i dir else ret c0) (\<lambda>c.
       bindM (modifyM (upd c (\<lambda>n. n\<lparr>lookupCount := lookupCount n + 1\<rparr>))) (\<lambda>_.
       bindM (bumpM c) (\<lambda>_.
       bindM (modifyM (\<lambda>b. b\<lparr>nodes := AList.update i c (nodes b)\<rparr>)) (\<lambda>_.
       bindM (modifyM (\<lambda>b. if nodeCountHigh b < length (nodes b)
                           then b\<lparr>nodeCountHigh := length (nodes b)\<rparr> else b)) (\<lambda>_.
       bindM (set_child parent name c) (\<lambda>_.
       bindM (add_parent c (pent name parent)) (\<lambda>_.
       bindM (bumpM parent) (\<lambda>_.
       bindM (bumpM c) (\<lambda>_.
       ret c)))))))))))"

section \<open>removeRef\<close>

text \<open>
  The loop that takes the locks of the inode and of its parents, and starts over when
  the inode changed before it had them all.
\<close>

fun removeRef_group :: "nat \<Rightarrow> addr \<Rightarrow> (rawBridge, parentEntry list) M" where
  "removeRef_group 0 n = fail Diverges"
| "removeRef_group (Suc k) n =
     bindM (getsM (\<lambda>b. revision (heap b n))) (\<lambda>rev.
     bindM (getsM (\<lambda>b. parents_all (parents (heap b n)))) (\<lambda>pes.
     bindM (getsM (\<lambda>b. revision (heap b n))) (\<lambda>rev'.
       if rev' \<noteq> rev then removeRef_group k n else ret pes)))"

text \<open>One round of the loop that takes the inode out of the directories it is in.\<close>

definition unlink_st :: "addr \<Rightarrow> parentEntry \<Rightarrow> rawBridge \<Rightarrow> rawBridge" where
  "unlink_st n pe b =
    (if child (heap b (pe_node pe)) (pe_name pe) \<noteq> n then b
     else upd (pe_node pe) bump (upd (pe_node pe) (del_child (pe_name pe)) b))"

primrec removeRef :: "nat \<Rightarrow> addr \<Rightarrow> u32 \<Rightarrow> (rawBridge, bool) M" where
  "removeRef 0 = (\<lambda>n nlookup. fail Diverges)"
| "removeRef (Suc k) = (\<lambda>n nlookup.
     bindM (getsM (\<lambda>b. heap b n)) (\<lambda>v.
       if lookupCount v < nlookup
       then fail (Panic_lookup_underflow (ino v) (lookupCount v) nlookup)
       else
         bindM (if 0 < nlookup
                then bindM (modifyM (upd n (\<lambda>v. v\<lparr>lookupCount := lookupCount v - nlookup\<rparr>))) (\<lambda>_. bumpM n)
                else ret ()) (\<lambda>_.
         bindM (getsM (\<lambda>b. isLive (heap b n))) (\<lambda>live.
           if live then ret False
           else
             bindM (modifyM (\<lambda>b. b\<lparr>nodes := AList.delete (ino (heap b n)) (nodes b)\<rparr>)) (\<lambda>_.
             bindM (removeRef_group 1 n) (\<lambda>pes.
             bindM (forM pes (\<lambda>pe. modifyM (unlink_st n pe))) (\<lambda>_.
             bindM (modifyM (upd n (\<lambda>v. v\<lparr>parents := parents_clear (parents v)\<rparr>))) (\<lambda>_.
             bindM (bumpM n) (\<lambda>_.
             bindM (getsM (\<lambda>b. heap b n)) (\<lambda>v'.
               if lookupCount v' \<noteq> 0 then fail (Panic_lookup_changed (ino v') (lookupCount v'))
               else
                 bindM (forM pes (\<lambda>pe. bindM (removeRef k (pe_node pe) 0) (\<lambda>_. ret ()))) (\<lambda>_.
                 ret True)))))))))))"

definition links :: "rawBridge \<Rightarrow> nat" where
  "links b = sum_list (map (\<lambda>a. parents_count (parents (heap b a))) [1..<hnext b])"

definition remove_ref :: "addr \<Rightarrow> u32 \<Rightarrow> (rawBridge, bool) M" where
  "remove_ref n nlookup = bindM (getsM links) (\<lambda>k. removeRef (Suc k) n nlookup)"

section \<open>rmChild\<close>

fun rmChild_loop :: "nat \<Rightarrow> addr \<Rightarrow> string \<Rightarrow> (rawBridge, bool) M" where
  "rmChild_loop 0 parent name = fail Diverges"
| "rmChild_loop (Suc k) parent name =
     bindM (getsM (\<lambda>b. revision (heap b parent))) (\<lambda>rev.
     bindM (getsM (\<lambda>b. child (heap b parent) name)) (\<lambda>c.
       if c = nil then ret False
       else
         bindM (getsM (\<lambda>b. revision (heap b parent))) (\<lambda>rev'.
           if rev' \<noteq> rev then rmChild_loop k parent name
           else
             bindM (modifyM (upd parent (del_child name))) (\<lambda>_.
             bindM (del_parent c (pent name parent)) (\<lambda>_.
             bindM (bumpM parent) (\<lambda>_.
             bindM (bumpM c) (\<lambda>_.
             bindM (getsM (\<lambda>b. isLive (heap b parent))) (\<lambda>live.
             bindM (if \<not> live then remove_ref parent 0 else ret False) (\<lambda>_.
             ret True)))))))))"

definition rmChild :: "addr \<Rightarrow> string \<Rightarrow> (rawBridge, bool) M" where
  "rmChild parent name = rmChild_loop 1 parent name"

section \<open>mvChild\<close>

fun mvChild_loop :: "nat \<Rightarrow> addr \<Rightarrow> string \<Rightarrow> addr \<Rightarrow> string \<Rightarrow> bool \<Rightarrow> (rawBridge, bool) M" where
  "mvChild_loop 0 parent name newParent newName overwrite = fail Diverges"
| "mvChild_loop (Suc k) parent name newParent newName overwrite =
     bindM (getsM (\<lambda>b. (revision (heap b parent), revision (heap b newParent)))) (\<lambda>revs.
     bindM (getsM (\<lambda>b. child (heap b parent) name)) (\<lambda>c.
     bindM (getsM (\<lambda>b. child (heap b newParent) newName)) (\<lambda>destChild.
       if destChild \<noteq> nil \<and> \<not> overwrite then ret False
       else
         bindM (getsM (\<lambda>b. (revision (heap b parent), revision (heap b newParent)))) (\<lambda>revs'.
           if revs' \<noteq> revs then mvChild_loop k parent name newParent newName overwrite
           else
             bindM (if c \<noteq> nil then
                      bindM (modifyM (upd parent (del_child name))) (\<lambda>_.
                      bindM (del_parent c (pent name parent)) (\<lambda>_.
                      bindM (bumpM parent) (\<lambda>_.
                      bumpM c)))
                    else ret ()) (\<lambda>_.
             bindM (if destChild \<noteq> nil then
                      bindM (modifyM (upd newParent (del_child newName))) (\<lambda>_.
                      bindM (del_parent destChild (pent newName newParent)) (\<lambda>_.
                      bindM (bumpM newParent) (\<lambda>_.
                      bumpM destChild)))
                    else ret ()) (\<lambda>_.
             bindM (if c \<noteq> nil then
                      bindM (set_child newParent newName c) (\<lambda>_.
                      bindM (add_parent c (pent newName newParent)) (\<lambda>_.
                      bindM (bumpM newParent) (\<lambda>_.
                      bumpM c)))
                    else ret ()) (\<lambda>_.
             bindM (getsM (\<lambda>b. isLive (heap b parent))) (\<lambda>live.
             bindM (getsM (\<lambda>b. isLive (heap b newParent))) (\<lambda>newLive.
             bindM (if \<not> live then remove_ref parent 0 else ret False) (\<lambda>_.
             bindM (if \<not> newLive then remove_ref newParent 0 else ret False) (\<lambda>_.
             ret True)))))))))))"

definition mvChild :: "addr \<Rightarrow> string \<Rightarrow> addr \<Rightarrow> string \<Rightarrow> bool \<Rightarrow> (rawBridge, bool) M" where
  "mvChild parent name newParent newName overwrite = mvChild_loop 1 parent name newParent newName overwrite"

end
