(* ===== verification/Tree_Inv.thy ===== *)
theory Tree_Inv
  imports Tree
begin

text \<open>
  The invariant of the tree of inodes, and the removal of inodes that are not live any
  more: \<open>removeRef\<close> ends within the fuel its callers give it, restores the invariant, and
  takes away no more than inodes that are not live and the edges to them.
\<close>

section \<open>Views of the state\<close>

definition valid :: "rawBridge \<Rightarrow> addr \<Rightarrow> bool" where
  "valid b a \<longleftrightarrow> a \<noteq> nil \<and> a < hnext b"

definition edge :: "rawBridge \<Rightarrow> addr \<Rightarrow> string \<Rightarrow> addr" where
  "edge b p m = child (heap b p) m"

definition pset :: "rawBridge \<Rightarrow> addr \<Rightarrow> parentEntry set" where
  "pset b c = parents_set (parents (heap b c))"

definition lookups :: "rawBridge \<Rightarrow> addr \<Rightarrow> u32" where
  "lookups b a = lookupCount (heap b a)"

definition inum :: "rawBridge \<Rightarrow> addr \<Rightarrow> u64" where
  "inum b a = ino (heap b a)"

definition live :: "rawBridge \<Rightarrow> addr \<Rightarrow> bool" where
  "live b a \<longleftrightarrow> isLive (heap b a)"

definition registered :: "rawBridge \<Rightarrow> addr \<Rightarrow> bool" where
  "registered b a \<longleftrightarrow> go_get (nodes b) (inum b a) = a"

text \<open>The number of an inode is free, or its own: no other inode has it in the table.\<close>

definition settled :: "rawBridge \<Rightarrow> addr \<Rightarrow> bool" where
  "settled b a \<longleftrightarrow> go_get (nodes b) (inum b a) = nil \<or> go_get (nodes b) (inum b a) = a"

section \<open>The invariant\<close>

definition tab_ok :: "rawBridge \<Rightarrow> bool" where
  "tab_ok b \<longleftrightarrow>
     valid b (root b) \<and> 0 < clock b \<and> go_map_ok (nodes b) \<and> length (nodes b) \<le> nodeCountHigh b \<and>
     (\<forall>i. go_get (nodes b) i \<noteq> nil \<longrightarrow>
        valid b (go_get (nodes b) i) \<and> inum b (go_get (nodes b) i) = i)"

definition heap_ok :: "rawBridge \<Rightarrow> bool" where
  "heap_ok b \<longleftrightarrow>
     (\<forall>a. valid b a \<longrightarrow> go_map_ok (childmap (heap b a)) \<and> parents_timed (clock b) (parents (heap b a)))"

text \<open>Children and parents agree, and both lead to objects of the heap.\<close>

definition edges_ok :: "rawBridge \<Rightarrow> bool" where
  "edges_ok b \<longleftrightarrow>
     (\<forall>p m. valid b p \<longrightarrow> edge b p m \<noteq> nil \<longrightarrow> valid b (edge b p m)) \<and>
     (\<forall>c e. valid b c \<longrightarrow> e \<in> pset b c \<longrightarrow> valid b (pe_node e)) \<and>
     (\<forall>p m c. valid b p \<longrightarrow> valid b c \<longrightarrow> edge b p m = c \<longleftrightarrow> pent m p \<in> pset b c)"

text \<open>
  The table holds exactly the live inodes; inodes of \<open>W\<close> may be in it and not be live,
  which is how they are while a removal is under way. An inode that is not in the table
  is in no directory.
\<close>

definition live_ok :: "addr set \<Rightarrow> rawBridge \<Rightarrow> bool" where
  "live_ok W b \<longleftrightarrow>
     (\<forall>a. valid b a \<longrightarrow> live b a \<longrightarrow> registered b a) \<and>
     (\<forall>a. valid b a \<longrightarrow> registered b a \<longrightarrow> live b a \<or> a \<in> W) \<and>
     (\<forall>a. valid b a \<longrightarrow> pset b a \<noteq> {} \<longrightarrow> registered b a)"

definition wf_upto :: "addr set \<Rightarrow> rawBridge \<Rightarrow> bool" where
  "wf_upto W b \<longleftrightarrow> tab_ok b \<and> heap_ok b \<and> edges_ok b \<and> live_ok W b"

definition tree_ok :: "rawBridge \<Rightarrow> bool" where
  "tree_ok b \<longleftrightarrow> wf_upto {} b"

lemmas wf_defs = wf_upto_def tab_ok_def heap_ok_def edges_ok_def live_ok_def

lemma wf_upto_mono: "wf_upto W b \<Longrightarrow> W \<subseteq> W' \<Longrightarrow> wf_upto W' b"
  by (auto simp: wf_upto_def live_ok_def)

lemma wf_upto_split:
  "wf_upto W b \<Longrightarrow> tab_ok b \<and> heap_ok b \<and> edges_ok b \<and> live_ok W b"
  by (simp add: wf_upto_def)

lemma edges_okD:
  "edges_ok b \<Longrightarrow> valid b p \<Longrightarrow> valid b c \<Longrightarrow> edge b p m = c \<longleftrightarrow> pent m p \<in> pset b c"
  "edges_ok b \<Longrightarrow> valid b p \<Longrightarrow> edge b p m \<noteq> nil \<Longrightarrow> valid b (edge b p m)"
  "edges_ok b \<Longrightarrow> valid b c \<Longrightarrow> e \<in> pset b c \<Longrightarrow> valid b (pe_node e)"
  unfolding edges_ok_def by blast+

lemma live_iff:
  assumes "heap_ok b" "valid b a"
  shows "live b a \<longleftrightarrow> lookups b a \<noteq> 0 \<or> (\<exists>m. edge b a m \<noteq> nil)"
proof -
  have "go_map_ok (childmap (heap b a))" using assms by (simp add: heap_ok_def)
  from go_map_empty_iff[OF this] show ?thesis
    by (auto simp: live_def isLive_def lookups_def edge_def child_def word_gt_0)
qed

lemma pset_card: "heap_ok b \<Longrightarrow> valid b a \<Longrightarrow> parents_count (parents (heap b a)) = card (pset b a)"
  by (auto simp: heap_ok_def pset_def intro!: parents_count_card dest: parents_timed_ok)

lemma finite_pset [simp]: "finite (pset b a)"
  by (simp add: pset_def parents_set_def)

lemma links_sum:
  assumes "heap_ok b"
  shows "links b = (\<Sum>a \<in> {1..<hnext b}. card (pset b a))"
proof -
  have "links b = (\<Sum>a \<in> {1..<hnext b}. parents_count (parents (heap b a)))"
    by (simp add: links_def interv_sum_list_conv_sum_set_nat)
  also have "\<dots> = (\<Sum>a \<in> {1..<hnext b}. card (pset b a))"
    using assms by (intro sum.cong) (auto simp: pset_card valid_def)
  finally show ?thesis .
qed

section \<open>Shrinking states\<close>

text \<open>
  What a removal may change: entries go from the table, edges and parents go, and
  only inodes that are not live any more, and edges to such inodes.
\<close>

definition same_env :: "rawBridge \<Rightarrow> rawBridge \<Rightarrow> bool" where
  "same_env b b' \<longleftrightarrow>
     options b' = options b \<and> root b' = root b \<and> nodeCountHigh b' = nodeCountHigh b \<and>
     files b' = files b \<and> freeFiles b' = freeFiles b \<and> hnext b' = hnext b \<and> clock b' = clock b \<and>
     rands b' = rands b \<and> randpos b' = randpos b \<and> logs b' = logs b \<and>
     (\<forall>a. inum b' a = inum b a \<and> lookups b' a = lookups b a \<and> isDir (heap b' a) = isDir (heap b a))"

definition shrinks :: "rawBridge \<Rightarrow> rawBridge \<Rightarrow> bool" where
  "shrinks b b' \<longleftrightarrow>
     same_env b b' \<and>
     (\<forall>i. go_get (nodes b') i \<noteq> nil \<longrightarrow> go_get (nodes b') i = go_get (nodes b) i) \<and>
     (\<forall>p m. edge b' p m \<noteq> nil \<longrightarrow> edge b' p m = edge b p m) \<and>
     (\<forall>a. pset b' a \<subseteq> pset b a) \<and>
     (\<forall>a. valid b a \<longrightarrow> registered b a \<longrightarrow> registered b' a \<or> \<not> live b' a) \<and>
     (\<forall>p m. valid b p \<longrightarrow> edge b p m \<noteq> nil \<longrightarrow> edge b' p m \<noteq> nil \<or> \<not> registered b' (edge b p m))"

lemma same_env_refl [simp]: "same_env b b"
  by (simp add: same_env_def)

lemma same_env_trans: "same_env b b' \<Longrightarrow> same_env b' b'' \<Longrightarrow> same_env b b''"
  by (simp add: same_env_def)

lemma same_env_valid: "same_env b b' \<Longrightarrow> valid b' a = valid b a"
  by (simp add: same_env_def valid_def)

lemma shrinks_refl [simp]: "shrinks b b"
  by (simp add: shrinks_def)

lemma shrinks_env: "shrinks b b' \<Longrightarrow> same_env b b'"
  by (simp add: shrinks_def)

lemma shrinks_valid: "shrinks b b' \<Longrightarrow> valid b' a = valid b a"
  by (simp add: shrinks_def same_env_valid)

lemma shrinks_registered: "shrinks b b' \<Longrightarrow> a \<noteq> nil \<Longrightarrow> registered b' a \<Longrightarrow> registered b a"
  by (auto simp: shrinks_def registered_def same_env_def)

lemma shrinks_settled: "shrinks b b' \<Longrightarrow> settled b a \<Longrightarrow> settled b' a"
  by (auto simp: shrinks_def settled_def same_env_def)

lemma shrinks_live:
  assumes "shrinks b b'" "live b' a" "heap_ok b" "heap_ok b'" "valid b a"
  shows "live b a"
proof -
  have v: "valid b' a" using assms by (simp add: shrinks_valid)
  from assms(1) have l: "lookups b' a = lookups b a"
    and e: "edge b' a m \<noteq> nil \<Longrightarrow> edge b' a m = edge b a m" for m
    by (simp_all add: shrinks_def same_env_def)
  from assms(2) have "lookups b' a \<noteq> 0 \<or> (\<exists>m. edge b' a m \<noteq> nil)"
    using assms(4) v by (simp add: live_iff)
  then have "lookups b a \<noteq> 0 \<or> (\<exists>m. edge b a m \<noteq> nil)" using l e by metis
  then show ?thesis using assms(3,5) by (simp add: live_iff)
qed

lemma shrinks_trans:
  assumes 1: "shrinks b b'" and 2: "shrinks b' b''"
    and h: "heap_ok b" "heap_ok b'" "heap_ok b''" and e: "edges_ok b"
  shows "shrinks b b''"
  unfolding shrinks_def
proof (intro conjI allI impI)
  show "same_env b b''" using 1 2 same_env_trans by (auto simp: shrinks_def)
  show "go_get (nodes b'') i = go_get (nodes b) i" if "go_get (nodes b'') i \<noteq> nil" for i
    using 1 2 that unfolding shrinks_def by metis
  show "edge b'' p m = edge b p m" if "edge b'' p m \<noteq> nil" for p m
    using 1 2 that unfolding shrinks_def by metis
  show "pset b'' a \<subseteq> pset b a" for a
    using 1 2 unfolding shrinks_def by blast
  show "registered b'' a \<or> \<not> live b'' a" if "valid b a" "registered b a" for a
  proof (cases "registered b' a")
    case True
    then show ?thesis using 2 that shrinks_valid[OF 1] unfolding shrinks_def by blast
  next
    case False
    then have "\<not> live b' a" using 1 that unfolding shrinks_def by blast
    then have "\<not> live b'' a" using shrinks_live[OF 2] h that shrinks_valid[OF 1] by blast
    then show ?thesis by simp
  qed
  show "edge b'' p m \<noteq> nil \<or> \<not> registered b'' (edge b p m)" if "valid b p" "edge b p m \<noteq> nil" for p m
  proof (cases "edge b' p m = nil")
    case True
    then have "\<not> registered b' (edge b p m)" using 1 that unfolding shrinks_def by blast
    then show ?thesis using shrinks_registered[OF 2] that by blast
  next
    case False
    then have "edge b' p m = edge b p m" using 1 unfolding shrinks_def by blast
    then show ?thesis using 2 that False shrinks_valid[OF 1] unfolding shrinks_def by metis
  qed
qed

section \<open>Updates of one inode\<close>

named_theorems view_simps \<open>the views after an update\<close>

lemma view_upd [view_simps]:
  "valid (upd x f b) a = valid b a"
  "edge (upd x f b) p m = (if p = x then child (f (heap b x)) m else edge b p m)"
  "pset (upd x f b) c = (if c = x then parents_set (parents (f (heap b x))) else pset b c)"
  "lookups (upd x f b) a = (if a = x then lookupCount (f (heap b x)) else lookups b a)"
  "inum (upd x f b) a = (if a = x then ino (f (heap b x)) else inum b a)"
  by (simp_all add: valid_def edge_def pset_def lookups_def inum_def)

lemma view_nodes [view_simps]:
  "valid (b\<lparr>nodes := t\<rparr>) a = valid b a" "edge (b\<lparr>nodes := t\<rparr>) p m = edge b p m"
  "pset (b\<lparr>nodes := t\<rparr>) c = pset b c" "lookups (b\<lparr>nodes := t\<rparr>) a = lookups b a"
  "inum (b\<lparr>nodes := t\<rparr>) a = inum b a" "live (b\<lparr>nodes := t\<rparr>) a = live b a"
  by (simp_all add: valid_def edge_def pset_def lookups_def inum_def live_def)

lemma child_simps [view_simps]:
  "child (n\<lparr>ino := i\<rparr>) m = child n m" "child (n\<lparr>revision := r\<rparr>) m = child n m"
  "child (n\<lparr>lookupCount := k\<rparr>) m = child n m" "child (n\<lparr>parents := p\<rparr>) m = child n m"
  "child (bump n) m = child n m"
  "child (del_child name n) m = (if m = name then nil else child n m)"
  "child (n\<lparr>children := Some cs\<rparr>) m = go_get cs m"
  by (simp_all add: child_def)

lemma isDir_simps [view_simps]:
  "isDir (n\<lparr>ino := i\<rparr>) = isDir n" "isDir (n\<lparr>revision := r\<rparr>) = isDir n"
  "isDir (n\<lparr>lookupCount := k\<rparr>) = isDir n" "isDir (n\<lparr>parents := p\<rparr>) = isDir n"
  "isDir (bump n) = isDir n" "isDir (del_child name n) = isDir n"
  "isDir (n\<lparr>children := Some cs\<rparr>)"
  by (simp_all add: isDir_def del_child_def bump_def)

lemma edge_child [view_simps]: "child (heap b p) m = edge b p m"
  by (simp add: edge_def)

lemma heap_views [view_simps]:
  "parents_set (parents (heap b c)) = pset b c" "lookupCount (heap b a) = lookups b a"
  "ino (heap b a) = inum b a" "isLive (heap b a) = live b a"
  by (simp_all add: pset_def lookups_def inum_def live_def)

text \<open>Equal views give equal heaps as far as \<open>heap_ok\<close> looks.\<close>

lemma heap_okI:
  assumes "heap_ok b" "\<And>a. valid b' a = valid b a" "clock b \<le> clock b'"
    and "\<And>a. valid b a \<Longrightarrow> go_map_ok (childmap (heap b a)) \<Longrightarrow> go_map_ok (childmap (heap b' a))"
    and "\<And>a. valid b a \<Longrightarrow> parents_timed (clock b) (parents (heap b a)) \<Longrightarrow>
           parents_timed (clock b') (parents (heap b' a))"
  shows "heap_ok b'"
  using assms by (simp add: heap_ok_def)

section \<open>Taking an inode out of its directories\<close>

lemma unlink_env: "same_env b (unlink_st n pe b) \<and> nodes (unlink_st n pe b) = nodes b"
  by (simp add: unlink_st_def same_env_def view_simps)

lemma unlink_edge:
  "edge (unlink_st n pe b) p m = (if pent m p = pe \<and> edge b p m = n then nil else edge b p m)"
  by (cases pe) (auto simp: unlink_st_def view_simps)

lemma unlink_parents: "parents (heap (unlink_st n pe b) a) = parents (heap b a)"
  by (simp add: unlink_st_def)

lemma unlink_childmap:
  "go_map_ok (childmap (heap b a)) \<Longrightarrow> go_map_ok (childmap (heap (unlink_st n pe b) a))"
  by (auto simp: unlink_st_def)

lemma unlinks_env: "same_env b (fold (unlink_st n) pes b) \<and> nodes (fold (unlink_st n) pes b) = nodes b"
proof (induction pes arbitrary: b)
  case (Cons pe pes)
  then show ?case using unlink_env[of b n pe] by (metis fold_simps(2) same_env_trans)
qed simp

lemma unlinks_edge:
  "edge (fold (unlink_st n) pes b) p m = (if pent m p \<in> set pes \<and> edge b p m = n then nil else edge b p m)"
  by (induction pes arbitrary: b) (auto simp: unlink_edge)

lemma unlinks_parents: "parents (heap (fold (unlink_st n) pes b) a) = parents (heap b a)"
  by (induction pes arbitrary: b) (simp_all add: unlink_parents)

lemma unlinks_childmap:
  "go_map_ok (childmap (heap b a)) \<Longrightarrow> go_map_ok (childmap (heap (fold (unlink_st n) pes b) a))"
  by (induction pes arbitrary: b) (simp_all add: unlink_childmap)

text \<open>
  The state of \<open>removeRef\<close> between the removal of the inode itself and the calls for its
  parents.
\<close>

definition drop_st :: "addr \<Rightarrow> rawBridge \<Rightarrow> rawBridge" where
  "drop_st n b =
    (let pes = parents_all (parents (heap b n));
         b1 = b\<lparr>nodes := AList.delete (ino (heap b n)) (nodes b)\<rparr>;
         b2 = fold (unlink_st n) pes b1;
         b3 = upd n (\<lambda>v. v\<lparr>parents := parents_clear (parents v)\<rparr>) b2
     in upd n bump b3)"

lemma drop_env: "same_env b (drop_st n b)"
proof -
  let ?b1 = "b\<lparr>nodes := AList.delete (ino (heap b n)) (nodes b)\<rparr>"
  have "same_env b ?b1" by (simp add: same_env_def view_simps)
  also have "same_env ?b1 (fold (unlink_st n) (parents_all (parents (heap b n))) ?b1)"
    using unlinks_env by blast
  finally (same_env_trans) have "same_env b (fold (unlink_st n) (parents_all (parents (heap b n))) ?b1)" .
  then show ?thesis by (simp add: drop_st_def Let_def same_env_def view_simps)
qed

lemma drop_valid [simp]: "valid (drop_st n b) a = valid b a"
  using drop_env by (rule same_env_valid)

lemma drop_nodes: "nodes (drop_st n b) = AList.delete (inum b n) (nodes b)"
  using unlinks_env by (simp add: drop_st_def Let_def inum_def)

lemma drop_edge:
  "edge (drop_st n b) p m = (if pent m p \<in> pset b n \<and> edge b p m = n then nil else edge b p m)"
  by (simp add: drop_st_def Let_def view_simps unlinks_edge)
    (simp add: pset_def parents_set_def)

lemma drop_pset: "pset (drop_st n b) a = (if a = n then {} else pset b a)"
  by (simp add: drop_st_def Let_def view_simps) (simp add: pset_def unlinks_parents)

lemma drop_heap_ok:
  assumes "heap_ok b"
  shows "heap_ok (drop_st n b)"
proof (rule heap_okI[OF assms])
  show "valid (drop_st n b) a = valid b a" for a
    using drop_env by (rule same_env_valid)
  show "clock b \<le> clock (drop_st n b)" using drop_env[of b n] by (simp add: same_env_def)
  show "go_map_ok (childmap (heap (drop_st n b) a))" if "go_map_ok (childmap (heap b a))" for a
    using that by (auto simp: drop_st_def Let_def intro!: unlinks_childmap)
  show "parents_timed (clock (drop_st n b)) (parents (heap (drop_st n b) a))"
    if "parents_timed (clock b) (parents (heap b a))" for a
    using that drop_env[of b n] by (simp add: drop_st_def Let_def unlinks_parents same_env_def)
qed

text \<open>One level of \<open>removeRef\<close> with \<open>nlookup = 0\<close>.\<close>

lemma removeRef_Suc:
  "removeRef (Suc k) n 0 b =
    (if live b n then Inr (False, b)
     else if lookups b n \<noteq> 0 then Inl (Panic_lookup_changed (inum b n) (lookups b n))
     else bindM (forM (parents_all (parents (heap b n)))
                  (\<lambda>pe. bindM (removeRef k (pe_node pe) 0) (\<lambda>_. ret ())))
            (\<lambda>_. ret True) (drop_st n b))"
proof -
  have l: "lookupCount (heap (drop_st n b) n) = lookups b n" "ino (heap (drop_st n b) n) = inum b n"
    using drop_env[of b n] by (simp_all add: same_env_def lookups_def inum_def)
  show ?thesis
    using l
    by (simp add: monad_simps forM_modify[where g = "unlink_st n"] bumpM_def live_def lookups_def
        inum_def drop_st_def Let_def)
qed

declare removeRef.simps(2) [simp del]

section \<open>removeRef\<close>

lemma drop_tab_ok:
  assumes "tab_ok b"
  shows "tab_ok (drop_st n b)"
  using assms drop_env[of b n] length_delete_le[of "inum b n" "nodes b"]
  by (auto simp: tab_ok_def same_env_def drop_nodes)

lemma drop_edges_ok:
  assumes "edges_ok b" "valid b n"
  shows "edges_ok (drop_st n b)"
proof -
  have n: "pent m p \<in> pset b n \<longleftrightarrow> edge b p m = n" if "valid b p" for m p
    using edges_okD(1)[OF assms(1) that assms(2)] by simp
  have nil: "n \<noteq> nil" using assms(2) by (simp add: valid_def)
  show ?thesis
    unfolding edges_ok_def drop_valid
  proof (intro conjI allI impI)
    show "valid b (edge (drop_st n b) p m)" if "valid b p" "edge (drop_st n b) p m \<noteq> nil" for p m
      using that assms(1) by (auto simp: drop_edge edges_ok_def split: if_splits)
    show "valid b (pe_node e)" if "valid b c" "e \<in> pset (drop_st n b) c" for c e
      using that assms(1) by (auto simp: drop_pset edges_ok_def split: if_splits)
    show "edge (drop_st n b) p m = c \<longleftrightarrow> pent m p \<in> pset (drop_st n b) c"
      if "valid b p" "valid b c" for p m c
    proof (cases "edge b p m = n")
      case True
      have "c \<noteq> nil" using that(2) by (simp add: valid_def)
      moreover have "c \<noteq> n \<Longrightarrow> pent m p \<notin> pset b c"
        using edges_okD(1)[OF assms(1) that, of m] True by simp
      ultimately show ?thesis using True n[OF that(1)] by (auto simp: drop_edge drop_pset)
    next
      case False
      then show ?thesis
        using edges_okD(1)[OF assms(1) that, of m] n[OF that(1), of m] by (auto simp: drop_edge drop_pset)
    qed
  qed
qed

lemma drop_live:
  assumes "heap_ok b" "valid b a"
  shows "live (drop_st n b) a \<longleftrightarrow> lookups b a \<noteq> 0 \<or> (\<exists>m. edge (drop_st n b) a m \<noteq> nil)"
  using live_iff[OF drop_heap_ok[OF assms(1)], of n a] assms(2) drop_env[of b n]
  by (simp add: same_env_def)

lemma drop_registered:
  assumes "settled b n" "valid b n"
  shows "registered (drop_st n b) a \<longleftrightarrow> a \<noteq> n \<and> registered b a \<or> a = nil \<and> inum b a = inum b n"
  using assms drop_env[of b n]
  by (auto simp: registered_def settled_def drop_nodes same_env_def valid_def)

lemma drop_live_ok:
  assumes "wf_upto W b" "valid b n" "settled b n" "\<not> live b n"
  shows "live_ok ((W - {n}) \<union> pe_node ` pset b n) (drop_st n b)"
proof -
  from assms(1) have h: "heap_ok b" and e: "edges_ok b" and l: "live_ok W b"
    by (simp_all add: wf_upto_def)
  have r: "registered (drop_st n b) a \<longleftrightarrow> a \<noteq> n \<and> registered b a" if "valid b a" for a
    using drop_registered[OF assms(3,2)] that by (auto simp: valid_def)
  have mono: "live b a" if "valid b a" "live (drop_st n b) a" for a
    using that h drop_live[OF h that(1)] live_iff[OF h that(1)] by (auto simp: drop_edge split: if_splits)
  have keep: "live (drop_st n b) a" if "valid b a" "live b a" "a \<notin> pe_node ` pset b n" for a
  proof -
    have "edge (drop_st n b) a m = edge b a m" for m
      using that(3) by (force simp: drop_edge image_iff)
    then show ?thesis using drop_live[OF h that(1)] live_iff[OF h that(1)] that(2) by simp
  qed
  show ?thesis
    unfolding live_ok_def drop_valid
  proof (intro conjI allI impI)
    show "registered (drop_st n b) a" if "valid b a" "live (drop_st n b) a" for a
      using that mono[OF that] l assms(4) r by (auto simp: live_ok_def)
    show "live (drop_st n b) a \<or> a \<in> (W - {n}) \<union> pe_node ` pset b n"
      if "valid b a" "registered (drop_st n b) a" for a
      using that keep[OF that(1)] l r[OF that(1)] by (auto simp: live_ok_def)
    show "registered (drop_st n b) a" if "valid b a" "pset (drop_st n b) a \<noteq> {}" for a
      using that l r[OF that(1)] by (auto simp: live_ok_def drop_pset split: if_splits)
  qed
qed

lemma drop_wf:
  assumes "wf_upto W b" "valid b n" "settled b n" "\<not> live b n"
  shows "wf_upto ((W - {n}) \<union> pe_node ` pset b n) (drop_st n b)"
  using assms drop_live_ok[OF assms]
  by (simp add: wf_upto_def drop_tab_ok drop_heap_ok drop_edges_ok)

lemma drop_shrinks:
  assumes "wf_upto W b" "valid b n" "settled b n" "\<not> live b n"
  shows "shrinks b (drop_st n b)"
proof -
  from assms(1) have h: "heap_ok b" by (simp_all add: wf_upto_def)
  have dead: "\<not> live (drop_st n b) n"
    using drop_live[OF h assms(2)] live_iff[OF h assms(2)] assms(4)
    by (auto simp: drop_edge)
  have r: "registered (drop_st n b) a \<longleftrightarrow> a \<noteq> n \<and> registered b a" if "valid b a" for a
    using drop_registered[OF assms(3,2)] that by (auto simp: valid_def)
  show ?thesis
    unfolding shrinks_def
  proof (intro conjI allI impI)
    show "same_env b (drop_st n b)" by (rule drop_env)
    show "go_get (nodes (drop_st n b)) i = go_get (nodes b) i" if "go_get (nodes (drop_st n b)) i \<noteq> nil" for i
      using that by (simp add: drop_nodes split: if_splits)
    show "edge (drop_st n b) p m = edge b p m" if "edge (drop_st n b) p m \<noteq> nil" for p m
      using that by (simp add: drop_edge split: if_splits)
    show "pset (drop_st n b) a \<subseteq> pset b a" for a
      by (simp add: drop_pset)
    show "registered (drop_st n b) a \<or> \<not> live (drop_st n b) a" if "valid b a" "registered b a" for a
      using that r dead by auto
    show "edge (drop_st n b) p m \<noteq> nil \<or> \<not> registered (drop_st n b) (edge b p m)"
      if "valid b p" "edge b p m \<noteq> nil" for p m
      using that r[OF assms(2)] by (auto simp: drop_edge)
  qed
qed

lemma links_shrinks:
  assumes "shrinks b b'" "heap_ok b" "heap_ok b'"
  shows "links b' \<le> links b"
proof -
  have "hnext b' = hnext b" using assms(1) by (simp add: shrinks_def same_env_def)
  moreover have "card (pset b' a) \<le> card (pset b a)" for a
    using assms(1) by (intro card_mono) (simp_all add: shrinks_def)
  ultimately show ?thesis using assms(2,3) by (simp add: links_sum sum_mono)
qed

lemma links_drop:
  assumes "heap_ok b" "valid b n" "pset b n \<noteq> {}"
  shows "links (drop_st n b) < links b"
proof -
  have "hnext (drop_st n b) = hnext b" using drop_env[of b n] by (simp add: same_env_def)
  moreover have "(\<Sum>a \<in> {1..<hnext b}. card (pset (drop_st n b) a)) < (\<Sum>a \<in> {1..<hnext b}. card (pset b a))"
    using assms(2,3)
    by (intro sum_strict_mono_ex1) (auto simp: drop_pset valid_def card_gt_0_iff intro!: bexI[of _ n])
  ultimately show ?thesis using assms(1) by (simp add: links_sum drop_heap_ok)
qed

text \<open>
  With enough fuel for the parent links, \<open>removeRef\<close> returns, restores the invariant for
  the inode, and only shrinks the state.
\<close>

definition removed_ok :: "addr set \<Rightarrow> rawBridge \<Rightarrow> addr \<Rightarrow> rawBridge \<Rightarrow> bool" where
  "removed_ok W b n b' \<longleftrightarrow>
     wf_upto (W - {n}) b' \<and> shrinks b b' \<and> (\<not> live b n \<longrightarrow> \<not> registered b' n)"

abbreviation removable :: "nat \<Rightarrow> addr set \<Rightarrow> rawBridge \<Rightarrow> addr \<Rightarrow> bool" where
  "removable k W b n \<equiv>
     wf_upto W b \<and> valid b n \<and> settled b n \<and> links b < k \<and> (live b n \<or> lookups b n = 0)"

text \<open>The loop over the parents, given that the calls it makes are right.\<close>

lemma removeRefs_spec:
  assumes IH: "\<And>W b n. removable k W b n \<Longrightarrow>
      \<exists>b'. removeRef k n 0 b = Inr (\<not> live b n, b') \<and> removed_ok W b n b'"
    and "wf_upto (V \<union> pe_node ` set qs) b" "\<And>q. q \<in> set qs \<Longrightarrow> valid b (pe_node q) \<and> settled b (pe_node q)"
    and "qs \<noteq> [] \<Longrightarrow> links b < k"
  shows "\<exists>b'. forM qs (\<lambda>pe. bindM (removeRef k (pe_node pe) 0) (\<lambda>_. ret ())) b = Inr ((), b') \<and>
      wf_upto V b' \<and> shrinks b b'"
  using assms(2-)
proof (induction qs arbitrary: b)
  case Nil
  then show ?case by (simp add: ret_def)
next
  case (Cons q qs)
  let ?f = "\<lambda>pe. bindM (removeRef k (pe_node pe) 0) (\<lambda>_. ret ())"
  have h: "heap_ok b" "edges_ok b" using Cons.prems(1) by (simp_all add: wf_upto_def)
  have v: "valid b (pe_node q)" "settled b (pe_node q)" using Cons.prems(2) by simp_all
  have "live b (pe_node q) \<or> lookups b (pe_node q) = 0" using live_iff[OF h(1) v(1)] by blast
  with Cons.prems v obtain b1 where b1: "removeRef k (pe_node q) 0 b = Inr (\<not> live b (pe_node q), b1)"
    "wf_upto ((V \<union> pe_node ` set (q # qs)) - {pe_node q}) b1" "shrinks b b1"
    using IH[of "V \<union> pe_node ` set (q # qs)" b "pe_node q"] by (auto simp: removed_ok_def)
  have h1: "heap_ok b1" using b1(2) by (simp add: wf_upto_def)
  have "wf_upto (V \<union> pe_node ` set qs) b1" by (rule wf_upto_mono[OF b1(2)]) auto
  moreover have "valid b1 (pe_node q') \<and> settled b1 (pe_node q')" if "q' \<in> set qs" for q'
    using Cons.prems(2)[of q'] that shrinks_valid[OF b1(3)] shrinks_settled[OF b1(3)] by simp
  moreover have "links b1 < k" using links_shrinks[OF b1(3) h(1) h1] Cons.prems(3) by simp
  ultimately obtain b2 where b2: "forM qs ?f b1 = Inr ((), b2)" "wf_upto V b2" "shrinks b1 b2"
    using Cons.IH by blast
  have "heap_ok b2" using b2(2) by (simp add: wf_upto_def)
  then have "shrinks b b2" using shrinks_trans[OF b1(3) b2(3) h(1) h1 _ h(2)] by blast
  have "?f q b = Inr ((), b1)" using b1(1) by (simp add: bindM_def ret_def)
  with b2(1) have "forM (q # qs) ?f b = Inr ((), b2)" by (simp add: bindM_Inr)
  with b2(2) \<open>shrinks b b2\<close> show ?case by blast
qed

text \<open>The parents of a registered inode are registered: they have it as a child.\<close>

lemma parent_registered:
  assumes "wf_upto W b" "valid b n" "e \<in> pset b n"
  shows "valid b (pe_node e)" "registered b (pe_node e)"
proof -
  have h: "heap_ok b" "edges_ok b" using assms(1) by (simp_all add: wf_upto_def)
  show v: "valid b (pe_node e)" using edges_okD(3)[OF h(2) assms(2,3)] .
  have "edge b (pe_node e) (pe_name e) = n"
    using edges_okD(1)[OF h(2) v assms(2), of "pe_name e"] assms(3) by simp
  then have "live b (pe_node e)"
    using live_iff[OF h(1) v] assms(2) by (auto simp: valid_def)
  then show "registered b (pe_node e)" using assms(1) v by (simp add: wf_upto_def live_ok_def)
qed

lemma removeRef_spec:
  "removable k W b n \<Longrightarrow> \<exists>b'. removeRef k n 0 b = Inr (\<not> live b n, b') \<and> removed_ok W b n b'"
proof (induction k arbitrary: W b n)
  case 0
  then show ?case by simp
next
  case (Suc k)
  then have n: "wf_upto W b" "valid b n" "settled b n" "links b < Suc k" by simp_all
  show ?case
  proof (cases "live b n")
    case True
    with n(1) have "wf_upto (W - {n}) b" by (auto simp: wf_upto_def live_ok_def)
    with True show ?thesis by (auto simp: removeRef_Suc removed_ok_def)
  next
    case False
    let ?pes = "parents_all (parents (heap b n))"
    let ?f = "\<lambda>pe. bindM (removeRef k (pe_node pe) 0) (\<lambda>_. ret ())"
    have h: "heap_ok b" "edges_ok b" using n(1) by (simp_all add: wf_upto_def)
    have pes: "set ?pes = pset b n" by (simp add: pset_def parents_set_def)
    have d: "shrinks b (drop_st n b)" by (rule drop_shrinks[OF n(1-3) False])
    have "valid (drop_st n b) (pe_node q) \<and> settled (drop_st n b) (pe_node q)" if "q \<in> set ?pes" for q
      using parent_registered[OF n(1,2)] that pes shrinks_settled[OF d]
      by (simp add: settled_def registered_def)
    moreover have "links (drop_st n b) < k" if "?pes \<noteq> []"
      using links_drop[OF h(1) n(2)] that pes n(4) by (metis Suc_leI less_Suc_eq_le order_less_le_trans set_empty)
    moreover have "wf_upto ((W - {n}) \<union> pe_node ` set ?pes) (drop_st n b)"
      using drop_wf[OF n(1-3) False] pes by simp
    ultimately obtain b' where
      b': "forM ?pes ?f (drop_st n b) = Inr ((), b')" "wf_upto (W - {n}) b'" "shrinks (drop_st n b) b'"
      using removeRefs_spec[OF Suc.IH] by blast
    have "heap_ok b'" using b'(2) by (simp add: wf_upto_def)
    then have "shrinks b b'" using shrinks_trans[OF d b'(3) h(1) drop_heap_ok[OF h(1)] _ h(2)] by blast
    moreover have "\<not> registered b' n"
      using drop_registered[OF n(3,2)] n(2) shrinks_registered[OF b'(3)] by (auto simp: valid_def)
    moreover have "removeRef (Suc k) n 0 b = Inr (\<not> live b n, b')"
      using Suc.prems False b'(1)
        bindM_Inr[where m = "forM ?pes ?f" and f = "\<lambda>_. ret True" and s = "drop_st n b", OF b'(1)]
      by (simp add: removeRef_Suc ret_apply)
    ultimately show ?thesis using b'(2) by (auto simp: removed_ok_def)
  qed
qed

lemma remove_ref_0:
  assumes "wf_upto {n} b" "valid b n" "registered b n"
  shows "\<exists>b'. remove_ref n 0 b = Inr (\<not> live b n, b') \<and> tree_ok b' \<and> shrinks b b' \<and>
      (\<not> live b n \<longrightarrow> \<not> registered b' n)"
proof -
  have "live b n \<or> lookups b n = 0" using live_iff assms(1,2) by (auto simp: wf_upto_def)
  then have "removable (Suc (links b)) {n} b n"
    using assms by (simp add: settled_def registered_def)
  from removeRef_spec[OF this] show ?thesis
    by (simp add: remove_ref_def monad_simps tree_ok_def removed_ok_def)
qed

end
