(* ===== verification/Tree_Ops.thy ===== *)
theory Tree_Ops
  imports Tree_Inv
begin

text \<open>
  What \<open>addChild\<close>, \<open>rmChild\<close>, \<open>mvChild\<close> and \<open>removeRef\<close> do to the edges between inodes, to
  their parents, to the table of inodes and to the lookup counts, and that they keep the
  invariant of \<open>Tree_Inv\<close>. Each is shown equal to a function on states (\<open>cut_st\<close>,
  \<open>link_st\<close>, \<open>move_st\<close>, \<open>unref_st\<close>) followed by the removals of the inodes it leaves dead.
\<close>

section \<open>Cutting and making one edge\<close>

text \<open>
  The updates that \<open>rmChild\<close> and \<open>mvChild\<close> make to take a child out of a directory, and
  those that \<open>addChild\<close> and \<open>mvChild\<close> make to put one in.
\<close>

definition cut_st :: "addr \<Rightarrow> string \<Rightarrow> addr \<Rightarrow> rawBridge \<Rightarrow> rawBridge" where
  "cut_st p name c b =
    upd c bump (upd p bump
      (upd c (\<lambda>n. n\<lparr>parents := parents_delete (pent name p) (parents n)\<rparr>) (upd p (del_child name) b)))"

definition link_st :: "addr \<Rightarrow> string \<Rightarrow> addr \<Rightarrow> rawBridge \<Rightarrow> rawBridge" where
  "link_st p name c b =
    (let b1 = upd p (\<lambda>n. n\<lparr>children := Some (AList.update name c (childmap n))\<rparr>) b;
         b2 = upd c (\<lambda>n. n\<lparr>parents := parents_add (clock b) (pent name p) (parents n)\<rparr>)
                (b1\<lparr>clock := Suc (clock b)\<rparr>)
     in upd c bump (upd p bump b2))"

lemma cutM:
  "bindM (modifyM (upd p (del_child name))) (\<lambda>_. bindM (del_parent c (pent name p)) (\<lambda>_.
     bindM (bumpM p) (\<lambda>_. bindM (bumpM c) f))) b = f () (cut_st p name c b)"
  by (simp add: monad_simps del_parent_def bumpM_def cut_st_def)

lemma cutM':
  "bindM (modifyM (upd p (del_child name))) (\<lambda>_. bindM (del_parent c (pent name p)) (\<lambda>_.
     bindM (bumpM p) (\<lambda>_. bumpM c))) b = Inr ((), cut_st p name c b)"
  by (simp add: monad_simps del_parent_def bumpM_def cut_st_def)

lemma linkM:
  assumes "isDir (heap b p)"
  shows "bindM (set_child p name c) (\<lambda>_. bindM (add_parent c (pent name p)) (\<lambda>_.
     bindM (bumpM p) (\<lambda>_. bindM (bumpM c) f))) b = f () (link_st p name c b)"
proof -
  obtain cs where "children (heap b p) = Some cs" using assms by (auto simp: isDir_def)
  then have "set_child p name c b =
      Inr ((), upd p (\<lambda>n. n\<lparr>children := Some (AList.update name c (childmap n))\<rparr>) b)"
    by (simp add: set_child_def monad_simps upd_def)
  then show ?thesis
    by (simp add: bindM_Inr[where m = "set_child p name c"] add_parent_def monad_simps bindM_assoc
        bumpM_def link_st_def Let_def)
qed

lemma view_clock [view_simps]:
  "valid (b\<lparr>clock := t\<rparr>) a = valid b a" "edge (b\<lparr>clock := t\<rparr>) p m = edge b p m"
  "pset (b\<lparr>clock := t\<rparr>) c = pset b c" "lookups (b\<lparr>clock := t\<rparr>) a = lookups b a"
  "inum (b\<lparr>clock := t\<rparr>) a = inum b a" "live (b\<lparr>clock := t\<rparr>) a = live b a"
  by (simp_all add: valid_def edge_def pset_def lookups_def inum_def live_def)

lemma cut_env: "same_env b (cut_st p name c b)"
proof -
  have "isDir (heap (cut_st p name c b) a) = isDir (heap b a)" for a
    by (simp add: cut_st_def isDir_simps)
  then show ?thesis by (simp add: same_env_def cut_st_def view_simps)
qed

lemma cut_nodes [simp]: "nodes (cut_st p name c b) = nodes b"
  by (simp add: cut_st_def)

lemma cut_valid [simp]: "valid (cut_st p name c b) a = valid b a"
  using cut_env by (rule same_env_valid)

lemma cut_edge: "edge (cut_st p name c b) q m = (if q = p \<and> m = name then nil else edge b q m)"
  by (simp add: cut_st_def view_simps)

lemma cut_registered [simp]: "registered (cut_st p name c b) a = registered b a"
  using cut_env[of b p name c] by (simp add: registered_def same_env_def)

lemma cut_pset:
  assumes "heap_ok b" "valid b c"
  shows "pset (cut_st p name c b) a = (if a = c then pset b c - {pent name p} else pset b a)"
proof -
  have "parents_ok (parents (heap b c))" using assms by (auto simp: heap_ok_def parents_timed_def)
  then show ?thesis by (simp add: cut_st_def view_simps parents_set_delete)
qed

lemma cut_heap_ok:
  assumes "heap_ok b"
  shows "heap_ok (cut_st p name c b)"
proof (rule heap_okI[OF assms])
  show "clock b \<le> clock (cut_st p name c b)" using cut_env[of b p name c] by (simp add: same_env_def)
  show "valid (cut_st p name c b) a = valid b a" for a by simp
qed (auto simp: cut_st_def parents_timed_delete)

lemma cut_wf:
  assumes "wf_upto W b" "valid b p" "valid b c" "edge b p name = nil \<or> edge b p name = c"
  shows "wf_upto (insert p W) (cut_st p name c b)"
proof -
  let ?b = "cut_st p name c b"
  from assms(1) have h: "heap_ok b" and e: "edges_ok b" and t: "tab_ok b" and l: "live_ok W b"
    by (simp_all add: wf_upto_def)
  have "tab_ok ?b" using t cut_env[of b p name c] by (auto simp: tab_ok_def same_env_def)
  moreover have "edges_ok ?b"
    unfolding edges_ok_def cut_valid
  proof (intro conjI allI impI)
    show "valid b (edge ?b q m)" if "valid b q" "edge ?b q m \<noteq> nil" for q m
      using that edges_okD(2)[OF e] by (auto simp: cut_edge split: if_splits)
    show "valid b (pe_node x)" if "valid b a" "x \<in> pset ?b a" for a x
      using that edges_okD(3)[OF e] by (auto simp: cut_pset[OF h assms(3)] split: if_splits)
    show "edge ?b q m = a \<longleftrightarrow> pent m q \<in> pset ?b a" if "valid b q" "valid b a" for q m a
      using edges_okD(1)[OF e that, of m] that(2) assms(4)
      by (auto simp: cut_edge cut_pset[OF h assms(3)] valid_def)
  qed
  moreover have "live ?b a \<longleftrightarrow> live b a" if "valid b a" "a \<noteq> p" for a
    using that cut_env[of b p name c] live_iff[OF cut_heap_ok[OF h]] live_iff[OF h]
    by (simp add: cut_edge same_env_def)
  moreover have "live b p" if "live ?b p"
    using that assms(2) cut_env[of b p name c] live_iff[OF cut_heap_ok[OF h]] live_iff[OF h]
    by (auto simp: cut_edge same_env_def split: if_splits)
  moreover have "pset b a \<noteq> {}" if "pset ?b a \<noteq> {}" for a
    using that by (auto simp: cut_pset[OF h assms(3)] split: if_splits)
  ultimately have "live_ok (insert p W) ?b" using l unfolding live_ok_def cut_valid cut_registered by blast
  with \<open>tab_ok ?b\<close> \<open>edges_ok ?b\<close> show ?thesis using cut_heap_ok[OF h] by (simp add: wf_upto_def)
qed

lemma link_frame [simp]:
  "nodes (link_st p name c b) = nodes b" "hnext (link_st p name c b) = hnext b"
  "root (link_st p name c b) = root b" "nodeCountHigh (link_st p name c b) = nodeCountHigh b"
  "clock (link_st p name c b) = Suc (clock b)" "options (link_st p name c b) = options b"
  "files (link_st p name c b) = files b" "freeFiles (link_st p name c b) = freeFiles b"
  by (simp_all add: link_st_def Let_def)

lemma link_valid [simp]: "valid (link_st p name c b) a = valid b a"
  by (simp add: valid_def)

lemma link_edge: "edge (link_st p name c b) q m = (if q = p \<and> m = name then c else edge b q m)"
  by (simp add: link_st_def Let_def view_simps) (simp add: child_def edge_def)

lemma link_lookups [simp]: "lookups (link_st p name c b) a = lookups b a"
  by (simp add: link_st_def Let_def view_simps)

lemma link_inum [simp]: "inum (link_st p name c b) a = inum b a"
  by (simp add: link_st_def Let_def view_simps)

lemma link_registered [simp]: "registered (link_st p name c b) a = registered b a"
  by (simp add: registered_def)

lemma link_isDir: "isDir (heap b p) \<Longrightarrow> isDir (heap (link_st p name c b) a) = isDir (heap b a)"
  by (auto simp: link_st_def Let_def isDir_simps)

lemma link_pset:
  assumes "heap_ok b" "valid b c" "p \<noteq> nil"
  shows "pset (link_st p name c b) a = (if a = c then insert (pent name p) (pset b c) else pset b a)"
proof -
  have "parents_ok (parents (heap b c))" using assms by (auto simp: heap_ok_def parents_timed_def)
  then show ?thesis
    using assms(3) by (simp add: link_st_def Let_def view_simps parents_set_add)
qed

lemma parents_get_add [simp]: "parents_get (parents_add t e p) = e"
  by (simp add: parents_get_def parents_add_def Let_def)

lemma link_newest: "parents_get (parents (heap (link_st p name c b) c)) = pent name p"
  by (simp add: link_st_def Let_def)

lemma link_parents: "a \<noteq> c \<Longrightarrow> parents (heap (link_st p name c b) a) = parents (heap b a)"
  by (simp add: link_st_def Let_def)

lemma link_heap_ok:
  assumes "heap_ok b" "p \<noteq> nil" "c \<noteq> nil" "0 < clock b"
  shows "heap_ok (link_st p name c b)"
proof (rule heap_okI[OF assms(1)])
  show "clock b \<le> clock (link_st p name c b)" by simp
  show "valid (link_st p name c b) a = valid b a" for a by simp
qed (use assms in \<open>auto simp: link_st_def Let_def intro!: parents_timed_add intro: parents_timed_mono\<close>)

lemma link_wf:
  assumes "wf_upto W b" "valid b p" "valid b c" "registered b p" "registered b c"
    and "edge b p name = nil \<or> edge b p name = c"
  shows "wf_upto (W - {p}) (link_st p name c b)"
proof -
  let ?b = "link_st p name c b"
  from assms(1) have h: "heap_ok b" and e: "edges_ok b" and t: "tab_ok b" and l: "live_ok W b"
    by (simp_all add: wf_upto_def)
  have nil: "p \<noteq> nil" "c \<noteq> nil" using assms(2,3) by (simp_all add: valid_def)
  have t': "tab_ok ?b" using t by (auto simp: tab_ok_def)
  have h': "heap_ok ?b" using link_heap_ok[OF h nil] t by (simp add: tab_ok_def)
  have ps: "pset ?b a = (if a = c then insert (pent name p) (pset b c) else pset b a)" for a
    using link_pset[OF h assms(3) nil(1)] .
  have "edges_ok ?b"
    unfolding edges_ok_def link_valid
  proof (intro conjI allI impI)
    show "valid b (edge ?b q m)" if "valid b q" "edge ?b q m \<noteq> nil" for q m
      using that edges_okD(2)[OF e] assms(3) by (auto simp: link_edge split: if_splits)
    show "valid b (pe_node x)" if "valid b a" "x \<in> pset ?b a" for a x
      using that edges_okD(3)[OF e] assms(2) by (auto simp: ps split: if_splits)
    show "edge ?b q m = a \<longleftrightarrow> pent m q \<in> pset ?b a" if "valid b q" "valid b a" for q m a
      using edges_okD(1)[OF e that, of m] that(2) assms(6)
      by (auto simp: link_edge ps valid_def)
  qed
  moreover have lv: "live ?b a \<longleftrightarrow> live b a \<or> a = p" if "valid b a" for a
    using that live_iff[OF h'] live_iff[OF h] nil by (auto simp: link_edge)
  have "live_ok (W - {p}) ?b"
    unfolding live_ok_def link_valid link_registered
    using l lv assms(4,5) by (auto simp: live_ok_def ps)
  ultimately show ?thesis using t' h' by (simp add: wf_upto_def)
qed

section \<open>rmChild\<close>

lemma rmChild_eq:
  "rmChild p name b =
    (if edge b p name = nil then Inr (False, b)
     else let b1 = cut_st p name (edge b p name) b
          in bindM (if \<not> live b1 p then remove_ref p 0 else ret False) (\<lambda>_. ret True) b1)"
  by (simp add: rmChild_def getsM_def ret_def bindM_gets cutM edge_def live_def Let_def)

lemma live_registered:
  assumes "wf_upto W b" "valid b p" "edge b p m \<noteq> nil"
  shows "registered b p"
  using assms live_iff[of b p] by (auto simp: wf_upto_def live_ok_def)

lemma rmChild_spec:
  assumes "tree_ok b" "valid b p" "edge b p name \<noteq> nil"
  shows "\<exists>b'. rmChild p name b = Inr (True, b') \<and> tree_ok b' \<and> shrinks (cut_st p name (edge b p name) b) b'"
proof -
  let ?c = "edge b p name"
  let ?b = "cut_st p name ?c b"
  from assms(1) have w: "wf_upto {} b" by (simp add: tree_ok_def)
  have c: "valid b ?c" using assms w by (simp add: wf_upto_def edges_okD(2))
  have r: "registered ?b p" using live_registered[OF w assms(2,3)] by simp
  have w1: "wf_upto {p} ?b" using cut_wf[OF w assms(2) c] by simp
  show ?thesis
  proof (cases "live ?b p")
    case True
    then have "tree_ok ?b" using w1 by (auto simp: tree_ok_def wf_upto_def live_ok_def)
    with True assms(3) show ?thesis by (auto simp: rmChild_eq Let_def monad_simps)
  next
    case False
    obtain b' where "remove_ref p 0 ?b = Inr (\<not> live ?b p, b')" "tree_ok b'" "shrinks ?b b'"
      using remove_ref_0[OF w1 _ r] assms(2) by auto
    with False assms(3) show ?thesis by (auto simp: rmChild_eq Let_def monad_simps)
  qed
qed

section \<open>addChild\<close>

text \<open>A new inode, and the reference that a look-up takes on an inode.\<close>

definition fresh_inode :: "u64 \<Rightarrow> bool \<Rightarrow> inode" where
  "fresh_inode i dir = inode_zero\<lparr>ino := i, children := (if dir then Some [] else None)\<rparr>"

definition alloc_st :: "inode \<Rightarrow> rawBridge \<Rightarrow> rawBridge" where
  "alloc_st n b = b\<lparr>heap := (heap b)(hnext b := n), hnext := Suc (hnext b)\<rparr>"

definition ref_st :: "u64 \<Rightarrow> addr \<Rightarrow> rawBridge \<Rightarrow> rawBridge" where
  "ref_st i c b =
    (let t = AList.update i c (nodes b)
     in upd c bump (upd c (\<lambda>n. n\<lparr>lookupCount := lookupCount n + 1\<rparr>)
          (b\<lparr>nodes := t, nodeCountHigh := max (nodeCountHigh b) (length t)\<rparr>)))"

definition known :: "u64 \<Rightarrow> bool \<Rightarrow> rawBridge \<Rightarrow> addr \<times> rawBridge" where
  "known i dir b =
    (if go_get (nodes b) i = nil then (hnext b, alloc_st (fresh_inode i dir) b)
     else (go_get (nodes b) i, b))"

lemma addChild_loop_eq: "addChild_loop 2 i nil b = Inr (go_get (nodes b) i, b)"
  by (simp add: numeral_2_eq_2 monad_simps)

lemma newInode_eq:
  "i \<noteq> NOT 0 \<Longrightarrow> newInode i dir b = Inr (hnext b, alloc_st (fresh_inode i dir) b)"
  by (simp add: newInode_def fresh_inode_def alloc_st_def Let_def monad_simps inode_zero_def)

lemma known_eq:
  assumes "i \<noteq> NOT 0 \<or> go_get (nodes b) i \<noteq> nil"
  shows "bindM (addChild_loop 2 i nil) (\<lambda>c0. bindM (if c0 = nil then newInode i dir else ret c0) f) b =
    f (fst (known i dir b)) (snd (known i dir b))"
proof (cases "go_get (nodes b) i = nil")
  case True
  then have "i \<noteq> NOT 0" using assms by simp
  from newInode_eq[OF this] have "newInode i dir b = Inr (hnext b, alloc_st (fresh_inode i dir) b)" .
  with True show ?thesis by (simp add: bindM_Inr[OF addChild_loop_eq] known_def bindM_Inr)
next
  case False
  then show ?thesis by (simp add: bindM_Inr[OF addChild_loop_eq] known_def bindM_ret)
qed

lemma upd_setters:
  "upd a f (b\<lparr>nodes := t\<rparr>) = (upd a f b)\<lparr>nodes := t\<rparr>"
  "upd a f (b\<lparr>nodeCountHigh := k\<rparr>) = (upd a f b)\<lparr>nodeCountHigh := k\<rparr>"
  by (simp_all add: upd_def)

lemma high_max:
  "(if nodeCountHigh b < k then b\<lparr>nodeCountHigh := k\<rparr> else b) = b\<lparr>nodeCountHigh := max (nodeCountHigh b) k\<rparr>"
  by (simp add: max_def)

lemma ref_eq:
  "bindM (modifyM (upd c (\<lambda>n. n\<lparr>lookupCount := lookupCount n + 1\<rparr>))) (\<lambda>_.
   bindM (bumpM c) (\<lambda>_.
   bindM (modifyM (\<lambda>b. b\<lparr>nodes := AList.update i c (nodes b)\<rparr>)) (\<lambda>_.
   bindM (modifyM (\<lambda>b. if nodeCountHigh b < length (nodes b)
                       then b\<lparr>nodeCountHigh := length (nodes b)\<rparr> else b)) f))) b = f () (ref_st i c b)"
  by (simp only: bindM_modify bumpM_def ref_st_def Let_def upd_setters high_max upd_frame)
    (simp add: upd_setters)

lemma addChild_eq:
  assumes "name \<noteq> ''.''" "name \<noteq> ''..''" "i \<noteq> NOT 0 \<or> go_get (nodes b) i \<noteq> nil"
    and "isDir (heap (ref_st i (fst (known i dir b)) (snd (known i dir b))) p)"
  shows "addChild p name i dir b =
    (let (c, b1) = known i dir b in Inr (c, link_st p name c (ref_st i c b1)))"
proof -
  have "\<not> (name = ''.'' \<or> name = ''..'')" using assms(1,2) by simp
  then show ?thesis
    apply (simp only: addChild_def if_False)
    apply (subst known_eq[OF assms(3)])
    apply (subst ref_eq)
    apply (subst linkM[OF assms(4)])
    apply (simp only: ret_def split_beta Let_def)
    done
qed

lemma addChild_file:
  assumes "name \<noteq> ''.''" "name \<noteq> ''..''" "i \<noteq> NOT 0 \<or> go_get (nodes b) i \<noteq> nil"
    and "\<not> isDir (heap (ref_st i (fst (known i dir b)) (snd (known i dir b))) p)"
  shows "addChild p name i dir b = Inl Panic_nil_map"
proof -
  have "\<not> (name = ''.'' \<or> name = ''..'')" using assms(1,2) by simp
  moreover have "children (heap (ref_st i (fst (known i dir b)) (snd (known i dir b))) p) = None"
    using assms(4) by (simp add: isDir_def)
  then have "set_child p name c (ref_st i (fst (known i dir b)) (snd (known i dir b))) = Inl Panic_nil_map" for c
    by (simp add: set_child_def monad_simps)
  ultimately show ?thesis
    unfolding addChild_def by (simp only: if_False known_eq[OF assms(3)] ref_eq bindM_Inl)
qed

lemma known_cases:
  assumes "known i dir b = (c, b1)"
  shows "go_get (nodes b) i = nil \<and> c = hnext b \<and> b1 = alloc_st (fresh_inode i dir) b \<or>
    go_get (nodes b) i \<noteq> nil \<and> c = go_get (nodes b) i \<and> b1 = b"
  using assms unfolding known_def by (simp only: split: if_splits) blast+

lemma alloc_frame [simp]:
  "nodes (alloc_st n b) = nodes b" "hnext (alloc_st n b) = Suc (hnext b)"
  "root (alloc_st n b) = root b" "nodeCountHigh (alloc_st n b) = nodeCountHigh b"
  "clock (alloc_st n b) = clock b" "options (alloc_st n b) = options b"
  "files (alloc_st n b) = files b" "freeFiles (alloc_st n b) = freeFiles b"
  by (simp_all add: alloc_st_def)

lemma alloc_valid: "valid (alloc_st n b) a \<longleftrightarrow> valid b a \<or> a \<noteq> nil \<and> a = hnext b"
  by (auto simp: valid_def)

lemma alloc_views:
  "edge (alloc_st n b) p m = (if p = hnext b then child n m else edge b p m)"
  "pset (alloc_st n b) a = (if a = hnext b then parents_set (parents n) else pset b a)"
  "lookups (alloc_st n b) a = (if a = hnext b then lookupCount n else lookups b a)"
  "inum (alloc_st n b) a = (if a = hnext b then ino n else inum b a)"
  "live (alloc_st n b) a = (if a = hnext b then isLive n else live b a)"
  "isDir (heap (alloc_st n b) a) = (if a = hnext b then isDir n else isDir (heap b a))"
  by (simp_all add: alloc_st_def edge_def pset_def lookups_def inum_def live_def)

lemma fresh_views [simp]:
  "child (fresh_inode i dir) m = nil" "parents (fresh_inode i dir) = inodeParents_zero"
  "lookupCount (fresh_inode i dir) = 0" "ino (fresh_inode i dir) = i" "\<not> isLive (fresh_inode i dir)"
  "isDir (fresh_inode i dir) = dir" "childmap (fresh_inode i dir) = []"
  by (auto simp: fresh_inode_def inode_zero_def isLive_def isDir_def child_def)
lemma alloc_heap [simp]: "heap (alloc_st n b) = (heap b)(hnext b := n)"
  by (simp add: alloc_st_def)

text \<open>The inode that \<open>known\<close> gives, and the state it leaves.\<close>

lemma alloc_wf:
  assumes "wf_upto W b"
  shows "wf_upto W (alloc_st (fresh_inode i dir) b)"
proof -
  let ?b = "alloc_st (fresh_inode i dir) b"
  from assms have h: "heap_ok b" and e: "edges_ok b" and t: "tab_ok b" and l: "live_ok W b"
    by (simp_all add: wf_upto_def)
  have new: "\<not> valid b (hnext b)" by (simp add: valid_def)
  have pos: "hnext b \<noteq> nil" using t by (auto simp: tab_ok_def valid_def)
  have tn: "go_get (nodes b) j \<noteq> hnext b" for j
    using t new pos unfolding tab_ok_def by metis
  then have "tab_ok ?b" using t new by (auto simp: tab_ok_def alloc_valid alloc_views)
  moreover have "heap_ok ?b" using h by (auto simp: heap_ok_def alloc_valid)
  moreover have "edges_ok ?b"
    unfolding edges_ok_def
  proof (intro conjI allI impI)
    show "valid ?b (edge ?b q m)" if "valid ?b q" "edge ?b q m \<noteq> nil" for q m
      using that edges_okD(2)[OF e] by (auto simp: alloc_valid alloc_views split: if_splits)
    show "valid ?b (pe_node x)" if "valid ?b a" "x \<in> pset ?b a" for a x
      using that edges_okD(3)[OF e] by (auto simp: alloc_valid alloc_views split: if_splits)
    show "edge ?b q m = a \<longleftrightarrow> pent m q \<in> pset ?b a" if q: "valid ?b q" and a: "valid ?b a" for q m a
    proof -
      have "edge b q m \<noteq> hnext b" if "valid b q"
        using edges_okD(2)[OF e that, of m] new pos by metis
      moreover have "pent m (hnext b) \<notin> pset b a" if "valid b a"
        using edges_okD(3)[OF e that] new by force
      ultimately show ?thesis
        using q a edges_okD(1)[OF e, of q a m] by (auto simp: alloc_valid alloc_views valid_def)
    qed
  qed
  moreover have "live_ok W ?b"
    using l new tn by (auto simp: live_ok_def alloc_valid alloc_views registered_def)
  ultimately show ?thesis by (simp add: wf_upto_def)
qed

lemma known_wf:
  assumes "wf_upto W b" "known i dir b = (c, b1)"
  shows "wf_upto W b1" "valid b1 c" "inum b1 c = i"
    and "go_get (nodes b1) i = nil \<or> go_get (nodes b1) i = c" "nodes b1 = nodes b"
    and "valid b a \<Longrightarrow> valid b1 a" "edge b p m \<noteq> nil \<Longrightarrow> valid b p \<Longrightarrow> edge b1 p m = edge b p m"
proof -
  have t: "tab_ok b" using assms(1) by (simp add: wf_upto_def)
  have h: "hnext b \<noteq> nil" using t by (auto simp: tab_ok_def valid_def)
  show "wf_upto W b1" "valid b1 c" "inum b1 c = i"
    and "go_get (nodes b1) i = nil \<or> go_get (nodes b1) i = c" "nodes b1 = nodes b"
    and "valid b a \<Longrightarrow> valid b1 a" "edge b p m \<noteq> nil \<Longrightarrow> valid b p \<Longrightarrow> edge b1 p m = edge b p m"
    using assms(1) t h
      known_cases[OF assms(2)]
    by (auto simp: alloc_wf alloc_views alloc_valid tab_ok_def valid_def)
qed
lemma ref_frame [simp]:
  "nodes (ref_st i c b) = AList.update i c (nodes b)" "hnext (ref_st i c b) = hnext b"
  "root (ref_st i c b) = root b" "clock (ref_st i c b) = clock b" "options (ref_st i c b) = options b"
  "files (ref_st i c b) = files b" "freeFiles (ref_st i c b) = freeFiles b"
  "nodeCountHigh (ref_st i c b) = max (nodeCountHigh b) (length (AList.update i c (nodes b)))"
  by (simp_all add: ref_st_def Let_def)

lemma ref_valid [simp]: "valid (ref_st i c b) a = valid b a"
  by (simp add: valid_def)

lemma ref_heap:
  "heap (ref_st i c b) =
    (heap b)(c := bump ((heap b c)\<lparr>lookupCount := lookupCount (heap b c) + 1\<rparr>))"
  by (simp add: ref_st_def Let_def)

lemma ref_views:
  "edge (ref_st i c b) p m = edge b p m" "pset (ref_st i c b) a = pset b a"
  "lookups (ref_st i c b) a = (if a = c then lookups b c + 1 else lookups b a)"
  "inum (ref_st i c b) a = inum b a" "isDir (heap (ref_st i c b) a) = isDir (heap b a)"
  by (simp_all add: ref_heap edge_def pset_def lookups_def inum_def isDir_simps child_simps)

lemma ref_parents: "parents (heap (ref_st i c b) a) = parents (heap b a)"
  by (simp add: ref_heap)

lemma ref_wf:
  assumes "wf_upto W b" "valid b c" "inum b c = i" "go_get (nodes b) i = nil \<or> go_get (nodes b) i = c"
    and "lookups b c + 1 \<noteq> 0"
  shows "wf_upto (W - {c}) (ref_st i c b)" "registered (ref_st i c b) c"
    and "valid b a \<Longrightarrow> registered (ref_st i c b) a \<longleftrightarrow> registered b a \<or> a = c"
proof -
  let ?b = "ref_st i c b"
  from assms(1) have h: "heap_ok b" and e: "edges_ok b" and t: "tab_ok b" and l: "live_ok W b"
    by (simp_all add: wf_upto_def)
  have nil: "c \<noteq> nil" using assms(2) by (simp add: valid_def)
  have r: "registered ?b a \<longleftrightarrow> registered b a \<or> a = c" if "valid b a" for a
    using assms(3,4) nil that by (auto simp: registered_def ref_views valid_def)
  show "registered ?b c" by (simp add: r assms(2))
  show "registered (ref_st i c b) a \<longleftrightarrow> registered b a \<or> a = c" if "valid b a" using r[OF that] .
  have "tab_ok ?b" using t assms(2,3) nil by (auto simp: tab_ok_def ref_views)
  moreover have h': "heap_ok ?b" using h by (auto simp: heap_ok_def ref_heap)
  moreover have "edges_ok ?b" using e by (simp add: edges_ok_def ref_views)
  moreover have "live ?b a \<longleftrightarrow> live b a \<or> a = c" if "valid b a" for a
    using that live_iff[OF h'] live_iff[OF h] assms(5) by (auto simp: ref_views)
  then have "live_ok (W - {c}) ?b"
    using l by (auto simp: live_ok_def r ref_views)
  ultimately show "wf_upto (W - {c}) ?b" by (simp add: wf_upto_def)
qed
lemma known_same:
  assumes "known i dir b = (c, b1)" "valid b a"
  shows "valid b1 a" "edge b1 a m = edge b a m" "pset b1 a = pset b a" "lookups b1 a = lookups b a"
    "inum b1 a = inum b a" "isDir (heap b1 a) = isDir (heap b a)" "parents (heap b1 a) = parents (heap b a)"
    "root b1 = root b" "options b1 = options b" "files b1 = files b" "freeFiles b1 = freeFiles b"
proof -
  have "a \<noteq> hnext b" using assms(2) by (simp add: valid_def)
  moreover have "b1 = b \<or> b1 = alloc_st (fresh_inode i dir) b" using known_cases[OF assms(1)] by blast
  ultimately show "valid b1 a" "edge b1 a m = edge b a m" "pset b1 a = pset b a" "lookups b1 a = lookups b a"
    "inum b1 a = inum b a" "isDir (heap b1 a) = isDir (heap b a)" "parents (heap b1 a) = parents (heap b a)"
    "root b1 = root b" "options b1 = options b" "files b1 = files b" "freeFiles b1 = freeFiles b"
    using assms(2) by (auto simp: alloc_views alloc_valid)
qed

lemma known_hnext:
  assumes "known i dir b = (c, b1)"
  shows "hnext b1 = (if go_get (nodes b) i = nil then Suc (hnext b) else hnext b)"
  using known_cases[OF assms] by auto

lemma known_new:
  assumes "known i dir b = (c, b1)" "go_get (nodes b) i = nil"
  shows "c = hnext b" "isDir (heap b1 c) = dir" "lookups b1 c = 0" "pset b1 c = {}" "edge b1 c m = nil"
  using known_cases[OF assms(1)] assms(2) by (auto simp: alloc_views)

text \<open>
  What \<open>addChild\<close> promises: when the entry is new, or already leads to the inode with
  that number, it returns the inode of that number, one reference richer and in the
  directory under the name, and nothing else has changed.
\<close>

definition addable :: "rawBridge \<Rightarrow> addr \<Rightarrow> string \<Rightarrow> u64 \<Rightarrow> bool" where
  "addable b p name i \<longleftrightarrow>
     valid b p \<and> registered b p \<and> isDir (heap b p) \<and> name \<noteq> ''.'' \<and> name \<noteq> ''..'' \<and>
     (i \<noteq> NOT 0 \<or> go_get (nodes b) i \<noteq> nil) \<and>
     (edge b p name = nil \<or> edge b p name = go_get (nodes b) i) \<and>
     (go_get (nodes b) i \<noteq> nil \<longrightarrow> lookups b (go_get (nodes b) i) \<noteq> - 1)"

definition added :: "rawBridge \<Rightarrow> addr \<Rightarrow> string \<Rightarrow> u64 \<Rightarrow> bool \<Rightarrow> addr \<Rightarrow> rawBridge \<Rightarrow> bool" where
  "added b p name i dir c b' \<longleftrightarrow>
     valid b' c \<and> inum b' c = i \<and>
     (if go_get (nodes b) i = nil
      then c = hnext b \<and> isDir (heap b' c) = dir \<and> lookups b' c = 1 \<and> pset b' c = {pent name p} \<and>
        (\<forall>m. edge b' c m = nil)
      else c = go_get (nodes b) i \<and> isDir (heap b' c) = isDir (heap b c) \<and> lookups b' c = lookups b c + 1) \<and>
     nodes b' = AList.update i c (nodes b) \<and>
     hnext b' = (if go_get (nodes b) i = nil then Suc (hnext b) else hnext b) \<and>
     (\<forall>q m. valid b q \<longrightarrow> edge b' q m = (if q = p \<and> m = name then c else edge b q m)) \<and>
     (\<forall>a. valid b a \<longrightarrow> pset b' a = (if a = c then insert (pent name p) (pset b a) else pset b a)) \<and>
     (\<forall>a. valid b a \<longrightarrow> a \<noteq> c \<longrightarrow> lookups b' a = lookups b a \<and> parents (heap b' a) = parents (heap b a)) \<and>
     parents_get (parents (heap b' c)) = pent name p \<and>
     (\<forall>a. valid b a \<longrightarrow> valid b' a \<and> inum b' a = inum b a \<and> isDir (heap b' a) = isDir (heap b a)) \<and>
     root b' = root b \<and> options b' = options b \<and> files b' = files b \<and> freeFiles b' = freeFiles b"

lemma added_new:
  assumes "added b p name i dir c b'" "go_get (nodes b) i = nil"
  shows "edge b' c m = nil" "c = hnext b" "lookups b' c = 1" "isDir (heap b' c) = dir" "pset b' c = {pent name p}"
proof -
  have n: "c = hnext b \<and> isDir (heap b' c) = dir \<and> lookups b' c = 1 \<and> pset b' c = {pent name p} \<and>
      (\<forall>m. edge b' c m = nil)"
    using assms(1) unfolding added_def if_P[OF assms(2)] by (elim conjE) (intro conjI)
  then have "\<forall>m. edge b' c m = nil" by (elim conjE)
  then show "edge b' c m = nil" ..
  from n show "c = hnext b" "lookups b' c = 1" "isDir (heap b' c) = dir" "pset b' c = {pent name p}"
    by (blast elim: conjE)+
qed

lemma added_old:
  assumes "added b p name i dir c b'" "go_get (nodes b) i \<noteq> nil"
  shows "c = go_get (nodes b) i" "lookups b' c = lookups b c + 1" "isDir (heap b' c) = isDir (heap b c)"
proof -
  have "c = go_get (nodes b) i \<and> isDir (heap b' c) = isDir (heap b c) \<and> lookups b' c = lookups b c + 1"
    using assms(1) unfolding added_def if_not_P[OF assms(2)] by (elim conjE) (intro conjI)
  then show "c = go_get (nodes b) i" "lookups b' c = lookups b c + 1" "isDir (heap b' c) = isDir (heap b c)"
    by (blast elim: conjE)+
qed

lemma added_frame:
  assumes "added b p name i dir c b'"
  shows "valid b' c" "inum b' c = i" "nodes b' = AList.update i c (nodes b)" "root b' = root b"
    "files b' = files b" "freeFiles b' = freeFiles b" "options b' = options b"
    "valid b a \<Longrightarrow> valid b' a" "valid b a \<Longrightarrow> inum b' a = inum b a"
    "valid b a \<Longrightarrow> isDir (heap b' a) = isDir (heap b a)"
    "valid b a \<Longrightarrow> a \<noteq> c \<Longrightarrow> lookups b' a = lookups b a"
    "valid b q \<Longrightarrow> edge b' q m = (if q = p \<and> m = name then c else edge b q m)"
  using assms unfolding added_def by blast+

lemma addChild_spec:
  assumes "tree_ok b" "addable b p name i"
  shows "\<exists>c b'. addChild p name i dir b = Inr (c, b') \<and> tree_ok b' \<and> registered b' c \<and> added b p name i dir c b'"
proof -
  obtain c b1 where k: "known i dir b = (c, b1)" by fastforce
  let ?b2 = "ref_st i c b1"
  let ?b3 = "link_st p name c ?b2"
  have w: "wf_upto {} b" using assms(1) by (simp add: tree_ok_def)
  note kw = known_wf[OF w k] and ks = known_same[OF k] and kn = known_new[OF k]
  from assms(2) have p: "valid b p" "registered b p" "isDir (heap b p)" by (simp_all add: addable_def)
  have old: "c = go_get (nodes b) i" "valid b c" if "go_get (nodes b) i \<noteq> nil"
    using known_cases[OF k] that w by (auto simp: wf_upto_def tab_ok_def)
  have l: "lookups b1 c + 1 \<noteq> 0"
    using kn(3) old ks(4)[of c] assms(2)
    by (cases "go_get (nodes b) i = nil") (auto simp: addable_def eq_neg_iff_add_eq_0)
  note rw = ref_wf[OF kw(1-4) l]
  have d: "isDir (heap ?b2 p)" using p ks by (simp add: ref_views)
  have rp: "registered ?b2 p"
    using rw(3)[OF ks(1)[OF p(1)]] p ks(5)[OF p(1)] kw(5) by (simp add: registered_def)
  have e: "edge ?b2 p name = nil \<or> edge ?b2 p name = c"
    using assms(2) ks(2)[OF p(1)] old(1) unfolding addable_def ref_views by metis
  have "addChild p name i dir b = Inr (c, ?b3)"
    using addChild_eq[of name i b dir p] assms(2) d k by (simp add: addable_def)
  moreover have "tree_ok ?b3"
    using link_wf[OF rw(1) _ _ rp rw(2) e] ks(1)[OF p(1)] kw(2) by (simp add: tree_ok_def)
  moreover have "registered ?b3 c" using rw(2) by simp
  moreover have "added b p name i dir c ?b3"
  proof -
    have h2: "heap_ok ?b2" using rw(1) by (simp add: wf_upto_def)
    have np: "p \<noteq> nil" "p \<noteq> hnext b" using p by (simp_all add: valid_def)
    then have ps: "pset ?b3 a = (if a = c then insert (pent name p) (pset b1 c) else pset b1 a)" for a
      using link_pset[OF h2] kw(2) by (simp add: ref_views)
    have 1: "if go_get (nodes b) i = nil
      then c = hnext b \<and> isDir (heap ?b3 c) = dir \<and> lookups ?b3 c = 1 \<and> pset ?b3 c = {pent name p} \<and>
        (\<forall>m. edge ?b3 c m = nil)
      else c = go_get (nodes b) i \<and> isDir (heap ?b3 c) = isDir (heap b c) \<and> lookups ?b3 c = lookups b c + 1"
    proof (cases "go_get (nodes b) i = nil")
      case True
      have "pset ?b3 c = {pent name p}" using kn(4)[OF True] ps[of c] by simp
      moreover have "isDir (heap ?b3 c) = dir" using kn(2)[OF True] link_isDir[OF d] by (simp add: ref_views)
      moreover have "lookups ?b3 c = 1" using kn(3)[OF True] by (simp add: ref_views)
      moreover have "edge ?b3 c m = nil" for m
        using kn(1,5)[OF True] np by (simp add: link_edge ref_views)
      ultimately show ?thesis using True kn(1) by simp
    next
      case False
      have "isDir (heap ?b3 c) = isDir (heap b c)" "lookups ?b3 c = lookups b c + 1"
        using ks[OF old(2)[OF False]] link_isDir[OF d] by (simp_all add: ref_views)
      with False old(1)[OF False] show ?thesis by simp
    qed
    have 2: "valid b q \<Longrightarrow> edge ?b3 q m = (if q = p \<and> m = name then c else edge b q m)" for q m
      using ks by (simp add: link_edge ref_views)
    have 3: "valid b a \<Longrightarrow> pset ?b3 a = (if a = c then insert (pent name p) (pset b a) else pset b a)"
      "valid b a \<Longrightarrow> a \<noteq> c \<Longrightarrow> lookups ?b3 a = lookups b a \<and> parents (heap ?b3 a) = parents (heap b a)"
      "valid b a \<Longrightarrow> valid ?b3 a \<and> inum ?b3 a = inum b a \<and> isDir (heap ?b3 a) = isDir (heap b a)" for a
      using ks d by (auto simp: ps ref_views link_isDir link_parents ref_parents)
    show ?thesis
      unfolding added_def using 1 2 3 kw(2,3,5) ks[OF p(1)] known_hnext[OF k]
      by (simp add: ref_views link_newest)
  qed
  ultimately show ?thesis by blast
qed
section \<open>mvChild\<close>

definition cut_opt :: "addr \<Rightarrow> string \<Rightarrow> addr \<Rightarrow> rawBridge \<Rightarrow> rawBridge" where
  "cut_opt p name c b = (if c \<noteq> nil then cut_st p name c b else b)"

definition link_opt :: "addr \<Rightarrow> string \<Rightarrow> addr \<Rightarrow> rawBridge \<Rightarrow> rawBridge" where
  "link_opt p name c b = (if c \<noteq> nil then link_st p name c b else b)"

definition move_st :: "addr \<Rightarrow> string \<Rightarrow> addr \<Rightarrow> string \<Rightarrow> rawBridge \<Rightarrow> rawBridge" where
  "move_st p name q newName b =
    (let c = edge b p name;
         d = edge b q newName
     in link_opt q newName c (cut_opt q newName d (cut_opt p name c b)))"

lemma cut_isDir: "isDir (heap (cut_st p name c b) a) = isDir (heap b a)"
  using cut_env[of b p name c] by (simp add: same_env_def)

lemma bindM_ret_right: "bindM m ret = m"
  by (rule ext) (simp add: bindM_def ret_def split: sum.splits prod.splits)

lemma cut_if:
  "bindM (if c \<noteq> nil then bindM (modifyM (upd p (del_child name))) (\<lambda>_.
      bindM (del_parent c (pent name p)) (\<lambda>_. bindM (bumpM p) (\<lambda>_. bumpM c))) else ret ()) f b =
   f () (cut_opt p name c b)"
  by (simp add: bindM_Inr[OF cutM'] bindM_ret cut_opt_def)

lemma link_if:
  assumes "isDir (heap b p)"
  shows "bindM (if c \<noteq> nil then bindM (set_child p name c) (\<lambda>_.
      bindM (add_parent c (pent name p)) (\<lambda>_. bindM (bumpM p) (\<lambda>_. bumpM c))) else ret ()) f b =
   f () (link_opt p name c b)"
proof -
  have "bindM (set_child p name c) (\<lambda>_.
      bindM (add_parent c (pent name p)) (\<lambda>_. bindM (bumpM p) (\<lambda>_. bumpM c))) b = Inr ((), link_st p name c b)"
    using linkM[OF assms, of name c ret] by (simp add: bindM_ret_right ret_def)
  then show ?thesis by (simp add: bindM_Inr bindM_ret link_opt_def)
qed

lemma cut_opt_frame [simp]:
  "nodes (cut_opt p name c b) = nodes b" "valid (cut_opt p name c b) a = valid b a"
  "registered (cut_opt p name c b) a = registered b a"
  "isDir (heap (cut_opt p name c b) a) = isDir (heap b a)"
  by (simp_all add: cut_opt_def cut_isDir)

lemma cut_opt_env: "same_env b (cut_opt p name c b)"
  by (simp add: cut_opt_def cut_env)

lemma cut_opt_edge:
  "edge (cut_opt p name c b) q m = (if c \<noteq> nil \<and> q = p \<and> m = name then nil else edge b q m)"
  by (simp add: cut_opt_def cut_edge)

lemma cut_opt_wf:
  assumes "wf_upto W b" "valid b p" "c \<noteq> nil \<Longrightarrow> valid b c" "edge b p name = nil \<or> edge b p name = c"
  shows "wf_upto (insert p W) (cut_opt p name c b)"
  using assms cut_wf[OF assms(1,2), of c name] wf_upto_mono[OF assms(1), of "insert p W"]
  by (auto simp: cut_opt_def)

lemma mvChild_eq:
  assumes "isDir (heap b q)"
  shows "mvChild p name q newName overwrite b =
    (if edge b q newName \<noteq> nil \<and> \<not> overwrite then Inr (False, b)
     else let b3 = move_st p name q newName b
          in bindM (if \<not> live b3 p then remove_ref p 0 else ret False) (\<lambda>_.
             bindM (if \<not> live b3 q then remove_ref q 0 else ret False) (\<lambda>_. ret True)) b3)"
proof (cases "edge b q newName \<noteq> nil \<and> \<not> overwrite")
  case True
  then show ?thesis by (simp add: mvChild_def bindM_gets edge_child ret_def)
next
  case False
  let ?c = "edge b p name" and ?d = "edge b q newName"
  have d: "isDir (heap (cut_opt q newName ?d (cut_opt p name ?c b)) q)"
    using assms by simp
  from False show ?thesis
    by (simp only: mvChild_def One_nat_def mvChild_loop.simps bindM_gets edge_child cut_if link_if[OF d] heap_views
        Let_def if_False simp_thms move_st_def)
qed

lemma move_wf:
  assumes "wf_upto {} b" "valid b p" "valid b q" "registered b q" "isDir (heap b q)"
  shows "wf_upto {p, q} (move_st p name q newName b)"
    and "same_env b ((move_st p name q newName b)\<lparr>clock := clock b\<rparr>)"
    and "nodes (move_st p name q newName b) = nodes b"
proof -
  let ?c = "edge b p name" and ?d = "edge b q newName"
  define b1 where "b1 = cut_opt p name ?c b"
  define b2 where "b2 = cut_opt q newName ?d b1"
  have m: "move_st p name q newName b = link_opt q newName ?c b2"
    by (simp add: move_st_def Let_def b1_def b2_def)
  have e: "edges_ok b" and l: "live_ok {} b" using assms(1) by (simp_all add: wf_upto_def)
  have c: "valid b ?c" if "?c \<noteq> nil" using edges_okD(2)[OF e assms(2) that] .
  have d: "valid b ?d" if "?d \<noteq> nil" using edges_okD(2)[OF e assms(3) that] .
  have w1: "wf_upto {p} b1" using cut_opt_wf[OF assms(1,2) c] by (simp add: b1_def)
  have w2: "wf_upto {q, p} b2"
    using cut_opt_wf[OF w1, of q ?d newName] d assms(3) by (simp add: b2_def b1_def cut_opt_edge)
  have e2: "edge b2 q newName = nil" by (simp add: b1_def b2_def cut_opt_edge)
  have rc: "registered b ?c" if "?c \<noteq> nil"
    using l c[OF that] edges_okD(1)[OF e assms(2) c[OF that], of name] by (auto simp: live_ok_def)
  have "wf_upto ({q, p} - {q}) (link_st q newName ?c b2)" if "?c \<noteq> nil"
    using link_wf[OF w2, of q ?c newName] c[OF that] rc[OF that] assms(3,4) e2 by (simp add: b1_def b2_def)
  then have "wf_upto {q, p} (link_opt q newName ?c b2)"
    using w2 wf_upto_mono[of "{q, p} - {q}" _ "{q, p}"] by (auto simp: link_opt_def)
  then show "wf_upto {p, q} (move_st p name q newName b)" by (simp add: m insert_commute)
  have s: "same_env b b2" using cut_opt_env same_env_trans unfolding b1_def b2_def by blast
  then have i: "isDir (heap b2 q)" using assms(5) by (simp add: same_env_def)
  have "same_env b ((link_st q newName ?c b2)\<lparr>clock := clock b\<rparr>)"
    using s i by (simp add: same_env_def view_simps link_isDir) (simp add: link_st_def Let_def)
  then show "same_env b ((move_st p name q newName b)\<lparr>clock := clock b\<rparr>)"
    using s by (simp add: m link_opt_def same_env_def view_simps)
  show "nodes (move_st p name q newName b) = nodes b" by (simp add: m link_opt_def b1_def b2_def)
qed
lemma remove_dead:
  assumes "wf_upto W b" "valid b a" "settled b a"
  shows "\<exists>r b'. remove_ref a 0 b = Inr (r, b') \<and> wf_upto (W - {a}) b' \<and> shrinks b b'"
proof -
  have "live b a \<or> lookups b a = 0" using live_iff assms(1,2) by (auto simp: wf_upto_def)
  then have "removable (Suc (links b)) W b a" using assms by simp
  from removeRef_spec[OF this] show ?thesis
    by (auto simp: remove_ref_def monad_simps removed_ok_def)
qed

lemma registered_settled: "registered b a \<Longrightarrow> settled b a"
  by (simp add: registered_def settled_def)

lemma wf_upto_live: "wf_upto (insert a W) b \<Longrightarrow> live b a \<Longrightarrow> wf_upto W b"
  by (auto simp: wf_upto_def live_ok_def)

text \<open>The two removals at the end of \<open>mvChild\<close>.\<close>

lemma remove_two:
  assumes "wf_upto {p, q} b" "valid b p" "valid b q" "registered b p" "registered b q"
  shows "\<exists>b'. bindM (if \<not> live b p then remove_ref p 0 else ret False) (\<lambda>_.
      bindM (if \<not> live b q then remove_ref q 0 else ret False) (\<lambda>_. ret True)) b = Inr (True, b') \<and>
      tree_ok b' \<and> shrinks b b'"
proof -
  let ?W = "if live b q then {} else {q}"
  have w: "wf_upto (insert p ?W) b"
    using assms(1) wf_upto_live[of q "{p}" b] by (simp add: insert_commute)
  obtain r1 b1 where 1: "(if \<not> live b p then remove_ref p 0 else ret False) b = Inr (r1, b1)"
    "wf_upto ?W b1" "shrinks b b1"
  proof (cases "live b p")
    case True
    then show ?thesis using that[of False b] wf_upto_live[OF w] by (simp add: ret_def)
  next
    case False
    obtain r b1 where r: "remove_ref p 0 b = Inr (r, b1)" "wf_upto (insert p ?W - {p}) b1" "shrinks b b1"
      using remove_dead[OF w assms(2) registered_settled[OF assms(4)]] by blast
    have "wf_upto ?W b1" by (rule wf_upto_mono[OF r(2)]) auto
    with False r show ?thesis using that[of r b1] by simp
  qed
  obtain r2 b2 where 2: "(if \<not> live b q then remove_ref q 0 else ret False) b1 = Inr (r2, b2)"
    "wf_upto {} b2" "shrinks b1 b2"
  proof (cases "live b q")
    case True
    then show ?thesis using that[of False b1] 1 by (simp add: ret_def)
  next
    case False
    have "valid b1 q" "settled b1 q"
      using assms shrinks_valid[OF 1(3)] shrinks_settled[OF 1(3)] registered_settled by simp_all
    from remove_dead[OF 1(2) this] False show ?thesis using that by auto
  qed
  have "shrinks b b2"
    using shrinks_trans[OF 1(3) 2(3)] w 1(2) 2(2) by (simp add: wf_upto_def)
  moreover have "bindM (if \<not> live b p then remove_ref p 0 else ret False) (\<lambda>_.
      bindM (if \<not> live b q then remove_ref q 0 else ret False) (\<lambda>_. ret True)) b = Inr (True, b2)"
    using 1(1) 2(1) by (simp only: bindM_def sum.case prod.case ret_def)
  ultimately show ?thesis using 2(2) by (auto simp: tree_ok_def)
qed

lemma mvChild_spec:
  assumes "tree_ok b" "valid b p" "valid b q" "registered b p" "registered b q" "isDir (heap b q)"
  shows "\<exists>r b'. mvChild p name q newName overwrite b = Inr (r, b') \<and> tree_ok b' \<and>
      r = (overwrite \<or> edge b q newName = nil) \<and>
      (if r then shrinks (move_st p name q newName b) b' else b' = b)"
proof (cases "edge b q newName \<noteq> nil \<and> \<not> overwrite")
  case True
  with assms(1,6) show ?thesis by (intro exI[of _ False] exI[of _ b]) (simp add: mvChild_eq)
next
  case False
  let ?b = "move_st p name q newName b"
  have w: "wf_upto {} b" using assms(1) by (simp add: tree_ok_def)
  note m = move_wf[OF w assms(2,3,5,6), of name newName]
  have v: "valid ?b a = valid b a" "registered ?b a = registered b a" for a
    using m(2,3) by (simp_all add: same_env_def valid_def registered_def view_simps)
  obtain b' where "bindM (if \<not> live ?b p then remove_ref p 0 else ret False) (\<lambda>_.
      bindM (if \<not> live ?b q then remove_ref q 0 else ret False) (\<lambda>_. ret True)) ?b = Inr (True, b')"
      "tree_ok b'" "shrinks ?b b'"
    using remove_two[OF m(1)] assms(2-5) v by auto
  with False assms(6) show ?thesis by (auto simp: mvChild_eq Let_def)
qed

lemma move_edge:
  "edge (move_st p name q newName b) r m =
    (if edge b p name = nil then (if r = q \<and> m = newName then nil else edge b r m)
     else if r = q \<and> m = newName then edge b p name
     else if r = p \<and> m = name then nil else edge b r m)"
  by (auto simp: move_st_def Let_def link_opt_def link_edge cut_opt_edge)
section \<open>Inodes that the kernel still knows\<close>

text \<open>An inode with references is live, so no removal follows.\<close>

lemma live_lookups: "heap_ok b \<Longrightarrow> valid b a \<Longrightarrow> lookups b a \<noteq> 0 \<Longrightarrow> live b a"
  by (simp add: live_iff)

lemma cut_lookups [simp]: "lookups (cut_st p name c b) a = lookups b a"
  using cut_env[of b p name c] by (simp add: same_env_def)

lemma rmChild_cut:
  assumes "tree_ok b" "valid b p" "lookups b p \<noteq> 0"
  shows "rmChild p name b =
    (if edge b p name = nil then Inr (False, b) else Inr (True, cut_st p name (edge b p name) b))"
proof -
  have "heap_ok b" using assms(1) by (simp add: tree_ok_def wf_upto_def)
  then have "live (cut_st p name (edge b p name) b) p"
    using assms live_lookups[OF cut_heap_ok] by simp
  then show ?thesis by (simp add: rmChild_eq Let_def monad_simps)
qed

lemma mvChild_move:
  assumes "tree_ok b" "valid b p" "valid b q" "registered b q" "isDir (heap b q)"
    and "lookups b p \<noteq> 0" "lookups b q \<noteq> 0"
  shows "mvChild p name q newName True b = Inr (True, move_st p name q newName b)"
proof -
  let ?b = "move_st p name q newName b"
  have w: "wf_upto {} b" using assms(1) by (simp add: tree_ok_def)
  note m = move_wf[OF w assms(2,3,4,5), of name newName]
  have "heap_ok ?b" using m(1) by (simp add: wf_upto_def)
  moreover have "lookups ?b a = lookups b a" "valid ?b a = valid b a" for a
    using m(2) by (simp_all add: same_env_def view_simps valid_def)
  ultimately have "live ?b p" "live ?b q"
    using live_lookups assms(2,3,6,7) by simp_all
  then show ?thesis using assms(5) by (simp add: mvChild_eq Let_def monad_simps)
qed

section \<open>Dropping references\<close>

definition unref_st :: "addr \<Rightarrow> u32 \<Rightarrow> rawBridge \<Rightarrow> rawBridge" where
  "unref_st a k b = (if 0 < k then upd a bump (upd a (\<lambda>v. v\<lparr>lookupCount := lookupCount v - k\<rparr>) b) else b)"

lemma unref_if:
  "bindM (if 0 < k then bindM (modifyM (upd a (\<lambda>v. v\<lparr>lookupCount := lookupCount v - k\<rparr>))) (\<lambda>_. bumpM a)
     else ret ()) f b = f () (unref_st a k b)"
  by (simp add: bindM_def modifyM_def bumpM_def ret_def unref_st_def)

lemma unref_0 [simp]: "unref_st a 0 b = b"
  by (simp add: unref_st_def)

lemma remove_ref_eq:
  "remove_ref a k b =
    (if lookups b a < k then Inl (Panic_lookup_underflow (inum b a) (lookups b a) k)
     else removeRef (Suc (links b)) a 0 (unref_st a k b))"
  by (cases "lookups b a < k")
    (simp_all only: remove_ref_def removeRef.simps(2) bindM_gets bindM_ret unref_if unref_0 heap_views fail_def
      word_not_simps if_False if_True)

lemma unref_frame [simp]:
  "nodes (unref_st a k b) = nodes b" "hnext (unref_st a k b) = hnext b" "root (unref_st a k b) = root b"
  "clock (unref_st a k b) = clock b" "nodeCountHigh (unref_st a k b) = nodeCountHigh b"
  "files (unref_st a k b) = files b" "freeFiles (unref_st a k b) = freeFiles b"
  "options (unref_st a k b) = options b"
  by (simp_all add: unref_st_def)

lemma unref_views [simp]:
  "valid (unref_st a k b) x = valid b x" "edge (unref_st a k b) p m = edge b p m"
  "pset (unref_st a k b) x = pset b x" "inum (unref_st a k b) x = inum b x"
  "lookups (unref_st a k b) x = (if x = a then lookups b a - k else lookups b x)"
  "registered (unref_st a k b) x = registered b x" "links (unref_st a k b) = links b"
  "settled (unref_st a k b) x = settled b x"
proof -
  have "parents (heap (unref_st a k b) x) = parents (heap b x)" for x
    by (simp add: unref_st_def)
  then show "links (unref_st a k b) = links b" by (simp add: links_def)
qed (auto simp: unref_st_def view_simps registered_def settled_def word_gt_0)

lemma unref_wf:
  assumes "tree_ok b" "k \<le> lookups b a"
  shows "wf_upto {a} (unref_st a k b)"
proof -
  let ?b = "unref_st a k b"
  from assms(1) have h: "heap_ok b" and e: "edges_ok b" and t: "tab_ok b" and l: "live_ok {} b"
    by (simp_all add: tree_ok_def wf_upto_def)
  have "tab_ok ?b" using t by (simp add: tab_ok_def)
  moreover have h': "heap_ok ?b"
    by (rule heap_okI[OF h]) (auto simp: unref_st_def view_simps)
  moreover have "edges_ok ?b" using e by (simp add: edges_ok_def)
  moreover have "live ?b x \<longleftrightarrow> live b x" if "valid b x" "x \<noteq> a" for x
    using that live_iff[OF h'] live_iff[OF h] by simp
  moreover have "live b a" if "valid b a" "live ?b a"
    using that live_iff[OF h', of a] live_iff[OF h, of a] assms(2) by auto
  ultimately show ?thesis
    using l unfolding wf_upto_def live_ok_def unref_views by blast
qed
lemma remove_ref_spec:
  assumes "tree_ok b" "valid b a" "registered b a" "k \<le> lookups b a"
  shows "\<exists>r b'. remove_ref a k b = Inr (r, b') \<and> tree_ok b' \<and> shrinks (unref_st a k b) b' \<and>
    r = (lookups b a = k \<and> (\<forall>m. edge b a m = nil)) \<and> (r \<longrightarrow> \<not> registered b' a) \<and>
    (\<not> r \<longrightarrow> b' = unref_st a k b)"
proof -
  let ?b = "unref_st a k b"
  have h: "heap_ok ?b" using unref_wf[OF assms(1,4)] by (simp add: wf_upto_def)
  have l: "live ?b a \<longleftrightarrow> lookups b a \<noteq> k \<or> (\<exists>m. edge b a m \<noteq> nil)"
    using live_iff[OF h, of a] assms(2) by simp
  then have "removable (Suc (links b)) {a} ?b a"
    using unref_wf[OF assms(1,4)] assms(2,3) registered_settled live_iff[OF h, of a] by auto
  from removeRef_spec[OF this] obtain b' where
    b': "removeRef (Suc (links b)) a 0 ?b = Inr (\<not> live ?b a, b')" "removed_ok {a} ?b a b'" by blast
  have "remove_ref a k b = Inr (\<not> live ?b a, b')" using b'(1) assms(4) by (simp add: remove_ref_eq)
  moreover have "b' = ?b" if "live ?b a" using b'(1) that by (simp add: removeRef_Suc)
  ultimately show ?thesis using b'(2) l by (auto simp: removed_ok_def tree_ok_def)
qed

lemma remove_ref_underflow:
  "lookups b a < k \<Longrightarrow> remove_ref a k b = Inl (Panic_lookup_underflow (inum b a) (lookups b a) k)"
  by (simp add: remove_ref_eq)

section \<open>The first state\<close>

lemma NewPathFS_eq:
  assumes "NewPathFS opts rs = Inr b"
  shows "b = (bridge_blank (case opts of None \<Rightarrow> Options_default | Some opts \<Rightarrow> opts) rs)
      \<lparr>root := 1, nodes := [(1, 1)], nodeCountHigh := 1, files := [fileEntry_zero], hnext := Suc 1,
       heap := (\<lambda>_. inode_zero)(1 := inode_zero\<lparr>ino := 1, children := Some [], lookupCount := 1\<rparr>)\<rparr>"
  using assms by (auto simp: NewPathFS_def newInode_def alloc_apply Let_def bridge_blank_def upd_def
      inode_zero_def split: option.splits)

lemma NewPathFS_empty:
  assumes "NewPathFS opts rs = Inr b"
  shows "edge b p m = nil" "pset b a = {}"
  by (auto simp: NewPathFS_eq[OF assms] edge_def child_def pset_def bridge_blank_def)

lemma NewPathFS_wf:
  assumes "NewPathFS opts rs = Inr b"
  shows "tree_ok b" "registered b (root b)" "isDir (heap b (root b))" "lookups b (root b) = 1" "nodes b = [(1, root b)]"
    "files b = [fileEntry_zero]" "freeFiles b = []"
proof -
  note b = NewPathFS_eq[OF assms]
  show "registered b (root b)" "isDir (heap b (root b))" "lookups b (root b) = 1" "nodes b = [(1, root b)]"
    "files b = [fileEntry_zero]" "freeFiles b = []"
    by (simp_all add: b registered_def inum_def go_get_Cons isDir_def lookups_def bridge_blank_def)
  have v: "valid b a \<longleftrightarrow> a = 1" for a by (auto simp: b valid_def)
  note e = NewPathFS_empty[OF assms]
  have l: "live b 1" "registered b 1"
    by (simp_all add: b live_def isLive_def registered_def inum_def go_get_Cons)
  show "tree_ok b"
    unfolding tree_ok_def wf_upto_def edges_ok_def live_ok_def
    using l by (auto simp: v e tab_ok_def heap_ok_def)
      (auto simp: b inum_def bridge_blank_def go_get_Cons go_map_ok_def split: if_splits)
qed
end
