(* ===== verification/Interleaving.thy ===== *)
theory Interleaving
  imports Tree_Ops
begin

text \<open>
  The operations on the tree when several of them run at the same time. Each is a sequence of
  sections, from the point where the code takes a group of locks to the point where it gives
  them back, and between two sections of one call any sections of other calls may run. A
  section takes all its locks before it gives one back (\<open>b.mu\<close> is taken inside the locks of
  inodes), and every field is read and written under its lock (\<open>Footprints\<close>), so that sections can be taken
  to run one after the other. What a call has read in one section and relies on in the next,
  a revision and the children or parents it belongs to, is an argument of the next section.
\<close>

section \<open>Sections\<close>

datatype task =
    Add addr string u64 bool addr
  | Ref addr u32
  | RefRead addr
  | RefLock addr u32 "parentEntry list"
  | Rm addr string
  | RmLock addr string u32 addr
  | Mv addr string addr string bool
  | MvLock addr string addr string bool u32 u32 addr addr

subsection \<open>\<open>addChild\<close>\<close>

text \<open>What \<open>addChild\<close> does when it has locked the parent and the inode of the table.\<close>

definition add_commit :: "addr \<Rightarrow> string \<Rightarrow> u64 \<Rightarrow> bool \<Rightarrow> addr \<Rightarrow> (rawBridge, addr) M" where
  "add_commit parent name i dir c0 =
    bindM (if c0 = nil then newInode i dir else ret c0) (\<lambda>c.
    bindM (modifyM (upd c (\<lambda>n. n\<lparr>lookupCount := lookupCount n + 1\<rparr>))) (\<lambda>_.
    bindM (bumpM c) (\<lambda>_.
    bindM (modifyM (\<lambda>b. b\<lparr>nodes := AList.update i c (nodes b)\<rparr>)) (\<lambda>_.
    bindM (modifyM (\<lambda>b. if nodeCountHigh b < length (nodes b)
                        then b\<lparr>nodeCountHigh := length (nodes b)\<rparr> else b)) (\<lambda>_.
    bindM (set_child parent name c) (\<lambda>_.
    bindM (add_parent c (pent name parent)) (\<lambda>_.
    bindM (bumpM parent) (\<lambda>_.
    bindM (bumpM c) (\<lambda>_.
    ret c)))))))))"

definition add_section :: "addr \<Rightarrow> string \<Rightarrow> u64 \<Rightarrow> bool \<Rightarrow> addr \<Rightarrow> (rawBridge, task list) M" where
  "add_section parent name i dir c =
    (if name = ''.'' \<or> name = ''..'' then fail (Panic_virtual_entry name)
     else bindM (getsM (\<lambda>b. go_get (nodes b) i)) (\<lambda>old.
       if old = c then bindM (add_commit parent name i dir c) (\<lambda>_. ret [])
       else ret [Add parent name i dir old]))"

subsection \<open>\<open>removeRef\<close>\<close>

text \<open>The count goes down; an inode that is not live any more leaves the table.\<close>

definition ref_start :: "addr \<Rightarrow> u32 \<Rightarrow> (rawBridge, bool) M" where
  "ref_start n nlookup =
    bindM (getsM (\<lambda>b. heap b n)) (\<lambda>v.
      if lookupCount v < nlookup
      then fail (Panic_lookup_underflow (ino v) (lookupCount v) nlookup)
      else
        bindM (if 0 < nlookup
               then bindM (modifyM (upd n (\<lambda>v. v\<lparr>lookupCount := lookupCount v - nlookup\<rparr>))) (\<lambda>_. bumpM n)
               else ret ()) (\<lambda>_.
        bindM (getsM (\<lambda>b. isLive (heap b n))) (\<lambda>live.
          if live then ret True
          else bindM (modifyM (\<lambda>b. b\<lparr>nodes := AList.delete (ino (heap b n)) (nodes b)\<rparr>)) (\<lambda>_. ret False))))"

definition ref_read :: "addr \<Rightarrow> (rawBridge, task list) M" where
  "ref_read n =
    bindM (getsM (\<lambda>b. revision (heap b n))) (\<lambda>rv.
    bindM (getsM (\<lambda>b. parents_all (parents (heap b n)))) (\<lambda>pes.
    ret [RefLock n rv pes]))"

definition ref_section :: "addr \<Rightarrow> u32 \<Rightarrow> (rawBridge, task list) M" where
  "ref_section n nlookup = bindM (ref_start n nlookup) (\<lambda>live. if live then ret [] else ref_read n)"

definition ref_commit :: "addr \<Rightarrow> parentEntry list \<Rightarrow> (rawBridge, unit) M" where
  "ref_commit n pes =
    bindM (forM pes (\<lambda>pe. modifyM (unlink_st n pe))) (\<lambda>_.
    bindM (modifyM (upd n (\<lambda>v. v\<lparr>parents := parents_clear (parents v)\<rparr>))) (\<lambda>_.
    bindM (bumpM n) (\<lambda>_.
    bindM (getsM (\<lambda>b. heap b n)) (\<lambda>v'.
      if lookupCount v' \<noteq> 0 then fail (Panic_lookup_changed (ino v') (lookupCount v')) else ret ()))))"

definition ref_follow :: "parentEntry list \<Rightarrow> task list" where
  "ref_follow pes = map (\<lambda>pe. Ref (pe_node pe) 0) pes"

definition reflock_section :: "addr \<Rightarrow> u32 \<Rightarrow> parentEntry list \<Rightarrow> (rawBridge, task list) M" where
  "reflock_section n rv pes =
    bindM (getsM (\<lambda>b. revision (heap b n))) (\<lambda>rv'.
      if rv' \<noteq> rv then ret [RefRead n]
      else bindM (ref_commit n pes) (\<lambda>_. ret (ref_follow pes)))"

subsection \<open>\<open>rmChild\<close>\<close>

definition rm_section :: "addr \<Rightarrow> string \<Rightarrow> (rawBridge, task list) M" where
  "rm_section parent name =
    bindM (getsM (\<lambda>b. revision (heap b parent))) (\<lambda>rv.
    bindM (getsM (\<lambda>b. child (heap b parent) name)) (\<lambda>c.
      ret (if c = nil then [] else [RmLock parent name rv c])))"

definition rm_commit :: "addr \<Rightarrow> string \<Rightarrow> addr \<Rightarrow> (rawBridge, bool) M" where
  "rm_commit parent name c =
    bindM (modifyM (upd parent (del_child name))) (\<lambda>_.
    bindM (del_parent c (pent name parent)) (\<lambda>_.
    bindM (bumpM parent) (\<lambda>_.
    bindM (bumpM c) (\<lambda>_.
    getsM (\<lambda>b. isLive (heap b parent))))))"

definition rmlock_section :: "addr \<Rightarrow> string \<Rightarrow> u32 \<Rightarrow> addr \<Rightarrow> (rawBridge, task list) M" where
  "rmlock_section parent name rv c =
    bindM (getsM (\<lambda>b. revision (heap b parent))) (\<lambda>rv'.
      if rv' \<noteq> rv then ret [Rm parent name]
      else bindM (rm_commit parent name c) (\<lambda>live. ret (if live then [] else [Ref parent 0])))"

subsection \<open>\<open>mvChild\<close>\<close>

definition mv_section :: "addr \<Rightarrow> string \<Rightarrow> addr \<Rightarrow> string \<Rightarrow> bool \<Rightarrow> (rawBridge, task list) M" where
  "mv_section parent name newParent newName overwrite =
    bindM (getsM (\<lambda>b. (revision (heap b parent), revision (heap b newParent)))) (\<lambda>(rv, nRev).
    bindM (getsM (\<lambda>b. child (heap b parent) name)) (\<lambda>c.
    bindM (getsM (\<lambda>b. child (heap b newParent) newName)) (\<lambda>destChild.
      ret (if destChild \<noteq> nil \<and> \<not> overwrite then []
           else [MvLock parent name newParent newName overwrite rv nRev c destChild]))))"

definition mv_commit :: "addr \<Rightarrow> string \<Rightarrow> addr \<Rightarrow> string \<Rightarrow> addr \<Rightarrow> addr \<Rightarrow> (rawBridge, bool \<times> bool) M" where
  "mv_commit parent name newParent newName c destChild =
    bindM (if c \<noteq> nil then
             bindM (modifyM (upd parent (del_child name))) (\<lambda>_.
             bindM (del_parent c (pent name parent)) (\<lambda>_.
             bindM (bumpM parent) (\<lambda>_.
             bumpM c)))
           else ret ()) (\<lambda>_.
    bindM (if destChild \<noteq> nil then
             bindM (modifyM (upd newParent (del_child newName))) (\<lambda>_.
             bindM (del_parent destChild (pent newName newParent)) (\<lambda>_.
             bindM (bumpM newParent) (\<lambda>_.
             bumpM destChild)))
           else ret ()) (\<lambda>_.
    bindM (if c \<noteq> nil then
             bindM (set_child newParent newName c) (\<lambda>_.
             bindM (add_parent c (pent newName newParent)) (\<lambda>_.
             bindM (bumpM newParent) (\<lambda>_.
             bumpM c)))
           else ret ()) (\<lambda>_.
    bindM (getsM (\<lambda>b. isLive (heap b parent))) (\<lambda>live.
    bindM (getsM (\<lambda>b. isLive (heap b newParent))) (\<lambda>newLive.
    ret (live, newLive))))))"

definition mv_follow :: "addr \<Rightarrow> addr \<Rightarrow> bool \<times> bool \<Rightarrow> task list" where
  "mv_follow parent newParent lives =
    (if \<not> fst lives then [Ref parent 0] else []) @ (if \<not> snd lives then [Ref newParent 0] else [])"

definition mvlock_section ::
  "addr \<Rightarrow> string \<Rightarrow> addr \<Rightarrow> string \<Rightarrow> bool \<Rightarrow> u32 \<Rightarrow> u32 \<Rightarrow> addr \<Rightarrow> addr \<Rightarrow> (rawBridge, task list) M" where
  "mvlock_section parent name newParent newName overwrite rv nRev c destChild =
    bindM (getsM (\<lambda>b. (revision (heap b parent), revision (heap b newParent)))) (\<lambda>revs.
      if revs \<noteq> (rv, nRev) then ret [Mv parent name newParent newName overwrite]
      else bindM (mv_commit parent name newParent newName c destChild)
             (\<lambda>lives. ret (mv_follow parent newParent lives)))"

text \<open>One section: what is left of the call afterwards comes before what was left before.\<close>

primrec run_task :: "task \<Rightarrow> (rawBridge, task list) M" where
  "run_task (Add p name i dir c) = add_section p name i dir c"
| "run_task (Ref n nlookup) = ref_section n nlookup"
| "run_task (RefRead n) = ref_read n"
| "run_task (RefLock n rv pes) = reflock_section n rv pes"
| "run_task (Rm p name) = rm_section p name"
| "run_task (RmLock p name rv c) = rmlock_section p name rv c"
| "run_task (Mv p name q name' ow) = mv_section p name q name' ow"
| "run_task (MvLock p name q name' ow rv nRev c d) = mvlock_section p name q name' ow rv nRev c d"

section \<open>A call that runs alone\<close>

text \<open>The sections of a call, with none of another call in between.\<close>

inductive finishes :: "task list \<Rightarrow> rawBridge \<Rightarrow> abort + rawBridge \<Rightarrow> bool" where
  finishes_Nil: "finishes [] b (Inr b)"
| finishes_Cons: "run_task t b = Inr (new, b') \<Longrightarrow> finishes (new @ ts) b' r \<Longrightarrow> finishes (t # ts) b r"
| finishes_panic: "run_task t b = Inl e \<Longrightarrow> finishes (t # ts) b (Inl e)"

inductive_cases finishes_NilE: "finishes [] b r"
inductive_cases finishes_ConsE: "finishes (t # ts) b r"

lemma finishes_append:
  "finishes ts b r0 \<Longrightarrow>
    (case r0 of Inl e \<Rightarrow> finishes (ts @ us) b (Inl e) | Inr b' \<Rightarrow> finishes us b' r \<longrightarrow> finishes (ts @ us) b r)"
  by (induction rule: finishes.induct) (auto intro: finishes.intros split: sum.splits)

lemma finishes_appendI:
  "finishes ts b (Inr b') \<Longrightarrow> finishes us b' r \<Longrightarrow> finishes (ts @ us) b r"
  "finishes ts b (Inl e) \<Longrightarrow> finishes (ts @ us) b (Inl e)"
  using finishes_append by fastforce+

lemma bindM_if: "bindM (if c then m else m') f = (if c then bindM m f else bindM m' f)"
  by simp

lemma removeRef_group_1: "removeRef_group 1 n = getsM (\<lambda>b. parents_all (parents (heap b n)))"
  by (rule ext) (simp add: One_nat_def monad_simps)

lemma removeRef_sections:
  "removeRef (Suc k) n nlookup =
    bindM (ref_start n nlookup) (\<lambda>live. if live then ret False else
      bindM (getsM (\<lambda>b. parents_all (parents (heap b n)))) (\<lambda>pes.
      bindM (ref_commit n pes) (\<lambda>_.
      bindM (forM pes (\<lambda>pe. bindM (removeRef k (pe_node pe) 0) (\<lambda>_. ret ()))) (\<lambda>_. ret True))))"
  unfolding removeRef.simps ref_start_def ref_commit_def removeRef_group_1
  by (simp add: bindM_assoc bindM_if bindM_ret bindM_fail cong: if_cong)

lemma finishes_deterministic: "finishes ts b r \<Longrightarrow> finishes ts b r' \<Longrightarrow> r' = r"
proof (induction arbitrary: r' rule: finishes.induct)
  case (finishes_Nil b)
  then show ?case by (rule finishes_NilE)
next
  case (finishes_Cons t b new b' ts r)
  from finishes_Cons.prems show ?case
  proof (rule finishes_ConsE)
    fix new' b''
    assume "run_task t b = Inr (new', b'')" "finishes (new' @ ts) b'' r'"
    with finishes_Cons.hyps(1) have "finishes (new @ ts) b' r'" by simp
    then show "r' = r" by (rule finishes_Cons.IH)
  qed (use finishes_Cons.hyps(1) in simp)
next
  case (finishes_panic t b e ts)
  from finishes_panic.prems show ?case by (rule finishes_ConsE) (use finishes_panic.hyps in simp_all)
qed

lemma finishes_single: "run_task t b = Inr (new, b') \<Longrightarrow> finishes new b' r \<Longrightarrow> finishes [t] b r"
  using finishes_Cons[of t b new b' "[]" r] by simp

text \<open>The state a run ends with, or the panic it ends in.\<close>

definition ends :: "abort + 'a \<times> rawBridge \<Rightarrow> abort + rawBridge" where
  "ends r = map_sum id snd r"

lemma ends_simps [simp]: "ends (Inl e) = Inl e" "ends (Inr (x, b)) = Inr b"
  by (simp_all add: ends_def)

lemma forM_alone:
  assumes "\<And>n b. removeRef k n 0 b \<noteq> Inl Diverges \<Longrightarrow> finishes [Ref n 0] b (ends (removeRef k n 0 b))"
  shows "forM pes (\<lambda>pe. bindM (removeRef k (pe_node pe) 0) (\<lambda>_. ret ())) b \<noteq> Inl Diverges \<Longrightarrow>
    finishes (ref_follow pes) b (ends (forM pes (\<lambda>pe. bindM (removeRef k (pe_node pe) 0) (\<lambda>_. ret ())) b))"
proof (induction pes arbitrary: b)
  case Nil
  then show ?case by (simp add: ref_follow_def ret_def finishes_Nil)
next
  case (Cons pe pes)
  let ?n = "pe_node pe"
  have f: "ref_follow (pe # pes) = [Ref ?n 0] @ ref_follow pes" by (simp add: ref_follow_def)
  show ?case
  proof (cases "removeRef k ?n 0 b")
    case (Inl e)
    then have "e \<noteq> Diverges" using Cons.prems by (auto simp: bindM_Inl)
    then have "finishes [Ref ?n 0] b (Inl e)" using assms[of ?n b] Inl by simp
    then have "finishes (ref_follow (pe # pes)) b (Inl e)" unfolding f by (rule finishes_appendI(2))
    with Inl show ?thesis by (simp add: bindM_Inl)
  next
    case (Inr rb)
    then obtain x b1 where r: "removeRef k ?n 0 b = Inr (x, b1)" by (cases rb) simp
    then have "finishes [Ref ?n 0] b (Inr b1)" using assms[of ?n b] by simp
    moreover have e: "forM (pe # pes) (\<lambda>pe. bindM (removeRef k (pe_node pe) 0) (\<lambda>_. ret ())) b =
        forM pes (\<lambda>pe. bindM (removeRef k (pe_node pe) 0) (\<lambda>_. ret ())) b1"
      using r by (simp add: bindM_assoc bindM_ret bindM_Inr)
    moreover have "finishes (ref_follow pes) b1
        (ends (forM pes (\<lambda>pe. bindM (removeRef k (pe_node pe) 0) (\<lambda>_. ret ())) b1))"
      by (rule Cons.IH) (use Cons.prems e in \<open>simp only: not_False_eq_True\<close>)
    ultimately show ?thesis unfolding f e by (intro finishes_appendI(1))
  qed
qed

lemma removeRef_alone:
  "removeRef k n nlookup b \<noteq> Inl Diverges \<Longrightarrow> finishes [Ref n nlookup] b (ends (removeRef k n nlookup b))"
proof (induction k arbitrary: n nlookup b)
  case 0
  then show ?case by (simp add: fail_def)
next
  case (Suc k)
  note s = removeRef_sections[of k n nlookup]
  show ?case
  proof (cases "ref_start n nlookup b")
    case (Inl e)
    then show ?thesis
      unfolding s by (simp add: bindM_Inl ref_section_def finishes_panic)
  next
    case (Inr rb)
    then obtain live b1 where r: "ref_start n nlookup b = Inr (live, b1)" by (cases rb) simp
    show ?thesis
    proof (cases live)
      case True
      with r show ?thesis unfolding s
        by (auto simp: bindM_Inr ref_section_def ret_def intro!: finishes_single finishes_Nil)
    next
      case False
      let ?pes = "parents_all (parents (heap b1 n))" and ?rv = "revision (heap b1 n)"
      have 1: "run_task (Ref n nlookup) b = Inr ([RefLock n ?rv ?pes], b1)"
        using r False by (simp add: ref_section_def ref_read_def monad_simps)
      show ?thesis
      proof (cases "ref_commit n ?pes b1")
        case (Inl e)
        then have "finishes [RefLock n ?rv ?pes] b1 (Inl e)"
          by (intro finishes_panic) (simp add: reflock_section_def monad_simps)
        moreover have "removeRef (Suc k) n nlookup b = Inl e"
          unfolding s using r False Inl by (simp add: monad_simps)
        ultimately show ?thesis using finishes_single[OF 1] by simp
      next
        case (Inr rb2)
        then obtain b2 where c: "ref_commit n ?pes b1 = Inr ((), b2)" by (cases rb2) simp
        let ?loop = "forM ?pes (\<lambda>pe. bindM (removeRef k (pe_node pe) 0) (\<lambda>_. ret ()))"
        have e: "removeRef (Suc k) n nlookup b = bindM ?loop (\<lambda>_. ret True) b2"
          unfolding s using r False c by (simp add: monad_simps)
        then have "?loop b2 \<noteq> Inl Diverges" using Suc.prems by (auto simp: bindM_Inl)
        from forM_alone[OF Suc.IH this] have "finishes (ref_follow ?pes) b2 (ends (?loop b2))" .
        moreover have "run_task (RefLock n ?rv ?pes) b1 = Inr (ref_follow ?pes, b2)"
          using c by (simp add: reflock_section_def monad_simps)
        moreover have "ends (removeRef (Suc k) n nlookup b) = ends (?loop b2)"
          unfolding e by (simp add: bindM_def ret_def split: sum.split prod.split)
        ultimately show ?thesis using finishes_single[OF 1] finishes_single by metis
      qed
    qed
  qed
qed

text \<open>The other three calls, as their sections put together.\<close>

lemma addChild_sections:
  "addChild p name i dir b =
    (if name = ''.'' \<or> name = ''..'' then Inl (Panic_virtual_entry name)
     else add_commit p name i dir (go_get (nodes b) i) b)"
proof -
  have "addChild_loop 2 i nil b = Inr (go_get (nodes b) i, b)"
    by (simp add: numeral_2_eq_2 monad_simps)
  then show ?thesis by (simp add: addChild_def add_commit_def monad_simps)
qed

lemma rmChild_sections:
  "rmChild p name =
    bindM (getsM (\<lambda>b. child (heap b p) name)) (\<lambda>c.
      if c = nil then ret False
      else bindM (rm_commit p name c) (\<lambda>live.
           bindM (if \<not> live then remove_ref p 0 else ret False) (\<lambda>_. ret True)))"
  by (rule ext) (simp add: rmChild_def One_nat_def rm_commit_def bindM_assoc monad_simps)

lemma mvChild_sections:
  "mvChild p name q name' ow =
    bindM (getsM (\<lambda>b. child (heap b p) name)) (\<lambda>c.
    bindM (getsM (\<lambda>b. child (heap b q) name')) (\<lambda>d.
      if d \<noteq> nil \<and> \<not> ow then ret False
      else bindM (mv_commit p name q name' c d) (\<lambda>lives.
           bindM (if \<not> fst lives then remove_ref p 0 else ret False) (\<lambda>_.
           bindM (if \<not> snd lives then remove_ref q 0 else ret False) (\<lambda>_. ret True)))))"
  by (rule ext) (simp add: mvChild_def One_nat_def mv_commit_def bindM_assoc monad_simps)

lemma remove_ref_alone:
  "remove_ref n nlookup b \<noteq> Inl Diverges \<Longrightarrow> finishes [Ref n nlookup] b (ends (remove_ref n nlookup b))"
  using removeRef_alone[of "Suc (links b)" n nlookup b] by (simp add: remove_ref_def monad_simps)

text \<open>What follows a commit: the removal of an inode that is not live any more.\<close>

lemma follow_alone:
  assumes "bindM (if \<not> l then remove_ref p 0 else ret False) k b \<noteq> Inl Diverges"
    and "\<And>x b'. k x b' \<noteq> Inl Diverges \<Longrightarrow> finishes ts b' (ends (k x b'))"
  shows "finishes ((if \<not> l then [Ref p 0] else []) @ ts) b
    (ends (bindM (if \<not> l then remove_ref p 0 else ret False) k b))"
proof (cases l)
  case True
  with assms show ?thesis by (simp add: bindM_ret)
next
  case False
  show ?thesis
  proof (cases "remove_ref p 0 b")
    case (Inl e)
    then have "finishes [Ref p 0] b (Inl e)" using assms(1) False remove_ref_alone[of p 0 b] by (auto simp: bindM_Inl)
    then have "finishes ([Ref p 0] @ ts) b (Inl e)" by (rule finishes_appendI(2))
    with Inl False show ?thesis by (simp add: bindM_Inl)
  next
    case (Inr rb)
    then obtain x b1 where r: "remove_ref p 0 b = Inr (x, b1)" by (cases rb) simp
    then have 1: "finishes [Ref p 0] b (Inr b1)" using remove_ref_alone[of p 0 b] by simp
    have "k x b1 \<noteq> Inl Diverges" using assms(1) False r by (simp add: bindM_Inr)
    from finishes_appendI(1)[OF 1 assms(2)[OF this]] show ?thesis using False r by (simp add: bindM_Inr)
  qed
qed

text \<open>The calls and what the sequential model makes of them.\<close>

primrec starts :: "task \<Rightarrow> bool" where
  "starts (Add p name i dir c) \<longleftrightarrow> c = nil"
| "starts (Ref n nlookup) \<longleftrightarrow> True"
| "starts (RefRead n) \<longleftrightarrow> False"
| "starts (RefLock n rv pes) \<longleftrightarrow> False"
| "starts (Rm p name) \<longleftrightarrow> True"
| "starts (RmLock p name rv c) \<longleftrightarrow> False"
| "starts (Mv p name q name' ow) \<longleftrightarrow> True"
| "starts (MvLock p name q name' ow rv nRev c d) \<longleftrightarrow> False"

definition voidM :: "('s, 'a) M \<Rightarrow> ('s, unit) M" where
  "voidM m = bindM m (\<lambda>_. ret ())"

fun undisturbed :: "task \<Rightarrow> (rawBridge, unit) M" where
  "undisturbed (Add p name i dir c) = voidM (addChild p name i dir)"
| "undisturbed (Ref n nlookup) = voidM (remove_ref n nlookup)"
| "undisturbed (Rm p name) = voidM (rmChild p name)"
| "undisturbed (Mv p name q name' ow) = voidM (mvChild p name q name' ow)"
| "undisturbed _ = ret ()"

lemma ends_voidM [simp]: "ends (voidM m b) = ends (m b)"
  by (simp add: voidM_def bindM_def ret_def split: sum.split prod.split)

lemma voidM_Inl [simp]: "voidM m b = Inl e \<longleftrightarrow> m b = Inl e"
  by (auto simp: voidM_def bindM_def ret_def split: sum.splits prod.splits)

lemma addChild_alone: "finishes [Add p name i dir nil] b (ends (addChild p name i dir b))"
proof -
  let ?old = "go_get (nodes b) i"
  have c: "finishes [Add p name i dir ?old] b (ends (add_commit p name i dir ?old b))"
    if "\<not> (name = ''.'' \<or> name = ''..'')"
  proof (cases "add_commit p name i dir ?old b")
    case (Inl e)
    then show ?thesis using that by (auto simp: add_section_def monad_simps intro!: finishes_panic)
  next
    case (Inr rb)
    then obtain x b1 where "add_commit p name i dir ?old b = Inr (x, b1)" by (cases rb) simp
    then show ?thesis using that
      by (auto simp: add_section_def monad_simps intro!: finishes_single finishes_Nil)
  qed
  consider (virtual) "name = ''.'' \<or> name = ''..''" | (new) "\<not> (name = ''.'' \<or> name = ''..'')" "?old = nil"
    | (old) "\<not> (name = ''.'' \<or> name = ''..'')" "?old \<noteq> nil" by blast
  then show ?thesis
  proof cases
    case virtual
    then have "run_task (Add p name i dir nil) b = Inl (Panic_virtual_entry name)"
      by (simp add: add_section_def monad_simps)
    from finishes_panic[OF this] virtual show ?thesis by (simp add: addChild_sections)
  next
    case new
    then show ?thesis using c by (simp add: addChild_sections)
  next
    case old
    then have "run_task (Add p name i dir nil) b = Inr ([Add p name i dir ?old], b)"
      by (simp add: add_section_def monad_simps)
    from finishes_single[OF this c] old show ?thesis by (simp add: addChild_sections)
  qed
qed

lemma finishes_ret: "k = ret x \<Longrightarrow> finishes [] b (ends (k b))"
  by (simp add: ret_def finishes_Nil)

lemma rmChild_alone:
  assumes "rmChild p name b \<noteq> Inl Diverges"
  shows "finishes [Rm p name] b (ends (rmChild p name b))"
proof (cases "child (heap b p) name = nil")
  case True
  then have "run_task (Rm p name) b = Inr ([], b)" by (simp add: rm_section_def monad_simps)
  then show ?thesis using True by (simp add: rmChild_sections monad_simps finishes_single finishes_Nil)
next
  case False
  let ?c = "child (heap b p) name" and ?rv = "revision (heap b p)"
  have 1: "run_task (Rm p name) b = Inr ([RmLock p name ?rv ?c], b)"
    using False by (simp add: rm_section_def monad_simps)
  show ?thesis
  proof (cases "rm_commit p name ?c b")
    case (Inl e)
    then have "finishes [RmLock p name ?rv ?c] b (Inl e)"
      by (intro finishes_panic) (simp add: rmlock_section_def monad_simps)
    with finishes_single[OF 1] Inl False show ?thesis by (simp add: rmChild_sections monad_simps)
  next
    case (Inr rb)
    then obtain l b1 where r: "rm_commit p name ?c b = Inr (l, b1)" by (cases rb) simp
    have e: "rmChild p name b = bindM (if \<not> l then remove_ref p 0 else ret False) (\<lambda>_. ret True) b1"
      using False r by (simp add: rmChild_sections monad_simps)
    have "finishes ((if \<not> l then [Ref p 0] else []) @ []) b1 (ends (rmChild p name b))"
      unfolding e by (rule follow_alone) (use assms e in \<open>simp_all add: finishes_ret[OF refl]\<close>)
    moreover have "run_task (RmLock p name ?rv ?c) b = Inr ((if \<not> l then [Ref p 0] else []) @ [], b1)"
      using r by (simp add: rmlock_section_def monad_simps)
    ultimately show ?thesis using finishes_single[OF 1] finishes_single by metis
  qed
qed

lemma mvChild_alone:
  assumes "mvChild p name q name' ow b \<noteq> Inl Diverges"
  shows "finishes [Mv p name q name' ow] b (ends (mvChild p name q name' ow b))"
proof (cases "child (heap b q) name' \<noteq> nil \<and> \<not> ow")
  case True
  then have "run_task (Mv p name q name' ow) b = Inr ([], b)" by (simp add: mv_section_def monad_simps)
  then show ?thesis using True by (simp add: mvChild_sections monad_simps finishes_single finishes_Nil)
next
  case False
  let ?c = "child (heap b p) name" and ?d = "child (heap b q) name'"
    and ?rv = "revision (heap b p)" and ?nRev = "revision (heap b q)"
  let ?lock = "MvLock p name q name' ow ?rv ?nRev ?c ?d"
  have 1: "run_task (Mv p name q name' ow) b = Inr ([?lock], b)"
    using False by (auto simp: mv_section_def monad_simps)
  show ?thesis
  proof (cases "mv_commit p name q name' ?c ?d b")
    case (Inl e)
    then have "finishes [?lock] b (Inl e)"
      by (intro finishes_panic) (simp add: mvlock_section_def monad_simps)
    moreover have "mvChild p name q name' ow b = Inl e"
      using Inl False by (auto simp: mvChild_sections monad_simps)
    ultimately show ?thesis using finishes_single[OF 1] by simp
  next
    case (Inr rb)
    then obtain l l' b1 where r: "mv_commit p name q name' ?c ?d b = Inr ((l, l'), b1)" by (metis surj_pair)
    have e: "mvChild p name q name' ow b = bindM (if \<not> l then remove_ref p 0 else ret False) (\<lambda>_.
        bindM (if \<not> l' then remove_ref q 0 else ret False) (\<lambda>_. ret True)) b1"
      using False r by (auto simp: mvChild_sections monad_simps)
    have "finishes ((if \<not> l then [Ref p 0] else []) @ ((if \<not> l' then [Ref q 0] else []) @ [])) b1
        (ends (mvChild p name q name' ow b))"
      unfolding e
      by (intro follow_alone) (use assms e in \<open>simp_all add: finishes_ret[OF refl]\<close>)
    moreover have "run_task ?lock b =
        Inr ((if \<not> l then [Ref p 0] else []) @ ((if \<not> l' then [Ref q 0] else []) @ []), b1)"
      using r by (simp add: mvlock_section_def mv_follow_def monad_simps)
    ultimately show ?thesis using finishes_single[OF 1] finishes_single by metis
  qed
qed

lemma call_alone:
  assumes "starts t" "undisturbed t b \<noteq> Inl Diverges"
  shows "finishes [t] b (ends (undisturbed t b))"
  using assms by (cases t) (auto simp: addChild_alone remove_ref_alone rmChild_alone mvChild_alone)

end
