(* ===== verification/Shared.thy ===== *)
theory Shared
  imports Interleaving
begin

text \<open>
  What every section keeps, whatever sections of other calls run before and after it: the
  table leads to objects with its numbers, children and parents lead to objects, and every
  child knows the directory it is in. A parent entry may be out of date, as an inode that has
  left the table may still be in its directories, or have lost its place there to another.
\<close>

section \<open>The invariant\<close>

definition knows_parents :: "rawBridge \<Rightarrow> bool" where
  "knows_parents b \<longleftrightarrow>
     (\<forall>p m. valid b p \<longrightarrow> edge b p m \<noteq> nil \<longrightarrow> valid b (edge b p m)) \<and>
     (\<forall>c e. valid b c \<longrightarrow> e \<in> pset b c \<longrightarrow> valid b (pe_node e)) \<and>
     (\<forall>p m. valid b p \<longrightarrow> edge b p m \<noteq> nil \<longrightarrow> pent m p \<in> pset b (edge b p m))"

definition shared_ok :: "rawBridge \<Rightarrow> bool" where
  "shared_ok b \<longleftrightarrow> tab_ok b \<and> heap_ok b \<and> knows_parents b"

lemma knows_parentsD:
  assumes "knows_parents b" "valid b p"
  shows "edge b p m \<noteq> nil \<Longrightarrow> valid b (edge b p m)" "e \<in> pset b p \<Longrightarrow> valid b (pe_node e)"
    "edge b p m \<noteq> nil \<Longrightarrow> pent m p \<in> pset b (edge b p m)"
  using assms by (auto simp: knows_parents_def)

lemma tree_shared:
  assumes "tree_ok b"
  shows "shared_ok b"
proof -
  have e: "edges_ok b" using assms by (simp add: tree_ok_def wf_upto_def)
  have "knows_parents b"
    unfolding knows_parents_def using edges_okD[OF e] by blast
  then show ?thesis using assms by (simp add: shared_ok_def tree_ok_def wf_upto_def)
qed

lemma shared_okD:
  assumes "shared_ok b"
  shows "tab_ok b" "heap_ok b" "knows_parents b" "0 < clock b" "hnext b \<noteq> nil"
  using assms by (auto simp: shared_ok_def tab_ok_def valid_def)

text \<open>
  An inode that is being removed has no reference and is not in the table; nothing puts it
  back, and nothing gives it a reference.
\<close>

definition gone :: "rawBridge \<Rightarrow> addr \<Rightarrow> bool" where
  "gone b n \<longleftrightarrow> valid b n \<and> lookups b n = 0 \<and> \<not> registered b n"

section \<open>Single changes\<close>

lemma shared_cong:
  assumes "shared_ok b" "tab_ok b'" "heap_ok b'" "\<And>a. valid b' a = valid b a"
    and "\<And>p m. edge b' p m \<noteq> nil \<Longrightarrow> edge b' p m = edge b p m" "\<And>c. pset b' c = pset b c"
  shows "shared_ok b'"
proof -
  have k: "knows_parents b" using assms(1) by (simp add: shared_ok_def)
  have "knows_parents b'"
    unfolding knows_parents_def assms(4,6)
  proof (intro conjI allI impI)
    fix p m assume p: "valid b p" "edge b' p m \<noteq> nil"
    then have e: "edge b' p m = edge b p m" "edge b p m \<noteq> nil" using assms(5) by metis+
    show "valid b (edge b' p m)" "pent m p \<in> pset b (edge b' p m)"
      unfolding e(1) using knows_parentsD(1,3)[OF k p(1) e(2)] .
  qed (rule knows_parentsD(2)[OF k])
  with assms(2,3) show ?thesis by (simp add: shared_ok_def)
qed

lemma shared_cut:
  assumes "shared_ok b" "valid b c"
  shows "shared_ok (cut_st p name c b)"
  unfolding shared_ok_def
proof (intro conjI)
  note s = shared_okD[OF assms(1)]
  show "tab_ok (cut_st p name c b)" using s(1) cut_env[of b p name c] by (auto simp: tab_ok_def same_env_def)
  show "heap_ok (cut_st p name c b)" by (rule cut_heap_ok[OF s(2)])
  show "knows_parents (cut_st p name c b)"
    using s(3) by (auto simp: knows_parents_def cut_edge cut_pset[OF s(2) assms(2)])
qed

lemma shared_link:
  assumes "shared_ok b" "valid b p" "valid b c"
  shows "shared_ok (link_st p name c b)"
  unfolding shared_ok_def
proof (intro conjI)
  note s = shared_okD[OF assms(1)]
  have n: "p \<noteq> nil" "c \<noteq> nil" using assms by (simp_all add: valid_def)
  show "tab_ok (link_st p name c b)" using s(1) by (auto simp: tab_ok_def)
  show "heap_ok (link_st p name c b)" by (rule link_heap_ok[OF s(2) n s(4)])
  show "knows_parents (link_st p name c b)"
    using s(3) assms(2,3) by (auto simp: knows_parents_def link_edge link_pset[OF s(2) assms(3) n(1)])
qed

lemma shared_ref:
  assumes "shared_ok b" "valid b c" "inum b c = i"
  shows "shared_ok (ref_st i c b)"
proof (rule shared_cong[OF assms(1)])
  note s = shared_okD[OF assms(1)]
  have n: "inum (ref_st i c b) a = inum b a" for a by (simp add: inum_def ref_heap)
  show "tab_ok (ref_st i c b)"
    using s(1) assms(2,3) by (auto simp: tab_ok_def n valid_def)
  show "heap_ok (ref_st i c b)" using s(2) by (auto simp: heap_ok_def ref_heap)
qed (simp_all add: edge_def pset_def ref_heap child_simps)

lemma shared_alloc:
  assumes "shared_ok b"
  shows "shared_ok (alloc_st (fresh_inode i dir) b)"
  unfolding shared_ok_def
proof (intro conjI)
  note s = shared_okD[OF assms]
  let ?b = "alloc_st (fresh_inode i dir) b"
  have new: "\<not> valid b (hnext b)" by (simp add: valid_def)
  have tn: "go_get (nodes b) j \<noteq> hnext b" for j using s(1,5) new unfolding tab_ok_def by metis
  with s(1) new show "tab_ok ?b" by (auto simp: tab_ok_def alloc_valid alloc_views)
  show "heap_ok ?b" using s(2) by (auto simp: heap_ok_def alloc_valid)
  have e: "edge b p m \<noteq> hnext b" if "valid b p" for p m
    using knows_parentsD(1)[OF s(3) that, of m] new s(5) by metis
  show "knows_parents ?b"
    using s(3) e by (auto simp: knows_parents_def alloc_valid alloc_views)
qed

lemma shared_known:
  assumes "shared_ok b"
  shows "shared_ok (snd (known i dir b))" "valid (snd (known i dir b)) (fst (known i dir b))"
    "inum (snd (known i dir b)) (fst (known i dir b)) = i" "valid b a \<Longrightarrow> valid (snd (known i dir b)) a"
  using assms shared_okD(1,5)[OF assms]
  by (auto simp: known_def shared_alloc alloc_valid alloc_views tab_ok_def)

lemma shared_upd:
  assumes "shared_ok b" "\<And>n. parents (f n) = parents n \<and> children (f n) = children n \<and> ino (f n) = ino n"
  shows "shared_ok (upd a f b)"
proof (rule shared_cong[OF assms(1)])
  note s = shared_okD[OF assms(1)]
  have c: "childmap (f n) = childmap n" for n by (simp add: childmap_def assms(2))
  then have "child (f n) m = child n m" for n m by (simp add: child_def)
  then show "edge (upd a f b) p m = edge b p m" for p m by (simp add: view_simps)
  show "pset (upd a f b) c = pset b c" for c by (simp add: view_simps assms(2))
  show "tab_ok (upd a f b)" using s(1) assms(2) by (auto simp: tab_ok_def view_simps)
  show "heap_ok (upd a f b)" using s(2) assms(2) c by (auto simp: heap_ok_def view_simps)
qed (simp add: view_simps)

lemma shared_delete:
  assumes "shared_ok b"
  shows "shared_ok (b\<lparr>nodes := AList.delete i (nodes b)\<rparr>)"
proof (rule shared_cong[OF assms])
  note s = shared_okD[OF assms]
  have "length (AList.delete i (nodes b)) \<le> length (nodes b)" by (simp add: AList.length_delete_le)
  with s(1) show "tab_ok (b\<lparr>nodes := AList.delete i (nodes b)\<rparr>)"
    by (auto simp: tab_ok_def view_simps)
  show "heap_ok (b\<lparr>nodes := AList.delete i (nodes b)\<rparr>)" using s(2) by (simp add: heap_ok_def view_simps)
qed (simp_all add: view_simps)

text \<open>The end of a removal: the inode out of its directories, and its parents cleared.\<close>

definition clear_st :: "addr \<Rightarrow> parentEntry list \<Rightarrow> rawBridge \<Rightarrow> rawBridge" where
  "clear_st n pes b =
    upd n bump (upd n (\<lambda>v. v\<lparr>parents := parents_clear (parents v)\<rparr>) (fold (unlink_st n) pes b))"

lemma clear_env: "same_env b (clear_st n pes b)" "nodes (clear_st n pes b) = nodes b"
  using unlinks_env[of b n pes] by (simp_all add: clear_st_def same_env_def view_simps)

lemma clear_edge: "edge (clear_st n pes b) p m = (if pent m p \<in> set pes \<and> edge b p m = n then nil else edge b p m)"
  by (simp add: clear_st_def view_simps unlinks_edge)

lemma clear_pset: "pset (clear_st n pes b) a = (if a = n then {} else pset b a)"
  by (simp add: clear_st_def view_simps) (simp add: pset_def unlinks_parents)

lemma shared_clear:
  assumes "shared_ok b" "pset b n \<subseteq> set pes"
  shows "shared_ok (clear_st n pes b)"
  unfolding shared_ok_def
proof (intro conjI)
  let ?b = "clear_st n pes b"
  note s = shared_okD[OF assms(1)] and c = clear_env[where b = b and n = n and pes = pes]
  have v: "valid ?b a = valid b a" for a using c(1) by (rule same_env_valid)
  show "tab_ok ?b" using s(1) c by (auto simp: tab_ok_def same_env_def v)
  show "heap_ok ?b"
  proof (rule heap_okI[OF s(2)])
    show "clock b \<le> clock ?b" using c(1) by (simp add: same_env_def)
    show "go_map_ok (childmap (heap ?b a))" if "go_map_ok (childmap (heap b a))" for a
      using unlinks_childmap[OF that, of n pes] by (auto simp: clear_st_def)
    show "parents_timed (clock ?b) (parents (heap ?b a))" if "parents_timed (clock b) (parents (heap b a))" for a
      using that c(1) by (simp add: clear_st_def unlinks_parents same_env_def)
  qed (rule v)
  show "knows_parents ?b"
    unfolding knows_parents_def v
  proof (intro conjI allI impI)
    fix p m assume p: "valid b p" "edge ?b p m \<noteq> nil"
    then have e: "edge ?b p m = edge b p m" "edge b p m \<noteq> nil" "\<not> (pent m p \<in> set pes \<and> edge b p m = n)"
      by (auto simp: clear_edge split: if_splits)
    note k = knows_parentsD(1,3)[OF s(3) p(1) e(2)]
    show "valid b (edge ?b p m)" using k(1) e(1) by simp
    have "edge b p m \<noteq> n" using e(3) k(2) assms(2) by auto
    then show "pent m p \<in> pset ?b (edge ?b p m)" using k(2) e(1) by (simp add: clear_pset)
  next
    show "valid b (pe_node e)" if "valid b a" "e \<in> pset ?b a" for a e
      using that knows_parentsD(2)[OF s(3)] by (auto simp: clear_pset split: if_splits)
  qed
qed

section \<open>An inode that is being removed\<close>

lemma gone_cong:
  "gone b n \<Longrightarrow> (\<And>a. valid b a \<Longrightarrow> valid b' a) \<Longrightarrow> lookups b' n = lookups b n \<Longrightarrow> inum b' n = inum b n \<Longrightarrow>
    go_get (nodes b') (inum b n) = go_get (nodes b) (inum b n) \<Longrightarrow> gone b' n"
  by (simp add: gone_def registered_def)

lemma gone_env: "same_env b b' \<Longrightarrow> nodes b' = nodes b \<Longrightarrow> gone b n \<Longrightarrow> gone b' n"
  by (rule gone_cong) (auto simp: same_env_def valid_def)

lemma gone_link: "gone b n \<Longrightarrow> gone (link_st p name c b) n"
  by (rule gone_cong) auto

lemma gone_alloc: "gone b n \<Longrightarrow> gone (alloc_st v b) n"
  by (rule gone_cong) (auto simp: alloc_valid alloc_views gone_def valid_def)

lemma gone_ref: "gone b n \<Longrightarrow> n \<noteq> c \<Longrightarrow> gone (ref_st i c b) n"
  by (simp add: gone_def registered_def lookups_def inum_def ref_heap)

lemma gone_delete: "gone b n \<Longrightarrow> gone (b\<lparr>nodes := AList.delete i (nodes b)\<rparr>) n"
  by (auto simp: gone_def registered_def view_simps valid_def)

lemma gone_known:
  assumes "shared_ok b" "gone b n"
  shows "gone (snd (known i dir b)) n" "n \<noteq> fst (known i dir b)"
  using assms shared_okD(1)[OF assms(1)]
  by (auto simp: known_def gone_alloc) (auto simp: gone_def registered_def tab_ok_def valid_def)

section \<open>Sections in one step\<close>

text \<open>
  The same calls with a read and the change that relies on it in one step. What a call has
  read before is left out of what it still has to do (\<open>settle\<close>).
\<close>

primrec settle :: "task \<Rightarrow> task" where
  "settle (Add p name i dir c) = Add p name i dir nil"
| "settle (Ref n nlookup) = Ref n nlookup"
| "settle (RefRead n) = RefRead n"
| "settle (RefLock n rv pes) = RefRead n"
| "settle (Rm p name) = Rm p name"
| "settle (RmLock p name rv c) = Rm p name"
| "settle (Mv p name q name' ow) = Mv p name q name' ow"
| "settle (MvLock p name q name' ow rv nRev c d) = Mv p name q name' ow"

fun run_atomic :: "task \<Rightarrow> (rawBridge, task list) M" where
  "run_atomic (Add p name i dir c) = bindM (addChild p name i dir) (\<lambda>_. ret [])"
| "run_atomic (Ref n nlookup) = bindM (ref_start n nlookup) (\<lambda>live. ret (if live then [] else [RefRead n]))"
| "run_atomic (RefRead n) =
    bindM (getsM (\<lambda>b. parents_all (parents (heap b n)))) (\<lambda>pes.
    bindM (ref_commit n pes) (\<lambda>_. ret (ref_follow pes)))"
| "run_atomic (Rm p name) =
    bindM (getsM (\<lambda>b. child (heap b p) name)) (\<lambda>c.
      if c = nil then ret []
      else bindM (rm_commit p name c) (\<lambda>live. ret (if live then [] else [Ref p 0])))"
| "run_atomic (Mv p name q name' ow) =
    bindM (getsM (\<lambda>b. child (heap b p) name)) (\<lambda>c.
    bindM (getsM (\<lambda>b. child (heap b q) name')) (\<lambda>d.
      if d \<noteq> nil \<and> \<not> ow then ret []
      else bindM (mv_commit p name q name' c d) (\<lambda>lives. ret (mv_follow p q lives))))"
| "run_atomic _ = ret []"

text \<open>The inodes a task is about are objects of the heap.\<close>

primrec valid_task :: "rawBridge \<Rightarrow> task \<Rightarrow> bool" where
  "valid_task b (Add p name i dir c) \<longleftrightarrow> valid b p"
| "valid_task b (Ref n nlookup) \<longleftrightarrow> valid b n"
| "valid_task b (RefRead n) \<longleftrightarrow> valid b n"
| "valid_task b (RefLock n rv pes) \<longleftrightarrow> valid b n"
| "valid_task b (Rm p name) \<longleftrightarrow> valid b p"
| "valid_task b (RmLock p name rv c) \<longleftrightarrow> valid b p"
| "valid_task b (Mv p name q name' ow) \<longleftrightarrow> valid b p \<and> valid b q"
| "valid_task b (MvLock p name q name' ow rv nRev c d) \<longleftrightarrow> valid b p \<and> valid b q"

text \<open>A task that takes an inode out of its directories is about one that is gone.\<close>

primrec removes_gone :: "rawBridge \<Rightarrow> task \<Rightarrow> bool" where
  "removes_gone b (Add p name i dir c) \<longleftrightarrow> True"
| "removes_gone b (Ref n nlookup) \<longleftrightarrow> True"
| "removes_gone b (RefRead n) \<longleftrightarrow> gone b n"
| "removes_gone b (RefLock n rv pes) \<longleftrightarrow> gone b n"
| "removes_gone b (Rm p name) \<longleftrightarrow> True"
| "removes_gone b (RmLock p name rv c) \<longleftrightarrow> True"
| "removes_gone b (Mv p name q name' ow) \<longleftrightarrow> True"
| "removes_gone b (MvLock p name q name' ow rv nRev c d) \<longleftrightarrow> True"

definition task_ok :: "rawBridge \<Rightarrow> task \<Rightarrow> bool" where
  "task_ok b t \<longleftrightarrow> valid_task b t \<and> removes_gone b t"

lemma settle_valid [simp]: "valid_task b (settle t) = valid_task b t"
  by (cases t) simp_all

lemma settle_gone [simp]: "removes_gone b (settle t) = removes_gone b t"
  by (cases t) simp_all

lemma settle_settle [simp]: "settle (settle t) = settle t"
  by (cases t) simp_all

lemma starts_settle: "starts t \<Longrightarrow> settle t = t"
  by (cases t) simp_all

text \<open>What a step may do to the rest of the world.\<close>

definition world_ok :: "rawBridge \<Rightarrow> rawBridge \<Rightarrow> bool" where
  "world_ok b b' \<longleftrightarrow>
     shared_ok b' \<and> (\<forall>a. valid b a \<longrightarrow> valid b' a) \<and> (\<forall>n. gone b n \<longrightarrow> gone b' n)"

lemma world_task: "world_ok b b' \<Longrightarrow> task_ok b t \<Longrightarrow> task_ok b' t"
  by (cases t) (simp_all add: world_ok_def task_ok_def)

lemma world_refl: "shared_ok b \<Longrightarrow> world_ok b b"
  by (simp add: world_ok_def)

lemma world_trans: "world_ok b b' \<Longrightarrow> world_ok b' b'' \<Longrightarrow> world_ok b b''"
  by (simp add: world_ok_def)

lemma world_cut: "shared_ok b \<Longrightarrow> valid b c \<Longrightarrow> world_ok b (cut_st p name c b)"
  by (simp add: world_ok_def shared_cut gone_env[OF cut_env])

lemma world_cut_opt: "shared_ok b \<Longrightarrow> (c \<noteq> nil \<Longrightarrow> valid b c) \<Longrightarrow> world_ok b (cut_opt p name c b)"
  by (simp add: cut_opt_def world_cut world_refl)

lemma world_link: "shared_ok b \<Longrightarrow> valid b p \<Longrightarrow> valid b c \<Longrightarrow> world_ok b (link_st p name c b)"
  by (simp add: world_ok_def shared_link gone_link)

lemma world_link_opt: "shared_ok b \<Longrightarrow> valid b p \<Longrightarrow> (c \<noteq> nil \<Longrightarrow> valid b c) \<Longrightarrow> world_ok b (link_opt p name c b)"
  by (simp add: link_opt_def world_link world_refl)

lemma world_clear: "shared_ok b \<Longrightarrow> pset b n \<subseteq> set pes \<Longrightarrow> world_ok b (clear_st n pes b)"
  using clear_env[where b = b and n = n and pes = pes]
  by (auto simp: world_ok_def shared_clear same_env_valid intro: gone_env)

lemma world_known_ref:
  assumes "shared_ok b" "known i dir b = (c, b1)"
  shows "world_ok b (ref_st i c b1)" "valid (ref_st i c b1) c"
  using shared_known[OF assms(1), where i = i and dir = dir] gone_known[OF assms(1), where i = i and dir = dir] assms(2)
  by (auto simp: world_ok_def shared_ref gone_ref)

section \<open>The steps\<close>

text \<open>The panics a call asks for by its own arguments.\<close>

fun asked_for :: "rawBridge \<Rightarrow> task \<Rightarrow> abort \<Rightarrow> bool" where
  "asked_for b (Add p name i dir c) e \<longleftrightarrow>
     e = Panic_virtual_entry name \<and> (name = ''.'' \<or> name = ''..'') \<or>
     e = Panic_reserved_ino \<and> i = NOT 0 \<or> e = Panic_nil_map \<and> \<not> isDir (heap b p)"
| "asked_for b (Ref n nlookup) e \<longleftrightarrow>
     e = Panic_lookup_underflow (inum b n) (lookups b n) nlookup \<and> lookups b n < nlookup"
| "asked_for b (Mv p name q name' ow) e \<longleftrightarrow> e = Panic_nil_map \<and> \<not> isDir (heap b q)"
| "asked_for b _ e \<longleftrightarrow> False"

definition step_ok :: "rawBridge \<Rightarrow> task \<Rightarrow> abort + task list \<times> rawBridge \<Rightarrow> bool" where
  "step_ok b t r \<longleftrightarrow>
     (case r of
        Inl e \<Rightarrow> asked_for b t e
      | Inr (new, b') \<Rightarrow> world_ok b b' \<and> (\<forall>t' \<in> set new. task_ok b' t' \<and> settle t' = t'))"

lemma step_ok_simps [simp]:
  "step_ok b t (Inl e) \<longleftrightarrow> asked_for b t e"
  "step_ok b t (Inr (new, b')) \<longleftrightarrow> world_ok b b' \<and> (\<forall>t' \<in> set new. task_ok b' t' \<and> settle t' = t')"
  by (simp_all add: step_ok_def)

lemma Add_step:
  assumes "shared_ok b" "valid b p"
  shows "step_ok b (Add p name i dir c) (run_atomic (Add p name i dir c) b)"
proof -
  obtain c' b1 where k: "known i dir b = (c', b1)" by (metis surj_pair)
  let ?b = "ref_st i c' b1"
  consider "name = ''.'' \<or> name = ''..''" | "\<not> (name = ''.'' \<or> name = ''..'')" "i = NOT 0" "go_get (nodes b) i = nil"
    | (plain) "\<not> (name = ''.'' \<or> name = ''..'')" "i \<noteq> NOT 0 \<or> go_get (nodes b) i \<noteq> nil" by blast
  then show ?thesis
  proof cases
    case 1
    then show ?thesis by (auto simp: addChild_def monad_simps)
  next
    case 2
    then show ?thesis
      by (simp add: addChild_sections add_commit_def newInode_def monad_simps bindM_def)
  next
    case plain
    have d: "isDir (heap ?b p) = isDir (heap b p)"
      using known_cases[OF k] assms(2) by (auto simp: ref_heap valid_def isDir_simps alloc_st_def)
    note w = world_known_ref[OF assms(1) k]
    have v: "valid ?b p" "shared_ok ?b" using w(1) assms(2) by (simp_all add: world_ok_def)
    show ?thesis
    proof (cases "isDir (heap b p)")
      case True
      have "addChild p name i dir b = Inr (c', link_st p name c' ?b)"
        using addChild_eq[of name i b dir p] plain k d True by simp
      then show ?thesis
        using world_trans[OF w(1) world_link[OF v(2,1) w(2)]] by (simp add: monad_simps)
    next
      case False
      then have "addChild p name i dir b = Inl Panic_nil_map"
        using addChild_file[of name i b dir p] plain k d by simp
      then show ?thesis using False by (simp add: bindM_Inl)
    qed
  qed
qed

lemma Ref_step:
  assumes "shared_ok b" "valid b n"
  shows "step_ok b (Ref n nlookup) (run_atomic (Ref n nlookup) b)"
proof (cases "lookups b n < nlookup")
  case True
  then show ?thesis
    by (simp add: ref_start_def monad_simps bindM_def lookups_def inum_def)
next
  case False
  define b1 where "b1 = (if 0 < nlookup
    then upd n bump (upd n (\<lambda>v. v\<lparr>lookupCount := lookupCount v - nlookup\<rparr>) b) else b)"
  let ?b2 = "b1\<lparr>nodes := AList.delete (ino (heap b1 n)) (nodes b1)\<rparr>"
  have l: "bindM (if 0 < nlookup then bindM (modifyM (upd n (\<lambda>v. v\<lparr>lookupCount := lookupCount v - nlookup\<rparr>)))
      (\<lambda>_. bumpM n) else ret ()) f b = f () b1" for f :: "unit \<Rightarrow> (rawBridge, 'a) M"
    by (simp add: b1_def monad_simps bumpM_def bindM_assoc)
  have r: "run_atomic (Ref n nlookup) b = (if live b1 n then Inr ([], b1) else Inr ([RefRead n], ?b2))"
    using False by (simp add: ref_start_def bindM_gets lookups_def l bindM_assoc live_def monad_simps)
  have s1: "shared_ok b1"
    unfolding b1_def using assms(1) by (auto intro!: shared_upd)
  have "gone b1 m" if "gone b m" for m
  proof (cases "m = n")
    case True
    then have "nlookup = 0" using that False by (simp add: gone_def word_gt_0)
    then show ?thesis using that by (simp add: b1_def)
  next
    case m: False
    show ?thesis using that by (rule gone_cong) (use m in \<open>simp_all add: b1_def view_simps\<close>)
  qed
  moreover have v: "valid b1 a = valid b a" for a by (simp add: b1_def view_simps)
  ultimately have w1: "world_ok b b1" using s1 by (simp add: world_ok_def)
  have w2: "world_ok b1 ?b2"
    using s1 shared_delete[OF s1] gone_delete by (simp add: world_ok_def view_simps)
  have "gone ?b2 n" if "\<not> live b1 n"
  proof -
    have "lookups b1 n = 0" using that by (simp add: live_def isLive_def lookups_def word_gt_0)
    then show ?thesis using assms(2) v by (auto simp: gone_def registered_def view_simps valid_def)
  qed
  then show ?thesis
    using r w1 world_trans[OF w1 w2] assms(2) v by (auto simp: task_ok_def view_simps)
qed

lemma ref_commit_eq:
  "ref_commit n pes b =
    (if lookups b n \<noteq> 0 then Inl (Panic_lookup_changed (inum b n) (lookups b n)) else Inr ((), clear_st n pes b))"
proof -
  have "lookups (clear_st n pes b) n = lookups b n" "inum (clear_st n pes b) n = inum b n"
    using clear_env(1)[of b n pes] by (simp_all add: same_env_def)
  moreover have "ref_commit n pes b = (let b' = clear_st n pes b
      in if lookups b' n \<noteq> 0 then Inl (Panic_lookup_changed (inum b' n) (lookups b' n)) else Inr ((), b'))"
    by (simp add: ref_commit_def clear_st_def Let_def bindM_Inr forM_modify[where g = "unlink_st n"] bumpM_def
        monad_simps lookups_def inum_def)
  ultimately show ?thesis by (simp add: Let_def)
qed

lemma RefRead_step:
  assumes "shared_ok b" "gone b n"
  shows "step_ok b (RefRead n) (run_atomic (RefRead n) b)"
proof -
  let ?pes = "parents_all (parents (heap b n))"
  have pes: "set ?pes = pset b n" by (simp add: pset_def parents_set_def)
  have w: "world_ok b (clear_st n ?pes b)" using world_clear[OF assms(1)] pes by simp
  have "run_atomic (RefRead n) b = Inr (ref_follow ?pes, clear_st n ?pes b)"
    using assms(2) by (simp add: gone_def ref_commit_eq monad_simps)
  moreover have "valid (clear_st n ?pes b) (pe_node e)" if "e \<in> set ?pes" for e
  proof -
    have "valid b n" using assms(2) by (simp add: gone_def)
    with that pes have "valid b (pe_node e)" using knows_parentsD(2)[OF shared_okD(3)[OF assms(1)]] by simp
    with w show ?thesis by (simp add: world_ok_def)
  qed
  ultimately show ?thesis using w by (auto simp: ref_follow_def task_ok_def)
qed

lemma rm_commit_eq: "rm_commit p name c b = (let b' = cut_st p name c b in Inr (live b' p, b'))"
  by (simp add: rm_commit_def cutM getsM_def live_def Let_def)

lemma Rm_step:
  assumes "shared_ok b" "valid b p"
  shows "step_ok b (Rm p name) (run_atomic (Rm p name) b)"
proof (cases "edge b p name = nil")
  case True
  then show ?thesis using assms by (simp add: monad_simps edge_child world_refl)
next
  case False
  let ?c = "edge b p name"
  let ?b = "cut_st p name ?c b"
  have "valid b ?c" using knows_parentsD(1)[OF shared_okD(3)[OF assms(1)] assms(2) False] .
  from world_cut[OF assms(1) this] have w: "world_ok b ?b" .
  have "run_atomic (Rm p name) b = Inr (if live ?b p then [] else [Ref p 0], ?b)"
    using False by (simp add: monad_simps edge_child rm_commit_eq Let_def bindM_def)
  then show ?thesis using w assms(2) by (simp add: task_ok_def)
qed

lemma mv_commit_eq:
  "mv_commit p name q name' c d b =
    (let b2 = cut_opt q name' d (cut_opt p name c b)
     in if c \<noteq> nil \<and> \<not> isDir (heap b q) then Inl Panic_nil_map
        else let b3 = link_opt q name' c b2 in Inr ((live b3 p, live b3 q), b3))"
proof -
  let ?b2 = "cut_opt q name' d (cut_opt p name c b)"
  have dir: "isDir (heap ?b2 q) = isDir (heap b q)" by simp
  show ?thesis
  proof (cases "c \<noteq> nil \<and> \<not> isDir (heap b q)")
    case True
    then have "children (heap ?b2 q) = None" using dir by (simp add: isDir_def)
    then have "set_child q name' c ?b2 = Inl Panic_nil_map" by (simp add: set_child_def monad_simps)
    with True show ?thesis unfolding mv_commit_def cut_if by (simp add: bindM_Inl Let_def)
  next
    case False
    then consider "c = nil" | "isDir (heap ?b2 q)" using dir by blast
    then show ?thesis
    proof cases
      case 1
      then show ?thesis unfolding mv_commit_def cut_if by (simp add: link_opt_def Let_def monad_simps live_def)
    next
      case 2
      then have "isDir (heap b q)" by simp
      then show ?thesis unfolding mv_commit_def cut_if link_if[OF 2] by (simp add: Let_def monad_simps live_def)
    qed
  qed
qed

lemma Mv_step:
  assumes "shared_ok b" "valid b p" "valid b q"
  shows "step_ok b (Mv p name q name' ow) (run_atomic (Mv p name q name' ow) b)"
proof -
  let ?c = "edge b p name" and ?d = "edge b q name'"
  let ?b1 = "cut_opt p name ?c b"
  let ?b2 = "cut_opt q name' ?d ?b1"
  let ?b3 = "link_opt q name' ?c ?b2"
  note k = shared_okD(3)[OF assms(1)]
  have w1: "world_ok b ?b1"
    using knows_parentsD(1)[OF k assms(2)] by (intro world_cut_opt assms(1)) simp
  then have w2: "world_ok ?b1 ?b2"
    using knows_parentsD(1)[OF k assms(3)] by (intro world_cut_opt) (simp_all add: world_ok_def)
  then have w3: "world_ok ?b2 ?b3"
    using knows_parentsD(1)[OF k assms(2)] assms(3) by (intro world_link_opt) (simp_all add: world_ok_def)
  have w: "world_ok b ?b3" using world_trans[OF world_trans[OF w1 w2] w3] .
  consider "?d \<noteq> nil \<and> \<not> ow" | "\<not> (?d \<noteq> nil \<and> \<not> ow)" "?c \<noteq> nil" "\<not> isDir (heap b q)"
    | "\<not> (?d \<noteq> nil \<and> \<not> ow)" "\<not> (?c \<noteq> nil \<and> \<not> isDir (heap b q))" by blast
  then show ?thesis
  proof cases
    case 1
    then show ?thesis using assms(1) by (simp add: monad_simps edge_child world_refl)
  next
    case 2
    then have "run_atomic (Mv p name q name' ow) b = Inl Panic_nil_map"
      by (simp add: monad_simps edge_child mv_commit_eq bindM_def)
    then show ?thesis using 2 by simp
  next
    case 3
    then have "run_atomic (Mv p name q name' ow) b = Inr (mv_follow p q (live ?b3 p, live ?b3 q), ?b3)"
      by (auto simp: monad_simps edge_child mv_commit_eq bindM_def Let_def ret_def)
    then show ?thesis using w assms(2,3) by (auto simp: task_ok_def mv_follow_def world_ok_def)
  qed
qed

lemma atomic_step:
  assumes "shared_ok b" "task_ok b t" "settle t = t"
  shows "step_ok b t (run_atomic t b)"
  using assms
  by (cases t) (simp_all only: task_ok_def valid_task.simps removes_gone.simps settle.simps task.distinct simp_thms
      task.inject Add_step Ref_step RefRead_step Rm_step Mv_step)

end
