(* ===== verification/Atomic.thy ===== *)
theory Atomic
  imports Shared
begin

text \<open>
  Calls of several threads, section by section (\<open>threads_run\<close>), and the same calls with each
  read and the change that relies on it in one step (\<open>atomic_run\<close>). The code checks a revision
  before it relies on what it has read; as every change of children or parents counts the
  revision up, the check succeeds only when nothing has changed, unless the revision has come
  round all its \<open>2 ^ 32\<close> values.
\<close>

section \<open>Counting revisions\<close>

text \<open>
  \<open>tick D k b b'\<close>: from \<open>b\<close> to \<open>b'\<close> each revision went up by at most \<open>k\<close>, and children or parents
  changed only where it did, or at an address of \<open>D\<close>.
\<close>

definition same_links :: "inode \<Rightarrow> inode \<Rightarrow> bool" where
  "same_links v v' \<longleftrightarrow> children v' = children v \<and> parents v' = parents v"

definition ticked_up :: "nat \<Rightarrow> bool \<Rightarrow> inode \<Rightarrow> inode \<Rightarrow> bool" where
  "ticked_up k dirty v v' \<longleftrightarrow>
     (\<exists>d \<le> k. revision v' = revision v + word_of_nat d \<and> (d = 0 \<longrightarrow> dirty \<or> same_links v v'))"

definition tick :: "addr set \<Rightarrow> nat \<Rightarrow> rawBridge \<Rightarrow> rawBridge \<Rightarrow> bool" where
  "tick D k b b' \<longleftrightarrow> hnext b \<le> hnext b' \<and> (\<forall>a. valid b a \<longrightarrow> ticked_up k (a \<in> D) (heap b a) (heap b' a))"

definition ticks :: "addr set \<Rightarrow> nat \<Rightarrow> (rawBridge, 'a) M \<Rightarrow> addr set \<Rightarrow> nat \<Rightarrow> bool" where
  "ticks D k m D' k' \<longleftrightarrow> (\<forall>b0 b x b'. tick D k b0 b \<longrightarrow> m b = Inr (x, b') \<longrightarrow> tick D' k' b0 b')"

lemma ticked_up_refl: "ticked_up k d v v"
  unfolding ticked_up_def by (intro exI[of _ 0]) (simp add: same_links_def)

lemma ticked_up_mono: "ticked_up k d v v' \<Longrightarrow> k \<le> k' \<Longrightarrow> (d \<Longrightarrow> d') \<Longrightarrow> ticked_up k' d' v v'"
  unfolding ticked_up_def by (meson le_trans)

lemma ticked_up_dirty: "ticked_up k d v v' \<Longrightarrow> revision v'' = revision v' \<Longrightarrow> ticked_up k True v v''"
  unfolding ticked_up_def by auto

lemma ticked_up_same: "ticked_up k d v v' \<Longrightarrow> revision v'' = revision v' \<Longrightarrow> same_links v' v'' \<Longrightarrow> ticked_up k d v v''"
  unfolding ticked_up_def same_links_def by auto

lemma ticked_up_bump: "ticked_up k d v v' \<Longrightarrow> ticked_up (Suc k) d' v (bump v')"
proof -
  assume "ticked_up k d v v'"
  then obtain j where "j \<le> k" "revision v' = revision v + word_of_nat j" by (auto simp: ticked_up_def)
  then have "Suc j \<le> Suc k" "revision (bump v') = revision v + word_of_nat (Suc j)"
    by (simp_all add: bump_def add.commute)
  then show ?thesis unfolding ticked_up_def by blast
qed

lemma tick_refl: "tick D 0 b b"
  by (simp add: tick_def ticked_up_refl)

lemma tick_upd:
  "tick D k b b' \<Longrightarrow> (\<And>v. ticked_up k (a \<in> D) v (heap b' a) \<Longrightarrow> ticked_up k' (a \<in> D') v (f (heap b' a))) \<Longrightarrow>
    k \<le> k' \<Longrightarrow> D - {a} \<subseteq> D' \<Longrightarrow> tick D' k' b (upd a f b')"
  by (auto simp: tick_def upd_def intro: ticked_up_mono)

named_theorems ticks_intros \<open>sections count revisions\<close>

lemma ticks_bind: "ticks D k m D1 k1 \<Longrightarrow> (\<And>x. ticks D1 k1 (f x) D' k') \<Longrightarrow> ticks D k (bindM m f) D' k'"
  unfolding ticks_def bindM_eq_Inr by blast

lemma ticks_ret [ticks_intros]: "ticks D k (ret x) D k"
  by (simp add: ticks_def ret_def)

lemma ticks_gets [ticks_intros]: "ticks D k (getsM f) D k"
  by (simp add: ticks_def getsM_def)

lemma ticks_fail: "ticks D k (fail e) D' k'"
  by (simp add: ticks_def fail_def)

lemma ticks_write:
  "(\<And>n. revision (f n) = revision n) \<Longrightarrow> ticks D k (modifyM (upd a f)) (insert a D) k"
  unfolding ticks_def modifyM_def by (clarsimp, erule tick_upd) (auto intro: ticked_up_dirty)

lemma ticks_upd:
  "(\<And>n. revision (f n) = revision n \<and> same_links n (f n)) \<Longrightarrow> ticks D k (modifyM (upd a f)) D k"
  unfolding ticks_def modifyM_def by (clarsimp, erule tick_upd) (auto intro: ticked_up_same)

lemma ticks_bump [ticks_intros]: "ticks D k (bumpM a) (D - {a}) (Suc k)"
  unfolding ticks_def modifyM_def bumpM_def by (clarsimp, erule tick_upd) (auto intro: ticked_up_bump)

lemma ticks_env: "(\<And>b. heap (f b) = heap b \<and> hnext (f b) = hnext b) \<Longrightarrow> ticks D k (modifyM f) D k"
  by (simp add: ticks_def modifyM_def tick_def)

lemma tick_mono: "tick D k b b' \<Longrightarrow> D \<subseteq> D' \<Longrightarrow> k \<le> k' \<Longrightarrow> tick D' k' b b'"
  by (auto simp: tick_def intro: ticked_up_mono)

lemma ticks_weaken: "ticks D k m D1 k1 \<Longrightarrow> D1 \<subseteq> D' \<Longrightarrow> k1 \<le> k' \<Longrightarrow> ticks D k m D' k'"
  unfolding ticks_def by (blast intro: tick_mono)

lemma ticks_skip: "D \<subseteq> D' \<Longrightarrow> k \<le> k' \<Longrightarrow> ticks D k (ret x) D' k'"
  by (rule ticks_weaken[OF ticks_ret])

lemma ticks_if: "(c \<Longrightarrow> ticks D k m D' k') \<Longrightarrow> (\<not> c \<Longrightarrow> ticks D k m' D' k') \<Longrightarrow> ticks D k (if c then m else m') D' k'"
  by simp

lemma ticks_alloc [ticks_intros]: "ticks D k (alloc n) D k"
  by (auto simp: ticks_def alloc_def tick_def monad_simps valid_def)

lemma ticks_newInode [ticks_intros]: "ticks D k (newInode i dir) D k"
  unfolding newInode_def Let_def by (intro ticks_if ticks_fail ticks_alloc)

lemma ticks_set_child [ticks_intros]: "ticks D k (set_child p name c) (insert p D) k"
  unfolding set_child_def
  by (rule ticks_bind[OF ticks_gets]) (auto intro!: ticks_write ticks_fail split: option.split)

lemma ticks_add_parent [ticks_intros]: "ticks D k (add_parent c e) (insert c D) k"
proof -
  have "ticks D k now D k"
    unfolding now_def by (intro ticks_bind[OF ticks_gets] ticks_bind[OF ticks_env] ticks_ret) simp
  then show ?thesis unfolding add_parent_def by (rule ticks_bind) (simp add: ticks_write)
qed

lemma ticks_del_parent [ticks_intros]: "ticks D k (del_parent c e) (insert c D) k"
  unfolding del_parent_def by (rule ticks_write) simp

lemma ticks_del_child [ticks_intros]: "ticks D k (modifyM (upd p (del_child name))) (insert p D) k"
  by (rule ticks_write) (simp add: del_child_def)

text \<open>The sections.\<close>

lemma ticks_count: "ticks D k (modifyM (upd c (\<lambda>n. n\<lparr>lookupCount := f n\<rparr>))) D k"
  by (rule ticks_upd) (simp add: same_links_def)

lemma ticks_nodes: "ticks D k (modifyM (\<lambda>b. b\<lparr>nodes := f b\<rparr>)) D k"
  by (rule ticks_env) simp

lemma ticks_high: "ticks D k (modifyM (\<lambda>b. if P b then b\<lparr>nodeCountHigh := f b\<rparr> else b)) D k"
  by (rule ticks_env) simp

lemma add_commit_ticks: "ticks {} k (add_commit p name i dir c) {} (k + 3)"
proof -
  have new: "ticks {} k (if c = nil then newInode i dir else ret c) {} k"
    by (intro ticks_if ticks_newInode ticks_ret)
  show ?thesis
    unfolding add_commit_def
    by (rule ticks_bind, rule new)
      ((rule ticks_bind, rule ticks_intros ticks_count ticks_nodes ticks_high)+, rule ticks_skip, auto)
qed

lemma ref_start_ticks: "ticks {} k (ref_start n nlookup) {} (k + 1)"
proof -
  have dec: "ticks {} k (if 0 < nlookup
      then bindM (modifyM (upd n (\<lambda>v. v\<lparr>lookupCount := lookupCount v - nlookup\<rparr>))) (\<lambda>_. bumpM n) else ret ()) {} (k + 1)"
    by (intro ticks_if ticks_bind[OF ticks_count] ticks_skip ticks_weaken[OF ticks_bump]) auto
  have live: "ticks {} k1 (bindM (getsM f) (\<lambda>l. if l then ret True
      else bindM (modifyM (\<lambda>b. b\<lparr>nodes := g b\<rparr>)) (\<lambda>_. ret False))) {} k1" for k1 f g
    by (intro ticks_bind[OF ticks_gets] ticks_if ticks_ret ticks_bind[OF ticks_nodes])
  show ?thesis
    unfolding ref_start_def by (intro ticks_bind[OF ticks_gets] ticks_if ticks_fail ticks_bind[OF dec] live)
qed

lemma unlink_ticks: "ticks {} k (modifyM (unlink_st n pe)) {} (Suc k)"
  unfolding ticks_def
proof (intro allI impI)
  fix b0 b x b'
  let ?p = "pe_node pe" and ?d = "del_child (pe_name pe)"
  assume t: "tick {} k b0 b" and "modifyM (unlink_st n pe) b = Inr (x, b')"
  then have b': "b' = unlink_st n pe b" by (simp add: modifyM_def)
  have "bindM (modifyM (upd ?p ?d)) (\<lambda>_. bumpM ?p) b = Inr ((), upd ?p bump (upd ?p ?d b))"
    by (simp add: monad_simps bumpM_def)
  moreover have "ticks {} k (bindM (modifyM (upd ?p ?d)) (\<lambda>_. bumpM ?p)) {} (Suc k)"
    by (rule ticks_bind[OF ticks_del_child], rule ticks_weaken[OF ticks_bump]) auto
  ultimately have "tick {} (Suc k) b0 (upd ?p bump (upd ?p ?d b))" using t unfolding ticks_def by blast
  moreover have "tick {} (Suc k) b0 b" using t by (rule tick_mono) simp_all
  ultimately show "tick {} (Suc k) b0 b'" by (simp add: b' unlink_st_def)
qed

lemma forM_ticks:
  assumes "\<And>x k. ticks {} k (f x) {} (Suc k)"
  shows "ticks {} k (forM xs f) {} (k + length xs)"
proof (induction xs arbitrary: k)
  case (Cons x xs)
  show ?case using ticks_bind[OF assms Cons.IH] by simp
qed (simp add: ticks_ret)

lemma ref_commit_ticks: "ticks {} k (ref_commit n pes) {} (k + length pes + 1)"
proof -
  have clear: "ticks D j (modifyM (upd n (\<lambda>v. v\<lparr>parents := f v\<rparr>))) (insert n D) j" for D j f
    by (rule ticks_write) simp
  have check: "ticks D j (bindM (getsM g) (\<lambda>v. if c v then fail (h v) else ret ())) D j"
    for D j and g :: "rawBridge \<Rightarrow> inode" and c h
    by (intro ticks_bind[OF ticks_gets] ticks_if ticks_fail ticks_ret)
  show ?thesis
    unfolding ref_commit_def
    by (rule ticks_bind, rule forM_ticks, rule unlink_ticks, rule ticks_bind, rule clear, rule ticks_bind, rule ticks_bump)
      (rule ticks_weaken[OF check], auto)
qed

lemma rm_commit_ticks: "ticks {} k (rm_commit p name c) {} (k + 2)"
  unfolding rm_commit_def
  by ((rule ticks_bind, rule ticks_intros ticks_del_child)+, rule ticks_weaken[OF ticks_gets]) auto

lemma mv_commit_ticks: "ticks {} k (mv_commit p name q name' c d) {} (k + 6)"
proof -
  have del: "ticks {} j (if x \<noteq> nil then bindM (modifyM (upd a (del_child m))) (\<lambda>_. bindM (del_parent x e) (\<lambda>_.
      bindM (bumpM a) (\<lambda>_. bumpM x))) else ret ()) {} (j + 2)" for j x a m e
    by (rule ticks_if, (rule ticks_bind, rule ticks_intros ticks_del_child)+, rule ticks_weaken[OF ticks_bump])
      (auto intro: ticks_skip)
  have add: "ticks {} j (if x \<noteq> nil then bindM (set_child a m x) (\<lambda>_. bindM (add_parent x e) (\<lambda>_.
      bindM (bumpM a) (\<lambda>_. bumpM x))) else ret ()) {} (j + 2)" for j x a m e
    by (rule ticks_if, (rule ticks_bind, rule ticks_intros)+, rule ticks_weaken[OF ticks_bump])
      (auto intro: ticks_skip)
  show ?thesis
    unfolding mv_commit_def
    by (rule ticks_bind, rule del, rule ticks_bind, rule del, rule ticks_bind, rule add,
        rule ticks_bind, rule ticks_gets, rule ticks_bind, rule ticks_gets, rule ticks_skip) auto
qed

section \<open>What a call has read\<close>

text \<open>
  \<open>since k v rv P\<close>: the revision of \<open>v\<close> has gone up by at most \<open>k\<close> since it was \<open>rv\<close>, and \<open>P\<close>
  holds if it has not gone up.
\<close>

definition since :: "nat \<Rightarrow> inode \<Rightarrow> u32 \<Rightarrow> (inode \<Rightarrow> bool) \<Rightarrow> bool" where
  "since k v rv P \<longleftrightarrow> (\<exists>d \<le> k. revision v = rv + word_of_nat d \<and> (d = 0 \<longrightarrow> P v))"

lemma since_now: "P v \<Longrightarrow> since 0 v (revision v) P"
  by (simp add: since_def)

lemma since_mono: "since k v rv P \<Longrightarrow> k \<le> k' \<Longrightarrow> since k' v rv P"
  unfolding since_def by (meson le_trans)

lemma since_checked:
  assumes "since k v rv P" "revision v = rv" "k < 2 ^ 32"
  shows "P v"
proof -
  obtain d where d: "d \<le> k" "(word_of_nat d :: u32) = 0" "d = 0 \<longrightarrow> P v"
    using assms(1,2) by (auto simp: since_def)
  have "2 ^ 32 dvd d" using d(2) by (simp add: word_of_nat_eq_0_iff)
  then have "d = 0" using d(1) assms(3) nat_dvd_not_less by (metis le_less_trans not_gr_zero)
  with d(3) show ?thesis by simp
qed

lemma since_ticked_up:
  assumes "since k v rv P" "ticked_up j False v v'" "\<And>v'. same_links v v' \<Longrightarrow> P v' = P v"
  shows "since (k + j) v' rv P"
proof -
  obtain d where d: "d \<le> k" "revision v = rv + word_of_nat d" "d = 0 \<longrightarrow> P v"
    using assms(1) by (auto simp: since_def)
  obtain d' where d': "d' \<le> j" "revision v' = revision v + word_of_nat d'" "d' = 0 \<longrightarrow> same_links v v'"
    using assms(2) by (auto simp: ticked_up_def)
  have "d + d' \<le> k + j" "revision v' = rv + word_of_nat (d + d')" "d + d' = 0 \<longrightarrow> P v'"
    using d d' assms(3) by auto
  then show ?thesis unfolding since_def by blast
qed

primrec fresh :: "nat \<Rightarrow> rawBridge \<Rightarrow> task \<Rightarrow> bool" where
  "fresh k b (Add p name i dir c) \<longleftrightarrow> True"
| "fresh k b (Ref n nlookup) \<longleftrightarrow> True"
| "fresh k b (RefRead n) \<longleftrightarrow> True"
| "fresh k b (RefLock n rv pes) \<longleftrightarrow> since k (heap b n) rv (\<lambda>v. parents_all (parents v) = pes)"
| "fresh k b (Rm p name) \<longleftrightarrow> True"
| "fresh k b (RmLock p name rv c) \<longleftrightarrow> c \<noteq> nil \<and> since k (heap b p) rv (\<lambda>v. child v name = c)"
| "fresh k b (Mv p name q name' ow) \<longleftrightarrow> True"
| "fresh k b (MvLock p name q name' ow rv nRv c d) \<longleftrightarrow> \<not> (d \<noteq> nil \<and> \<not> ow) \<and>
     since k (heap b p) rv (\<lambda>v. child v name = c) \<and> since k (heap b q) nRv (\<lambda>v. child v name' = d)"

lemma fresh_mono: "fresh k b t \<Longrightarrow> k \<le> k' \<Longrightarrow> fresh k' b t"
  by (cases t) (auto intro: since_mono)

lemma same_links_child: "same_links v v' \<Longrightarrow> child v' m = child v m"
  by (simp add: same_links_def child_def childmap_def)

lemma since_tick:
  assumes "since k (heap b a) rv P" "tick {} j b b'" "valid b a" "\<And>v v'. same_links v v' \<Longrightarrow> P v' = P v"
  shows "since (k + j) (heap b' a) rv P"
proof -
  have "ticked_up j False (heap b a) (heap b' a)" using assms(2,3) by (simp add: tick_def)
  with assms(1) show ?thesis by (rule since_ticked_up) (rule assms(4))
qed

lemma fresh_tick:
  assumes "fresh k b t" "valid_task b t" "tick {} j b b'"
  shows "fresh (k + j) b' t"
proof -
  have "since (k + j) (heap b' a) rv (\<lambda>v. child v m = c)"
    if "since k (heap b a) rv (\<lambda>v. child v m = c)" "valid b a" for a rv m c
    by (rule since_tick[OF that(1) assms(3) that(2)]) (simp add: same_links_child)
  moreover have "since (k + j) (heap b' a) rv (\<lambda>v. parents_all (parents v) = pes)"
    if "since k (heap b a) rv (\<lambda>v. parents_all (parents v) = pes)" "valid b a" for a rv pes
    by (rule since_tick[OF that(1) assms(3) that(2)]) (simp add: same_links_def)
  ultimately show ?thesis using assms(1,2) by (cases t) simp_all
qed

section \<open>One section\<close>

text \<open>How often a section counts a revision up, at most.\<close>

primrec cost :: "task \<Rightarrow> nat" where
  "cost (Add p name i dir c) = 3"
| "cost (Ref n nlookup) = 1"
| "cost (RefRead n) = 0"
| "cost (RefLock n rv pes) = length pes + 1"
| "cost (Rm p name) = 0"
| "cost (RmLock p name rv c) = 2"
| "cost (Mv p name q name' ow) = 0"
| "cost (MvLock p name q name' ow rv nRv c d) = 6"

lemma ticks_after: "ticks {} k m {} k1 \<Longrightarrow> (\<And>x. ticks {} k1 (f x) {} k1) \<Longrightarrow> ticks {} k (bindM m f) {} k1"
  by (rule ticks_bind)

lemma ref_read_ticks: "ticks {} k (ref_read n) {} k"
  unfolding ref_read_def by (intro ticks_bind[OF ticks_gets] ticks_ret)

lemma run_task_ticks: "ticks {} k (run_task t) {} (k + cost t)"
proof (cases t)
  case (Add p name i dir c)
  have "ticks {} k (bindM (add_commit p name i dir c) (\<lambda>_. ret [])) {} (k + 3)"
    by (rule ticks_after[OF add_commit_ticks ticks_ret])
  then show ?thesis unfolding Add run_task.simps cost.simps add_section_def
    by (intro ticks_if ticks_fail ticks_bind[OF ticks_gets] ticks_skip) auto
next
  case (Ref n nlookup)
  then show ?thesis
    by (simp only: run_task.simps cost.simps ref_section_def)
      (intro ticks_after[OF ref_start_ticks] ticks_if ticks_ret ref_read_ticks)
next
  case (RefRead n)
  then show ?thesis using ref_read_ticks[of k n] by simp
next
  case (RefLock n rv pes)
  have "ticks {} k (bindM (ref_commit n pes) (\<lambda>_. ret (ref_follow pes))) {} (k + (length pes + 1))"
    using ticks_after[OF ref_commit_ticks ticks_ret] by simp
  then show ?thesis unfolding RefLock run_task.simps cost.simps reflock_section_def
    by (intro ticks_if ticks_bind[OF ticks_gets] ticks_skip) auto
next
  case (Rm p name)
  then show ?thesis
    by (simp only: run_task.simps cost.simps rm_section_def) (intro ticks_bind[OF ticks_gets] ticks_skip, auto)
next
  case (RmLock p name rv c)
  have "ticks {} k (bindM (rm_commit p name c) (\<lambda>l. ret (if l then [] else [Ref p 0]))) {} (k + 2)"
    by (rule ticks_after[OF rm_commit_ticks ticks_ret])
  then show ?thesis unfolding RmLock run_task.simps cost.simps rmlock_section_def
    by (intro ticks_if ticks_bind[OF ticks_gets] ticks_skip) auto
next
  case (Mv p name q name' ow)
  then show ?thesis
    by (simp only: run_task.simps cost.simps mv_section_def case_prod_unfold)
      (intro ticks_bind[OF ticks_gets] ticks_skip, auto)
next
  case (MvLock p name q name' ow rv nRv c d)
  have "ticks {} k (bindM (mv_commit p name q name' c d) (\<lambda>ls. ret (mv_follow p q ls))) {} (k + 6)"
    by (rule ticks_after[OF mv_commit_ticks ticks_ret])
  then show ?thesis unfolding MvLock run_task.simps cost.simps mvlock_section_def
    by (intro ticks_if ticks_bind[OF ticks_gets] ticks_skip) auto
qed

text \<open>
  A section that only reads, or starts over, changes nothing and leaves the same to do; any
  other does what the call does in one step.
\<close>

definition settled_result :: "abort + task list \<times> rawBridge \<Rightarrow> abort + task list \<times> rawBridge" where
  "settled_result r = map_sum id (map_prod (map settle) id) r"

lemma settled_result_simps [simp]:
  "settled_result (Inl e) = Inl e" "settled_result (Inr (new, b)) = Inr (map settle new, b)"
  by (simp_all add: settled_result_def)

definition waits :: "task \<Rightarrow> rawBridge \<Rightarrow> bool" where
  "waits t b \<longleftrightarrow> (\<exists>new. run_task t b = Inr ([new], b) \<and> settle new = settle t \<and> fresh 0 b new)"

definition acts :: "task \<Rightarrow> rawBridge \<Rightarrow> bool" where
  "acts t b \<longleftrightarrow> settled_result (run_task t b) = run_atomic (settle t) b \<and>
     (\<forall>new b'. run_task t b = Inr (new, b') \<longrightarrow> (\<forall>t' \<in> set new. fresh 0 b' t'))"

lemma bindM_post: "bindM m (\<lambda>x. ret (f x)) b = (case m b of Inl e \<Rightarrow> Inl e | Inr (x, b') \<Rightarrow> Inr (f x, b'))"
  by (simp add: bindM_def ret_def split: sum.split prod.split)

lemma fresh_calls: "fresh k b (Ref n nlookup)" "\<forall>t \<in> set (ref_follow pes). fresh k b t"
  "\<forall>t \<in> set (mv_follow p q ls). fresh k b t"
  by (auto simp: ref_follow_def mv_follow_def)

lemma settle_follow [simp]:
  "map settle (ref_follow pes) = ref_follow pes" "map settle (mv_follow p q ls) = mv_follow p q ls"
  by (simp_all add: ref_follow_def mv_follow_def)

lemma run_Add: "waits (Add p name i dir c) b \<or> acts (Add p name i dir c) b"
proof (cases "\<not> (name = ''.'' \<or> name = ''..'') \<and> go_get (nodes b) i \<noteq> c")
  case True
  then have "run_task (Add p name i dir c) b = Inr ([Add p name i dir (go_get (nodes b) i)], b)"
    by (simp add: add_section_def monad_simps)
  then show ?thesis by (simp add: waits_def)
next
  case False
  then have "run_task (Add p name i dir c) b = bindM (addChild p name i dir) (\<lambda>_. ret []) b"
    by (auto simp: add_section_def monad_simps addChild_sections bindM_def)
  moreover have "settled_result r = r \<and> (\<forall>new b'. r = Inr (new, b') \<longrightarrow> new = [])"
    if "r = bindM (addChild p name i dir) (\<lambda>_. ret []) b" for r
    using that by (auto simp: bindM_post split: sum.splits)
  ultimately show ?thesis by (auto simp: acts_def)
qed

lemma run_Ref: "acts (Ref n nlookup) b"
proof (cases "ref_start n nlookup b")
  case (Inl e)
  then show ?thesis by (simp add: acts_def ref_section_def bindM_Inl)
next
  case (Inr r)
  then obtain l b1 where "ref_start n nlookup b = Inr (l, b1)" by (cases r) simp
  then show ?thesis
    by (cases l) (simp_all add: acts_def ref_section_def ref_read_def monad_simps since_now)
qed

lemma run_RefRead: "waits (RefRead n) b"
  by (simp add: waits_def ref_read_def monad_simps since_now)

lemma run_RefLock:
  assumes "fresh k b (RefLock n rv pes)" "k < 2 ^ 32"
  shows "waits (RefLock n rv pes) b \<or> acts (RefLock n rv pes) b"
proof (cases "revision (heap b n) = rv")
  case False
  then have "run_task (RefLock n rv pes) b = Inr ([RefRead n], b)" by (simp add: reflock_section_def monad_simps)
  then show ?thesis by (simp add: waits_def)
next
  case True
  then have "parents_all (parents (heap b n)) = pes" using assms since_checked by fastforce
  with True have "run_task (RefLock n rv pes) b = run_atomic (RefRead n) b"
    by (simp add: reflock_section_def monad_simps)
  moreover have "settled_result r = r \<and> (\<forall>new b'. r = Inr (new, b') \<longrightarrow> (\<exists>pes. new = ref_follow pes))"
    if "r = run_atomic (RefRead n) b" for r
    using that by (auto simp: bindM_gets bindM_post split: sum.splits)
  ultimately show ?thesis using fresh_calls(2) by (fastforce simp: acts_def simp del: run_task.simps run_atomic.simps)
qed

lemma run_Rm: "waits (Rm p name) b \<or> acts (Rm p name) b"
proof (cases "child (heap b p) name = nil")
  case True
  then show ?thesis by (simp add: acts_def rm_section_def monad_simps)
next
  case False
  then show ?thesis by (simp add: waits_def rm_section_def monad_simps since_now)
qed

lemma run_RmLock:
  assumes "fresh k b (RmLock p name rv c)" "k < 2 ^ 32"
  shows "waits (RmLock p name rv c) b \<or> acts (RmLock p name rv c) b"
proof (cases "revision (heap b p) = rv")
  case False
  then have "run_task (RmLock p name rv c) b = Inr ([Rm p name], b)" by (simp add: rmlock_section_def monad_simps)
  then show ?thesis by (simp add: waits_def)
next
  case True
  then have "child (heap b p) name = c" "c \<noteq> nil" using assms since_checked by fastforce+
  with True have "run_task (RmLock p name rv c) b = run_atomic (Rm p name) b"
    by (simp add: rmlock_section_def monad_simps)
  moreover have "settled_result r = r \<and> (\<forall>new b'. r = Inr (new, b') \<longrightarrow> set new \<subseteq> {Ref p 0})"
    if "r = run_atomic (Rm p name) b" for r
    using that \<open>child (heap b p) name = c\<close> \<open>c \<noteq> nil\<close> by (auto simp: bindM_gets bindM_post split: sum.splits if_splits)
  ultimately show ?thesis by (fastforce simp: acts_def simp del: run_task.simps run_atomic.simps)
qed

lemma run_Mv: "waits (Mv p name q name' ow) b \<or> acts (Mv p name q name' ow) b"
proof (cases "child (heap b q) name' \<noteq> nil \<and> \<not> ow")
  case True
  then show ?thesis by (simp add: acts_def mv_section_def monad_simps)
next
  case False
  then show ?thesis by (auto simp: waits_def mv_section_def monad_simps since_now)
qed

lemma run_MvLock:
  assumes "fresh k b (MvLock p name q name' ow rv nRv c d)" "k < 2 ^ 32"
  shows "waits (MvLock p name q name' ow rv nRv c d) b \<or> acts (MvLock p name q name' ow rv nRv c d) b"
proof (cases "revision (heap b p) = rv \<and> revision (heap b q) = nRv")
  case False
  then have "run_task (MvLock p name q name' ow rv nRv c d) b = Inr ([Mv p name q name' ow], b)"
    by (simp add: mvlock_section_def monad_simps)
  then show ?thesis by (simp add: waits_def)
next
  case True
  have s: "since k (heap b p) rv (\<lambda>v. child v name = c)" "since k (heap b q) nRv (\<lambda>v. child v name' = d)"
    "\<not> (d \<noteq> nil \<and> \<not> ow)"
    using assms(1) by simp_all
  have e: "child (heap b p) name = c" "child (heap b q) name' = d" "\<not> (d \<noteq> nil \<and> \<not> ow)"
    using since_checked[OF s(1) _ assms(2)] since_checked[OF s(2) _ assms(2)] True s(3) by simp_all
  with True have "run_task (MvLock p name q name' ow rv nRv c d) b = run_atomic (Mv p name q name' ow) b"
    by (auto simp: mvlock_section_def monad_simps)
  moreover have "settled_result r = r \<and> (\<forall>new b'. r = Inr (new, b') \<longrightarrow> (\<exists>ls. new = mv_follow p q ls))"
    if "r = run_atomic (Mv p name q name' ow) b" for r
    using that e by (auto simp: bindM_gets bindM_post split: sum.splits)
  ultimately show ?thesis using fresh_calls(3) by (fastforce simp: acts_def simp del: run_task.simps run_atomic.simps)
qed

lemma run_task_cases:
  assumes "fresh k b t" "k < 2 ^ 32"
  shows "waits t b \<or> acts t b"
proof (cases t)
  case (RefLock n rv pes)
  then show ?thesis using run_RefLock assms by blast
next
  case (RmLock p name rv c)
  then show ?thesis using run_RmLock assms by blast
next
  case (MvLock p name q name' ow rv nRv c d)
  then show ?thesis using run_MvLock assms by blast
qed (simp_all only: run_Add run_Ref run_RefRead run_Rm run_Mv simp_thms)

section \<open>Threads\<close>

text \<open>
  The threads of a bridge, each with what is left of its call. A thread that has finished
  begins another call on objects of the heap, and a section of any one runs next; \<open>k\<close> bounds
  how often any one revision has been counted up.
\<close>

inductive threads_run :: "rawBridge \<Rightarrow> nat \<Rightarrow> nat \<Rightarrow> rawBridge \<Rightarrow> task list list \<Rightarrow> bool" for b0 n where
  run_start: "threads_run b0 n 0 b0 (replicate n [])"
| run_call: "threads_run b0 n k b ts \<Longrightarrow> j < length ts \<Longrightarrow> ts ! j = [] \<Longrightarrow> starts t \<Longrightarrow> valid_task b t \<Longrightarrow>
    threads_run b0 n k b (ts[j := [t]])"
| run_section: "threads_run b0 n k b ts \<Longrightarrow> j < length ts \<Longrightarrow> ts ! j = t # rest \<Longrightarrow> run_task t b = Inr (new, b') \<Longrightarrow>
    threads_run b0 n (k + cost t) b' (ts[j := new @ rest])"

text \<open>The same with every read and the change after it in one step.\<close>

inductive atomic_run :: "rawBridge \<Rightarrow> nat \<Rightarrow> rawBridge \<Rightarrow> task list list \<Rightarrow> bool" for b0 n where
  atomic_start: "atomic_run b0 n b0 (replicate n [])"
| atomic_call: "atomic_run b0 n b ts \<Longrightarrow> j < length ts \<Longrightarrow> ts ! j = [] \<Longrightarrow> starts t \<Longrightarrow> valid_task b t \<Longrightarrow>
    atomic_run b0 n b (ts[j := [t]])"
| atomic_section: "atomic_run b0 n b ts \<Longrightarrow> j < length ts \<Longrightarrow> ts ! j = t # rest \<Longrightarrow> run_atomic t b = Inr (new, b') \<Longrightarrow>
    atomic_run b0 n b' (ts[j := new @ rest])"

definition threads_ok :: "nat \<Rightarrow> rawBridge \<Rightarrow> task list list \<Rightarrow> bool" where
  "threads_ok k b ts \<longleftrightarrow> shared_ok b \<and> (\<forall>l \<in> set ts. \<forall>t \<in> set l. task_ok b t \<and> fresh k b t)"

lemma threads_okD:
  assumes "threads_ok k b ts" "j < length ts" "ts ! j = t # rest"
  shows "shared_ok b" "task_ok b t" "fresh k b t" "\<And>t'. t' \<in> set rest \<Longrightarrow> task_ok b t' \<and> fresh k b t'"
proof -
  have "t # rest \<in> set ts" using assms(2,3) by (metis nth_mem)
  then show "shared_ok b" "task_ok b t" "fresh k b t" "\<And>t'. t' \<in> set rest \<Longrightarrow> task_ok b t' \<and> fresh k b t'"
    using assms(1) unfolding threads_ok_def by fastforce+
qed

lemma threads_ok_update:
  assumes "threads_ok k b ts" "world_ok b b'" "tick {} d b b'"
    and "\<And>t. t \<in> set l \<Longrightarrow> task_ok b' t \<and> fresh (k + d) b' t"
  shows "threads_ok (k + d) b' (ts[j := l])"
  unfolding threads_ok_def
proof (intro conjI ballI)
  show "shared_ok b'" using assms(2) by (simp add: world_ok_def)
  fix l' t assume l': "l' \<in> set (ts[j := l])" "t \<in> set l'"
  have "task_ok b' t \<and> fresh (k + d) b' t"
  proof (cases "l' = l")
    case True
    with l' assms(4) show ?thesis by simp
  next
    case False
    with l'(1) have "l' \<in> set ts" using set_update_subset_insert[of ts j l] by blast
    with assms(1) l'(2) have t: "task_ok b t" "fresh k b t" by (auto simp: threads_ok_def)
    have v: "valid_task b t" using t(1) by (simp add: task_ok_def)
    show ?thesis using world_task[OF assms(2) t(1)] fresh_tick[OF t(2) v assms(3)] by simp
  qed
  then show "task_ok b' t" "fresh (k + d) b' t" by simp_all
qed

text \<open>A section in a state of the invariant, seen from outside.\<close>

lemma section_step:
  assumes "shared_ok b" "task_ok b t" "fresh k b t" "k < 2 ^ 32" "run_task t b = Inr (new, b')"
  shows "world_ok b b'" "tick {} (cost t) b b'" "\<And>t'. t' \<in> set new \<Longrightarrow> task_ok b' t' \<and> fresh 0 b' t'"
    and "map settle new = [settle t] \<and> b' = b \<or> run_atomic (settle t) b = Inr (map settle new, b')"
proof -
  have tk: "task_ok b (settle t)" using assms(2) by (simp add: task_ok_def)
  have s: "step_ok b (settle t) (run_atomic (settle t) b)" by (rule atomic_step[OF assms(1) tk settle_settle])
  show "tick {} (cost t) b b'"
    using run_task_ticks[of 0 t] tick_refl[of "{}" b] assms(5) by (auto simp: ticks_def)
  have "waits t b \<or> acts t b" by (rule run_task_cases[OF assms(3,4)])
  then show "world_ok b b'" "\<And>t'. t' \<in> set new \<Longrightarrow> task_ok b' t' \<and> fresh 0 b' t'"
    "map settle new = [settle t] \<and> b' = b \<or> run_atomic (settle t) b = Inr (map settle new, b')"
  proof -
    assume "waits t b \<or> acts t b"
    then consider (waits) t1 where "new = [t1]" "b' = b" "settle t1 = settle t" "fresh 0 b t1"
      | (acts) "run_atomic (settle t) b = Inr (map settle new, b')" "\<forall>t' \<in> set new. fresh 0 b' t'"
      using assms(5) by (fastforce simp: waits_def acts_def)
    then have "world_ok b b' \<and> (\<forall>t' \<in> set new. task_ok b' t' \<and> fresh 0 b' t') \<and>
      (map settle new = [settle t] \<and> b' = b \<or> run_atomic (settle t) b = Inr (map settle new, b'))"
    proof cases
      case waits
      then have "task_ok b t1" using tk settle_valid settle_gone unfolding task_ok_def by metis
      with waits world_refl[OF assms(1)] show ?thesis by simp
    next
      case acts
      then show ?thesis using s by (auto simp: task_ok_def)
    qed
    then show "world_ok b b'" "\<And>t'. t' \<in> set new \<Longrightarrow> task_ok b' t' \<and> fresh 0 b' t'"
      "map settle new = [settle t] \<and> b' = b \<or> run_atomic (settle t) b = Inr (map settle new, b')" by blast+
  qed
qed

lemma threads_simulated:
  assumes "shared_ok b0"
  shows "threads_run b0 n k b ts \<Longrightarrow> k < 2 ^ 32 \<Longrightarrow> threads_ok k b ts \<and> atomic_run b0 n b (map (map settle) ts)"
proof (induction rule: threads_run.induct)
  case run_start
  have "atomic_run b0 n b0 (map (map settle) (replicate n []))" using atomic_start[of b0 n] by simp
  then show ?case using assms by (auto simp: threads_ok_def)
next
  case (run_call k b ts j t)
  then have ok: "threads_ok k b ts" and at: "atomic_run b0 n b (map (map settle) ts)" by simp_all
  have "task_ok b t \<and> fresh k b t" using run_call.hyps(4,5) by (cases t) (simp_all add: task_ok_def)
  then have "threads_ok (k + 0) b (ts[j := [t]])"
    using ok by (intro threads_ok_update[OF ok world_refl tick_refl]) (auto simp: threads_ok_def)
  moreover have "atomic_run b0 n b ((map (map settle) ts)[j := [settle t]])"
    using run_call.hyps starts_settle[OF run_call.hyps(4)] by (intro atomic_call[OF at]) simp_all
  ultimately show ?case by (simp add: map_update)
next
  case (run_section k b ts j t rest new b')
  then have "threads_ok k b ts \<and> atomic_run b0 n b (map (map settle) ts)" by simp
  then have ok: "threads_ok k b ts" and at: "atomic_run b0 n b (map (map settle) ts)" by simp_all
  note t = threads_okD[OF ok run_section.hyps(2,3)]
  have k: "k < 2 ^ 32" using run_section.prems by simp
  note s = section_step[OF t(1-3) k run_section.hyps(4)]
  have "task_ok b' t' \<and> fresh (k + cost t) b' t'" if "t' \<in> set (new @ rest)" for t'
  proof (cases "t' \<in> set new")
    case True
    then show ?thesis using s(3) fresh_mono[of 0 b' t' "k + cost t"] by simp
  next
    case False
    with that have "task_ok b t'" "fresh k b t'" using t(4) by auto
    then show ?thesis using world_task[OF s(1)] fresh_tick[OF _ _ s(2)] by (simp add: task_ok_def)
  qed
  then have "threads_ok (k + cost t) b' (ts[j := new @ rest])"
    by (intro threads_ok_update[OF ok s(1,2)]) simp
  moreover have "atomic_run b0 n b' ((map (map settle) ts)[j := map settle new @ map settle rest])"
    using s(4)
  proof
    assume "map settle new = [settle t] \<and> b' = b"
    moreover have "(map (map settle) ts)[j := settle t # map settle rest] = map (map settle) ts"
      using run_section.hyps(2,3) by (metis list.simps(9) list_update_id map_update)
    ultimately show ?thesis using at by simp
  next
    assume "run_atomic (settle t) b = Inr (map settle new, b')"
    then show ?thesis using run_section.hyps(2,3) by (intro atomic_section[OF at]) simp_all
  qed
  ultimately show ?case by (simp add: map_update)
qed

end
