(* ===== verification/Paths.thy ===== *)
theory Paths
  imports Tree_Ops
begin

text \<open>
  The paths of inodes (\<open>file.go\<close>): \<open>pathOf\<close> walks from an inode over its most recent
  parents up to the root, \<open>fpathOf\<close> prefers the path of an open file, \<open>childPathOf\<close> adds a
  name. The walk has no bound in the code and is a partial function here, None for a
  walk that never ends; that it ends is a theorem about trees without cycles. The path
  of an inode leads back to it from the root, over the edges of the tree.
\<close>

section \<open>Strings\<close>

text \<open>\<open>strings.Join\<close>.\<close>

fun join :: "string \<Rightarrow> string list \<Rightarrow> string" where
  "join sep [] = ''''"
| "join sep [x] = x"
| "join sep (x # y # xs) = x @ sep @ join sep (y # xs)"

text \<open>The verb \<open>%d\<close> for an unsigned number.\<close>

definition digit :: "nat \<Rightarrow> char" where
  "digit k = ''0123456789'' ! k"

fun decimal :: "nat \<Rightarrow> string" where
  "decimal k = (if k < 10 then [digit k] else decimal (k div 10) @ [digit (k mod 10)])"

declare decimal.simps [simp del]

definition orphan_placeholder :: "u64 \<Rightarrow> u64 \<Rightarrow> string" where
  "orphan_placeholder i r = ''.pathfs.orphaned/'' @ decimal (unat i) @ ''.'' @ decimal (unat r)"

section \<open>pathOf\<close>

text \<open>
  The loop over the parents: where it ends, and the names it has met, nearest first.
\<close>

partial_function (option) path_walk :: "rawBridge \<Rightarrow> addr \<Rightarrow> string list \<Rightarrow> (addr \<times> string list) option" where
  [code]: "path_walk b it segs =
    (if it \<noteq> nil \<and> it \<noteq> root b
     then let pe = parents_get (parents (heap b it))
          in path_walk b (pe_node pe) (if pe_node pe \<noteq> nil then segs @ [pe_name pe] else segs)
     else Some (it, segs))"

text \<open>The loop that reverses the names in place.\<close>

function swap_loop :: "int \<Rightarrow> int \<Rightarrow> 'a list \<Rightarrow> 'a list" where
  "swap_loop i j xs =
    (if i < j then swap_loop (i + 1) (j - 1) (xs[nat i := xs ! nat j, nat j := xs ! nat i]) else xs)"
  by auto
termination by (relation "measure (\<lambda>(i, j, _). nat (j - i))") auto

declare swap_loop.simps [simp del]

definition pathOf :: "addr \<Rightarrow> (rawBridge, string) M" where
  "pathOf n =
    bindM (getsM (\<lambda>b. (root b, path_walk b n [], ino (heap b n)))) (\<lambda>(r, walk, i).
      if n = r then ret ''''
      else case walk of
        None \<Rightarrow> fail Diverges
      | Some (it, segs) \<Rightarrow>
          if it \<noteq> r then
            bindM rand_Uint64 (\<lambda>x.
            let placeholder = orphan_placeholder i x
            in bindM (logf (Log_orphaned i placeholder)) (\<lambda>_. ret placeholder))
          else ret (join ''/'' (swap_loop 0 (int (length segs) - 1) segs)))"

definition fpathOf :: "addr \<Rightarrow> fileEntry \<Rightarrow> (rawBridge, string) M" where
  "fpathOf n f = (if 0 < length (fe_path f) then ret (fe_path f) else pathOf n)"

definition childPathOf :: "string \<Rightarrow> string \<Rightarrow> string" where
  "childPathOf parent ch = (if parent = '''' then ch else parent @ ''/'' @ ch)"

section \<open>Reversal and joining\<close>

lemma swap_loop_spec:
  assumes "length xs = a + length ys + c" "xs = us @ ys @ vs" "length us = a" "length vs = c"
  shows "swap_loop (int a) (int a + int (length ys) - 1) xs = us @ rev ys @ vs"
  using assms
proof (induction "length ys" arbitrary: a c xs us ys vs rule: less_induct)
  case less
  show ?case
  proof (cases "length ys \<le> 1")
    case True
    then have "rev ys = ys" by (cases ys) auto
    then show ?thesis using less.prems True by (simp add: swap_loop.simps)
  next
    case False
    then obtain y zs where 1: "ys = y # zs" "zs \<noteq> []" by (cases ys) auto
    then obtain ws z where 2: "zs = ws @ [z]" by (metis rev_exhaust)
    let ?xs = "xs[nat (int a) := xs ! nat (int a + int (length ys) - 1),
      nat (int a + int (length ys) - 1) := xs ! nat (int a)]"
    have k: "nat (int a + int (length ys) - 1) = Suc (a + length ws)" using 1 2 by simp
    have "xs ! a = y" "xs ! Suc (a + length ws) = z"
      using less.prems 1 2 by (auto simp: nth_append)
    have k0: "nat (int a) = a" by simp
    have "xs[a := z, Suc (a + length ws) := y] = (us @ [z]) @ ws @ (y # vs)"
      using less.prems 1 2 by (simp add: list_update_append)
    then have x: "?xs = (us @ [z]) @ ws @ (y # vs)"
      unfolding k k0 by (simp only: \<open>xs ! a = y\<close> \<open>xs ! Suc (a + length ws) = z\<close>)
    have "swap_loop (int a) (int a + int (length ys) - 1) xs =
        swap_loop (int a + 1) (int a + int (length ys) - 1 - 1) ?xs"
      using False by (subst swap_loop.simps) simp
    also have "\<dots> = swap_loop (int (Suc a)) (int (Suc a) + int (length ws) - 1) ((us @ [z]) @ ws @ (y # vs))"
      unfolding x using 1 2 by (simp add: algebra_simps)
    also have "\<dots> = (us @ [z]) @ rev ws @ (y # vs)"
      using less.prems 1 2 by (intro less.hyps[where c = "Suc c"]) simp_all
    finally show ?thesis using 1 2 by simp
  qed
qed

lemma swap_loop_rev: "swap_loop 0 (int (length xs) - 1) xs = rev xs"
  using swap_loop_spec[of xs 0 xs 0 "[]" "[]"] by simp

lemma join_snoc: "xs \<noteq> [] \<Longrightarrow> join sep (xs @ [x]) = join sep xs @ sep @ x"
  by (induction sep xs rule: join.induct) auto

lemma childPathOf_join:
  "xs = [] \<or> join ''/'' xs \<noteq> '''' \<Longrightarrow> childPathOf (join ''/'' xs) x = join ''/'' (xs @ [x])"
  by (cases "xs = []") (auto simp: childPathOf_def join_snoc)

section \<open>The walk to the root\<close>

text \<open>\<open>named b a ns\<close>: the most recent parents lead from \<open>a\<close> to the root, over the names \<open>ns\<close>.\<close>

inductive named :: "rawBridge \<Rightarrow> addr \<Rightarrow> string list \<Rightarrow> bool" for b where
  named_root: "named b (root b) []"
| named_step: "a \<noteq> nil \<Longrightarrow> a \<noteq> root b \<Longrightarrow> parents_get (parents (heap b a)) = e \<Longrightarrow> pe_node e \<noteq> nil \<Longrightarrow>
    named b (pe_node e) ns \<Longrightarrow> named b a (ns @ [pe_name e])"

inductive_cases named_NilE: "named b a []"
inductive_cases named_snocE: "named b a (ns @ [m])"
inductive_simps named_iff: "named b a ns"

lemma named_walk: "named b a ns \<Longrightarrow> path_walk b a segs = Some (root b, segs @ rev ns)"
proof (induction arbitrary: segs rule: named.induct)
  case named_root
  then show ?case by (simp add: path_walk.simps)
next
  case (named_step a e ns)
  then show ?case by (subst path_walk.simps) (simp add: Let_def)
qed

lemma walk_named_raw:
  assumes "path_walk b a segs = Some y"
  shows "fst y = root b \<longrightarrow> root b \<noteq> nil \<longrightarrow> (\<exists>ns. named b a ns \<and> snd y = segs @ rev ns)"
proof (rule path_walk.raw_induct[where P = "\<lambda>b a segs y. fst y = root b \<longrightarrow> root b \<noteq> nil \<longrightarrow>
    (\<exists>ns. named b a ns \<and> snd y = segs @ rev ns)", OF _ assms], goal_cases)
  case (1 walk b it segs y)
  show ?case
  proof (cases "it \<noteq> nil \<and> it \<noteq> root b")
    case False
    with 1(2) show ?thesis using named_root[of b] by auto
  next
    case True
    define e where "e = parents_get (parents (heap b it))"
    have w: "walk b (pe_node e) (if pe_node e \<noteq> nil then segs @ [pe_name e] else segs) = Some y"
      using 1(2) unfolding e_def by (simp only: True Let_def if_True simp_thms)
    show ?thesis
    proof (intro impI)
      assume r: "fst y = root b" "root b \<noteq> nil"
      from mp[OF mp[OF 1(1)[OF w] r(1)] r(2)] obtain ns where ns: "named b (pe_node e) ns"
        "snd y = (if pe_node e \<noteq> nil then segs @ [pe_name e] else segs) @ rev ns" by blast
      have n: "pe_node e \<noteq> nil" using ns(1) r(2) by (cases rule: named.cases) auto
      then have "named b it (ns @ [pe_name e])" using True ns(1) by (intro named_step) (auto simp: e_def)
      with ns(2) n show "\<exists>ns. named b it ns \<and> snd y = segs @ rev ns" by (intro exI conjI) auto
    qed
  qed
qed

lemma walk_named:
  "path_walk b a [] = Some (root b, segs) \<Longrightarrow> root b \<noteq> nil \<Longrightarrow> named b a (rev segs)"
  using walk_named_raw[of b a "[]" "(root b, segs)"] by auto

lemma named_unique: "named b a ns \<Longrightarrow> named b a ns' \<Longrightarrow> ns = ns'"
  by (drule named_walk[where segs = "[]"])+ simp

lemma named_valid:
  assumes "tree_ok b" "valid b a" "named b a ns"
  shows "root b \<noteq> nil"
  using assms(1) by (auto simp: tree_ok_def wf_upto_def tab_ok_def valid_def)

lemma pathOf_named:
  assumes "named b n ns"
  shows "pathOf n b = Inr (join ''/'' ns, b)"
proof (cases "n = root b")
  case True
  with named_unique[OF assms] named_root have "ns = []" by blast
  with True show ?thesis by (simp add: pathOf_def monad_simps)
next
  case False
  with named_walk[OF assms, of "[]"] show ?thesis
    by (simp add: pathOf_def monad_simps swap_loop_rev del: length_rev)
qed

text \<open>An inode has a path when the walk ends at the root; otherwise it gets a placeholder.\<close>

definition orphaned_st :: "u64 \<Rightarrow> rawBridge \<Rightarrow> rawBridge" where
  "orphaned_st i b =
    (let b1 = b\<lparr>randpos := Suc (randpos b)\<rparr>
     in if op_Logger (options b)
        then b1\<lparr>logs := logs b @ [Log_orphaned i (orphan_placeholder i (rands b (randpos b)))]\<rparr> else b1)"

lemma pathOf_orphan:
  assumes "path_walk b n [] = Some (it, segs)" "it \<noteq> root b"
  shows "pathOf n b = Inr (orphan_placeholder (inum b n) (rands b (randpos b)), orphaned_st (inum b n) b)"
proof -
  have "n \<noteq> root b" using assms by (auto simp: path_walk.simps)
  with assms show ?thesis
    by (simp add: pathOf_def getsM_def rand_apply bindM_def logf_def modifyM_def ret_def Let_def inum_def orphaned_st_def)
qed

lemma pathOf_diverges:
  assumes "path_walk b n [] = None"
  shows "pathOf n b = Inl Diverges"
proof -
  have "n \<noteq> root b" using assms by (auto simp: path_walk.simps)
  with assms show ?thesis by (simp add: pathOf_def bindM_gets fail_def)
qed

lemma path_walk_cases:
  assumes "root b \<noteq> nil"
  shows "(\<exists>ns. named b n ns) \<or> (\<exists>it segs. path_walk b n [] = Some (it, segs) \<and> it \<noteq> root b) \<or>
    path_walk b n [] = None"
  using walk_named[OF _ assms] by (metis not_Some_eq surj_pair)

section \<open>A path leads back to its inode\<close>

definition descend :: "rawBridge \<Rightarrow> addr \<Rightarrow> string list \<Rightarrow> addr" where
  "descend b a ns = foldl (edge b) a ns"

lemma descend_simps [simp]:
  "descend b a [] = a" "descend b a (ns @ [m]) = edge b (descend b a ns) m"
  by (simp_all add: descend_def)

lemma newest_pset:
  assumes "tree_ok b" "valid b a" "pe_node (parents_get (parents (heap b a))) \<noteq> nil"
  shows "parents_get (parents (heap b a)) \<in> pset b a"
  using assms(3) by (simp add: pset_def parents_set_eq parents_get_def)

lemma pset_edge:
  assumes "tree_ok b" "valid b a" "e \<in> pset b a"
  shows "valid b (pe_node e)" "edge b (pe_node e) (pe_name e) = a"
  using assms edges_okD(1,3)[of b] by (auto simp: tree_ok_def wf_upto_def)

lemma named_descend:
  assumes "tree_ok b"
  shows "named b a ns \<Longrightarrow> valid b a \<Longrightarrow> descend b (root b) ns = a"
proof (induction rule: named.induct)
  case (named_step a e ns)
  have "e \<in> pset b a" using newest_pset[OF assms named_step.prems] named_step.hyps by simp
  from pset_edge[OF assms named_step.prems this] named_step.IH show ?case by simp
qed simp
section \<open>Trees without cycles\<close>

text \<open>From a directory to what is in it.\<close>

definition down :: "rawBridge \<Rightarrow> (addr \<times> addr) set" where
  "down b = {(p, c). valid b p \<and> c \<noteq> nil \<and> (\<exists>m. edge b p m = c)}"

lemma down_valid: "tree_ok b \<Longrightarrow> (p, c) \<in> down b \<Longrightarrow> valid b c"
  using edges_okD(2)[of b] by (auto simp: down_def tree_ok_def wf_upto_def)

lemma wf_down:
  assumes "tree_ok b" "acyclic (down b)"
  shows "wfP (\<lambda>p c. (p, c) \<in> down b)"
proof -
  have "down b \<subseteq> {..<hnext b} \<times> {..<hnext b}"
    using down_valid[OF assms(1)] by (auto simp: down_def valid_def)
  then have "finite (down b)" by (rule finite_subset) simp
  from finite_acyclic_wf[OF this assms(2)] show ?thesis by (simp add: wfp_def)
qed

lemma walk_step:
  "path_walk b it segs =
    (if it \<noteq> nil \<and> it \<noteq> root b
     then path_walk b (pe_node (parents_get (parents (heap b it))))
       (if pe_node (parents_get (parents (heap b it))) \<noteq> nil
        then segs @ [pe_name (parents_get (parents (heap b it)))] else segs)
     else Some (it, segs))"
  by (subst path_walk.simps) (simp only: Let_def)

lemma walk_acyclic:
  assumes "tree_ok b" "acyclic (down b)"
  shows "valid b a \<Longrightarrow> path_walk b a segs \<noteq> None"
proof (induction a arbitrary: segs rule: wfp_induct_rule[OF wf_down[OF assms]])
  case (1 a)
  let ?e = "parents_get (parents (heap b a))"
  show ?case
  proof (cases "a = root b \<or> pe_node ?e = nil")
    case True
    then show ?thesis using walk_step[of b a] walk_step[of b nil] by auto
  next
    case False
    have "?e \<in> pset b a" using newest_pset[OF assms(1) 1(2)] False by simp
    from pset_edge[OF assms(1) 1(2) this] 1(2) have "(pe_node ?e, a) \<in> down b" "valid b (pe_node ?e)"
      by (auto simp: down_def valid_def)
    from 1(1)[OF this] show ?thesis using walk_step[of b a segs] by auto
  qed
qed

text \<open>What the operations do to the edges keeps a tree without cycles one.\<close>

lemma acyclic_mono: "acyclic (down b) \<Longrightarrow> down b' \<subseteq> down b \<Longrightarrow> acyclic (down b')"
  by (rule acyclic_subset)

lemma down_shrinks: "shrinks b b' \<Longrightarrow> down b' \<subseteq> down b"
proof
  fix x assume s: "shrinks b b'" and x: "x \<in> down b'"
  obtain p c m where p: "x = (p, c)" "valid b' p" "c \<noteq> nil" "edge b' p m = c"
    using x by (auto simp: down_def)
  then have "edge b p m = c" using s unfolding shrinks_def by metis
  with p show "x \<in> down b" using shrinks_valid[OF s] by (auto simp: down_def)
qed

lemma down_cut: "down (cut_st p name c b) \<subseteq> down b"
  by (auto simp: down_def cut_edge split: if_splits)

lemma acyclic_link:
  assumes "acyclic (down b)" "down b' \<subseteq> insert (p, c) (down b)" "(c, p) \<notin> (down b)\<^sup>*"
  shows "acyclic (down b')"
proof (rule acyclic_subset[OF _ assms(2)])
  show "acyclic (insert (p, c) (down b))" using assms(1,3) by (simp add: acyclic_insert)
qed

lemma down_move:
  assumes "same_env b ((move_st p name q newName b)\<lparr>clock := clock b\<rparr>)"
  shows "down (move_st p name q newName b) \<subseteq> insert (q, edge b p name) (down b)"
proof
  fix x assume "x \<in> down (move_st p name q newName b)"
  moreover have "valid (move_st p name q newName b) a = valid b a" for a
    using assms by (simp add: same_env_def valid_def)
  ultimately obtain r c m where x: "x = (r, c)" "valid b r" "c \<noteq> nil" "edge (move_st p name q newName b) r m = c"
    by (auto simp: down_def)
  from x(3,4) have "c = edge b p name \<and> r = q \<or> edge b r m = c"
    unfolding move_edge by presburger
  with x(1-3) show "x \<in> insert (q, edge b p name) (down b)" by (auto simp: down_def)
qed

lemma down_added:
  assumes "added b p name i dir c b'"
  shows "down b' \<subseteq> insert (p, c) (down b)"
proof
  fix x assume "x \<in> down b'"
  then obtain q d m where x: "x = (q, d)" "valid b' q" "d \<noteq> nil" "edge b' q m = d" by (auto simp: down_def)
  show "x \<in> insert (p, c) (down b)"
  proof (cases "valid b q")
    case True
    then have "edge b' q m = (if q = p \<and> m = name then c else edge b q m)"
      using assms(1) by (simp add: added_def)
    with x True show ?thesis by (auto simp: down_def split: if_splits)
  next
    case False
    have "go_get (nodes b) i = nil \<and> q = c"
      using x(2) False assms by (auto simp: added_def valid_def split: if_splits)
    with added_new(1)[OF assms, of m] x(3,4) show ?thesis by simp
  qed
qed

section \<open>The paths of new and moved entries\<close>

text \<open>The path of an inode depends on the most recent parents of the directories above it only.\<close>

lemma named_above:
  assumes "tree_ok b"
  shows "named b a ns \<Longrightarrow> valid b a \<Longrightarrow> (root b, a) \<in> (down b)\<^sup>*"
proof (induction rule: named.induct)
  case (named_step a e ns)
  have "e \<in> pset b a" using newest_pset[OF assms named_step.prems] named_step.hyps by simp
  from pset_edge[OF assms named_step.prems this] named_step.IH named_step.prems
  have "(root b, pe_node e) \<in> (down b)\<^sup>*" "(pe_node e, a) \<in> down b" by (auto simp: down_def valid_def)
  then show ?case by simp
qed simp

lemma named_frame:
  assumes "tree_ok b" "root b' = root b"
  shows "named b a ns \<Longrightarrow> valid b a \<Longrightarrow>
    (\<And>x. valid b x \<Longrightarrow> (x, a) \<in> (down b)\<^sup>* \<Longrightarrow> parents_get (parents (heap b' x)) = parents_get (parents (heap b x))) \<Longrightarrow>
    named b' a ns"
proof (induction rule: named.induct)
  case named_root
  then show ?case using named.named_root[of b'] assms(2) by simp
next
  case (named_step a e ns)
  have "e \<in> pset b a" using newest_pset[OF assms(1) named_step.prems(1)] named_step.hyps by simp
  from pset_edge[OF assms(1) named_step.prems(1) this] named_step.prems(1)
  have d: "valid b (pe_node e)" "(pe_node e, a) \<in> down b" by (auto simp: down_def valid_def)
  have "named b' (pe_node e) ns"
    using named_step.IH d(1) named_step.prems(2) d(2) by (blast intro: rtrancl_into_rtrancl)
  then show ?case
    using named_step assms(2) by (intro named.named_step) auto
qed

lemma named_child:
  assumes "named b p ns" "c \<noteq> nil" "c \<noteq> root b" "p \<noteq> nil" "parents_get (parents (heap b c)) = pent name p"
  shows "named b c (ns @ [name])"
  using named_step[of c b "pent name p" ns] assms by simp

lemma added_named:
  assumes "tree_ok b" "valid b p" "named b p ns" "added b p name i dir c b'" "(c, p) \<notin> (down b)\<^sup>*"
  shows "named b' c (ns @ [name])"
proof (rule named_child)
  have r: "root b' = root b" using assms(4) by (simp add: added_def)
  show "named b' p ns"
  proof (rule named_frame[OF assms(1) r assms(3,2)])
    fix x assume "valid b x" "(x, p) \<in> (down b)\<^sup>*"
    with assms(4,5) show "parents_get (parents (heap b' x)) = parents_get (parents (heap b x))"
      by (cases "x = c") (auto simp: added_def)
  qed
  show "p \<noteq> nil" using assms(2) by (simp add: valid_def)
  show "c \<noteq> nil" "parents_get (parents (heap b' c)) = pent name p"
    using assms(4) by (auto simp: added_def valid_def)
  show "c \<noteq> root b'" using named_above[OF assms(1,3,2)] assms(5) r by auto
qed

lemma cut_opt_parents: "a \<noteq> c \<Longrightarrow> parents (heap (cut_opt p name c b) a) = parents (heap b a)"
  by (simp add: cut_opt_def cut_st_def)

lemma move_named:
  assumes "tree_ok b" "valid b p" "valid b q" "registered b q" "isDir (heap b q)"
    and "edge b p name \<noteq> nil" "named b q ns"
    and "acyclic (down b)" "(edge b p name, q) \<notin> (down b)\<^sup>*"
  shows "named (move_st p name q newName b) (edge b p name) (ns @ [newName])"
proof (rule named_child)
  let ?b = "move_st p name q newName b" and ?c = "edge b p name" and ?d = "edge b q newName"
  have "tree_ok b \<Longrightarrow> wf_upto {} b" by (simp add: tree_ok_def)
  note m = move_wf[OF this[OF assms(1)] assms(2-5), of name newName]
  have r: "root ?b = root b" using m(2) by (simp add: same_env_def)
  show "named ?b q ns"
  proof (rule named_frame[OF assms(1) r assms(7,3)])
    fix x assume x: "valid b x" "(x, q) \<in> (down b)\<^sup>*"
    then have "x \<noteq> ?c" using assms(9) by auto
    moreover have "x \<noteq> ?d"
    proof
      assume "x = ?d"
      then have "(q, x) \<in> down b" using assms(3) x(1) by (auto simp: down_def valid_def)
      with x(2) have "(q, q) \<in> (down b)\<^sup>+" by (simp add: rtrancl_into_trancl2)
      with assms(8) show False by (simp add: acyclic_def)
    qed
    ultimately show "parents_get (parents (heap ?b x)) = parents_get (parents (heap b x))"
      by (simp add: move_st_def Let_def link_opt_def link_parents cut_opt_parents)
  qed
  show "q \<noteq> nil" "?c \<noteq> nil" using assms(3,6) by (simp_all add: valid_def)
  show "parents_get (parents (heap ?b ?c)) = pent newName q"
    using assms(6) by (simp add: move_st_def Let_def link_opt_def link_newest)
  show "?c \<noteq> root ?b" using named_above[OF assms(1,7,3)] assms(9) r by auto
qed

text \<open>
  \<open>led b x a ns\<close>: the most recent parents lead from \<open>a\<close> up to \<open>x\<close>, over the names \<open>ns\<close>. A path is that of any
  inode on the way and the names below it, and it stays as long as the parents on the way do.
\<close>

inductive led :: "rawBridge \<Rightarrow> addr \<Rightarrow> addr \<Rightarrow> string list \<Rightarrow> bool" for b x where
  led_refl: "led b x x []"
| led_step: "a \<noteq> nil \<Longrightarrow> a \<noteq> x \<Longrightarrow> a \<noteq> root b \<Longrightarrow> parents_get (parents (heap b a)) = e \<Longrightarrow> pe_node e \<noteq> nil \<Longrightarrow>
    led b x (pe_node e) ns \<Longrightarrow> led b x a (ns @ [pe_name e])"

lemma named_led: "named b a ns \<Longrightarrow> led b (root b) a ns"
  by (induction rule: named.induct) (auto intro: led_refl led_step)

lemma led_named: "led b x a ms \<Longrightarrow> named b x ns \<Longrightarrow> named b a (ns @ ms)"
proof (induction rule: led.induct)
  case (led_step a e ms)
  then show ?case using named_step[of a b e "ns @ ms"] by simp
qed simp

lemma led_frame:
  assumes "root b' = root b"
  shows "led b x a ns \<Longrightarrow> (\<And>y ms. led b y a ms \<Longrightarrow> y \<noteq> x \<Longrightarrow>
      parents_get (parents (heap b' y)) = parents_get (parents (heap b y))) \<Longrightarrow> led b' x a ns"
proof (induction rule: led.induct)
  case led_refl
  show ?case by (rule led.led_refl)
next
  case (led_step a e ns)
  have "parents_get (parents (heap b' y)) = parents_get (parents (heap b y))"
    if "led b y (pe_node e) ms" "y \<noteq> x" for y ms
  proof (cases "y = a")
    case True
    then show ?thesis using led_step.prems[OF led.led_refl] that(2) by simp
  next
    case False
    then have "led b y a (ms @ [pe_name e])" using led_step.hyps that(1) by (intro led.led_step) auto
    then show ?thesis using led_step.prems that(2) by blast
  qed
  then have "led b' x (pe_node e) ns" by (rule led_step.IH)
  moreover have "parents_get (parents (heap b' a)) = e"
    using led_step.prems[OF led.led_refl] led_step.hyps by simp
  ultimately show ?case using led_step.hyps assms by (intro led.led_step) auto
qed

lemma led_nil: "led b nil a ns \<Longrightarrow> a = nil"
  by (induction rule: led.induct) auto

text \<open>A move takes along what is below the moved inode, and leaves the rest where it is.\<close>

lemma move_newest:
  "a \<noteq> edge b p name \<Longrightarrow> a \<noteq> edge b q newName \<Longrightarrow>
    parents_get (parents (heap (move_st p name q newName b) a)) = parents_get (parents (heap b a))"
  by (simp add: move_st_def Let_def link_opt_def link_parents cut_opt_parents)

lemma move_below:
  assumes "root (move_st p name q newName b) = root b"
    and "named (move_st p name q newName b) (edge b p name) ns"
    and "led b (edge b p name) a ms" "\<And>ks. \<not> led b (edge b q newName) a ks"
  shows "named (move_st p name q newName b) a (ns @ ms)"
proof -
  have "led (move_st p name q newName b) (edge b p name) a ms"
    by (rule led_frame[OF assms(1,3)]) (rule move_newest, (use assms(4) in blast)+)
  then show ?thesis using assms(2) by (rule led_named)
qed

lemma move_beside:
  assumes "root (move_st p name q newName b) = root b" "named b a ns"
    and "\<And>ks. \<not> led b (edge b p name) a ks" "\<And>ks. \<not> led b (edge b q newName) a ks"
  shows "named (move_st p name q newName b) a ns"
proof -
  have "led (move_st p name q newName b) (root b) a ns"
    by (rule led_frame[OF assms(1) named_led[OF assms(2)]]) (rule move_newest, (use assms(3,4) in blast)+)
  then show ?thesis using led_named[OF _ named_root[of "move_st p name q newName b"]] assms(1) by simp
qed

section \<open>Different inodes have different paths\<close>

definition plain :: "string \<Rightarrow> bool" where
  "plain m \<longleftrightarrow> m \<noteq> '''' \<and> CHR ''/'' \<notin> set m"

fun split_path :: "string \<Rightarrow> string list" where
  "split_path [] = [[]]"
| "split_path (c # cs) =
    (if c = CHR ''/'' then [] # split_path cs else (c # hd (split_path cs)) # tl (split_path cs))"

lemma split_path_ne [simp]: "split_path s \<noteq> []"
  by (cases s rule: split_path.cases) auto

lemma split_plain: "CHR ''/'' \<notin> set m \<Longrightarrow> split_path m = [m]"
  by (induction m) auto

lemma split_plain_slash: "CHR ''/'' \<notin> set m \<Longrightarrow> split_path (m @ CHR ''/'' # s) = m # split_path s"
  by (induction m) auto

lemma split_join: "xs \<noteq> [] \<Longrightarrow> \<forall>x \<in> set xs. plain x \<Longrightarrow> split_path (join ''/'' xs) = xs"
  by (induction "''/''" xs rule: join.induct) (auto simp: plain_def split_plain split_plain_slash)

lemma join_eq_Nil: "\<forall>x \<in> set xs. plain x \<Longrightarrow> join ''/'' xs = '''' \<Longrightarrow> xs = []"
  by (induction "''/''" xs rule: join.induct) (auto simp: plain_def)

lemma join_inj:
  assumes "\<forall>x \<in> set xs. plain x" "\<forall>x \<in> set ys. plain x" "join ''/'' xs = join ''/'' ys"
  shows "xs = ys"
proof (cases "xs = [] \<or> ys = []")
  case True
  then show ?thesis
  proof
    assume "xs = []"
    with assms show ?thesis using join_eq_Nil[of ys] by simp
  next
    assume "ys = []"
    with assms show ?thesis using join_eq_Nil[of xs] by simp
  qed
next
  case False
  with assms show ?thesis using split_join[of xs] split_join[of ys] by metis
qed

text \<open>The names in the directories are those of the kernel and of \<open>ReadDirPlus\<close>.\<close>

definition names_plain :: "rawBridge \<Rightarrow> bool" where
  "names_plain b \<longleftrightarrow> (\<forall>p m. valid b p \<longrightarrow> edge b p m \<noteq> nil \<longrightarrow> plain m)"

lemma named_plain:
  assumes "tree_ok b" "names_plain b"
  shows "named b a ns \<Longrightarrow> valid b a \<Longrightarrow> \<forall>x \<in> set ns. plain x"
proof (induction rule: named.induct)
  case (named_step a e ns)
  have "e \<in> pset b a" using newest_pset[OF assms(1) named_step.prems] named_step.hyps by simp
  from pset_edge[OF assms(1) named_step.prems this] named_step.prems
  have "valid b (pe_node e)" "edge b (pe_node e) (pe_name e) \<noteq> nil" by (auto simp: valid_def)
  then show ?case using named_step.IH assms(2) by (auto simp: names_plain_def)
qed simp

end
