(* ===== verification/Files.thy ===== *)
theory Files
  imports Paths
begin

text \<open>
  The table of open files (\<open>file.go\<close>): \<open>registerFile\<close> gives out a handle, the one freed
  last or else a new one at the end of the table, and \<open>unregisterFile\<close> takes it back. The
  contract is the locale \<open>handle_table\<close>: a handle that is given out is not in use and not
  0, and the table is a map from the handles in use to their entries.
\<close>

section \<open>The operations\<close>

definition set_file :: "u32 \<Rightarrow> fileEntry \<Rightarrow> (rawBridge, unit) M" where
  "set_file fh e =
    bindM (getsM (\<lambda>b. length (files b))) (\<lambda>k.
      if k \<le> unat fh then fail Panic_index
      else modifyM (\<lambda>b. b\<lparr>files := (files b)[unat fh := e]\<rparr>))"

definition registerFile :: "Owner \<Rightarrow> string \<Rightarrow> u32 \<Rightarrow> DirEntry list option \<Rightarrow> (rawBridge, u32) M" where
  "registerFile opener path uFh stream =
    bindM (getsM freeFiles) (\<lambda>free.
    bindM (if 0 < length free then
             (let fh = free ! (length free - 1)
              in bindM (modifyM (\<lambda>b. b\<lparr>freeFiles := take (length free - 1) free\<rparr>)) (\<lambda>_. ret fh))
           else
             bindM (getsM (\<lambda>b. word_of_nat (length (files b)))) (\<lambda>fh.
             bindM (modifyM (\<lambda>b. b\<lparr>files := files b @ [fileEntry_zero]\<rparr>)) (\<lambda>_. ret fh))) (\<lambda>fh.
    bindM (set_file fh \<lparr>fe_opener = opener, fe_path = path, fe_uFh = uFh, fe_stream = stream\<rparr>) (\<lambda>_.
    ret fh)))"

definition unregisterFile :: "u32 \<Rightarrow> (rawBridge, unit) M" where
  "unregisterFile fh =
    (if fh = 0 then ret ()
     else bindM (set_file fh fileEntry_zero) (\<lambda>_.
          modifyM (\<lambda>b. b\<lparr>freeFiles := freeFiles b @ [fh]\<rparr>)))"

section \<open>The contract of a table of handles\<close>

locale handle_table =
  fixes good :: "'s \<Rightarrow> bool"
    and room :: "'s \<Rightarrow> bool"
    and table :: "'s \<Rightarrow> 'h \<Rightarrow> 'e option"
    and none :: 'h
    and register :: "'e \<Rightarrow> 's \<Rightarrow> 'h \<times> 's"
    and release :: "'h \<Rightarrow> 's \<Rightarrow> 's"
  assumes none_unused: "good s \<Longrightarrow> table s none = None"
    and register_good: "good s \<Longrightarrow> room s \<Longrightarrow> good (snd (register e s))"
    and register_fresh: "good s \<Longrightarrow> room s \<Longrightarrow> table s (fst (register e s)) = None"
    and register_not_none: "good s \<Longrightarrow> room s \<Longrightarrow> fst (register e s) \<noteq> none"
    and register_table: "good s \<Longrightarrow> room s \<Longrightarrow> table (snd (register e s)) = (table s)(fst (register e s) \<mapsto> e)"
    and release_good: "good s \<Longrightarrow> table s h \<noteq> None \<Longrightarrow> good (release h s)"
    and release_table: "good s \<Longrightarrow> table s h \<noteq> None \<Longrightarrow> table (release h s) = (table s)(h := None)"
    and release_room: "good s \<Longrightarrow> table s h \<noteq> None \<Longrightarrow> room (release h s)"
begin

text \<open>An entry stays until its own handle is released, and then its handle is free again.\<close>

lemma register_keeps:
  "good s \<Longrightarrow> room s \<Longrightarrow> table s h = Some x \<Longrightarrow> table (snd (register e s)) h = Some x"
  using register_fresh[of s e] by (auto simp: register_table)

lemma register_release:
  assumes "good s" "room s"
  shows "table (release (fst (register e s)) (snd (register e s))) = table s"
proof -
  have t: "table (snd (register e s)) = (table s)(fst (register e s) \<mapsto> e)"
    using register_table[OF assms] .
  then have "table (release (fst (register e s)) (snd (register e s))) =
      (table (snd (register e s)))(fst (register e s) := None)"
    by (intro release_table register_good assms) simp
  with t register_fresh[OF assms, of e] show ?thesis by (auto simp: fun_eq_iff)
qed

lemma registers_differ:
  assumes "good s" "room s" "room (snd (register e s))"
  shows "fst (register e' (snd (register e s))) \<noteq> fst (register e s)"
  using register_fresh[OF register_good[OF assms(1,2)] assms(3), of e'] register_table[OF assms(1,2), of e]
  by auto

lemma released_room: "good s \<Longrightarrow> table s h \<noteq> None \<Longrightarrow> room (release h s) \<and> good (release h s)"
  by (simp add: release_room release_good)

end

section \<open>The table of open files\<close>

definition files_ok :: "rawBridge \<Rightarrow> bool" where
  "files_ok b \<longleftrightarrow>
     files b \<noteq> [] \<and> files b ! 0 = fileEntry_zero \<and> length (files b) \<le> 2 ^ 32 \<and> distinct (freeFiles b) \<and>
     (\<forall>h \<in> set (freeFiles b). h \<noteq> 0 \<and> unat h < length (files b) \<and> files b ! unat h = fileEntry_zero)"

definition files_room :: "rawBridge \<Rightarrow> bool" where
  "files_room b \<longleftrightarrow> freeFiles b \<noteq> [] \<or> length (files b) < 2 ^ 32"

definition open_files :: "rawBridge \<Rightarrow> u32 \<Rightarrow> fileEntry option" where
  "open_files b h =
    (if h \<noteq> 0 \<and> unat h < length (files b) \<and> h \<notin> set (freeFiles b) then Some (files b ! unat h) else None)"

text \<open>The operations as functions on states, and the handle \<open>registerFile\<close> gives out.\<close>

definition next_handle :: "rawBridge \<Rightarrow> u32" where
  "next_handle b = (if freeFiles b \<noteq> [] then last (freeFiles b) else word_of_nat (length (files b)))"

definition register_st :: "fileEntry \<Rightarrow> rawBridge \<Rightarrow> rawBridge" where
  "register_st e b =
    (if freeFiles b \<noteq> []
     then b\<lparr>freeFiles := butlast (freeFiles b), files := (files b)[unat (last (freeFiles b)) := e]\<rparr>
     else b\<lparr>files := (files b @ [fileEntry_zero])[unat (next_handle b) := e]\<rparr>)"

definition release_st :: "u32 \<Rightarrow> rawBridge \<Rightarrow> rawBridge" where
  "release_st h b = b\<lparr>files := (files b)[unat h := fileEntry_zero], freeFiles := freeFiles b @ [h]\<rparr>"

lemma set_file_eq:
  "set_file fh e b =
    (if length (files b) \<le> unat fh then Inl Panic_index
     else Inr ((), b\<lparr>files := (files b)[unat fh := e]\<rparr>))"
  by (simp add: set_file_def monad_simps)

lemma unat_length_le: "unat (word_of_nat (length xs) :: u32) \<le> length xs"
  by (simp add: unat_of_nat)

lemma registerFile_eq:
  assumes "files_ok b"
  shows "registerFile opener path uFh stream b =
    Inr (next_handle b, register_st \<lparr>fe_opener = opener, fe_path = path, fe_uFh = uFh, fe_stream = stream\<rparr> b)"
proof (cases "freeFiles b = []")
  case True
  have "unat (word_of_nat (length (files b)) :: u32) < Suc (length (files b))"
    using unat_length_le[of "files b"] by simp
  with True show ?thesis
    by (simp add: registerFile_def getsM_def modifyM_def bindM_def ret_def set_file_eq next_handle_def register_st_def)
next
  case False
  have l: "freeFiles b ! (length (freeFiles b) - 1) = last (freeFiles b)"
    "take (length (freeFiles b) - 1) (freeFiles b) = butlast (freeFiles b)"
    using False by (simp_all add: last_conv_nth butlast_conv_take)
  have "unat (last (freeFiles b)) < length (files b)"
    using assms False by (simp add: files_ok_def)
  with False l show ?thesis
    by (simp add: registerFile_def getsM_def modifyM_def bindM_def ret_def set_file_eq next_handle_def
        register_st_def Let_def)
qed

lemma unregisterFile_eq:
  "unregisterFile h b =
    (if h = 0 then Inr ((), b) else if length (files b) \<le> unat h then Inl Panic_index
     else Inr ((), release_st h b))"
  by (simp add: unregisterFile_def bindM_def ret_def set_file_eq modifyM_def release_st_def)

lemma length_unat: "length (files b) < 2 ^ 32 \<Longrightarrow> unat (word_of_nat (length (files b)) :: u32) = length (files b)"
  by (simp add: unat_of_nat)

lemma next_handle_index:
  "files_ok b \<Longrightarrow> files_room b \<Longrightarrow> freeFiles b = [] \<Longrightarrow> unat (next_handle b) = length (files b)"
  by (simp add: next_handle_def files_room_def length_unat)

lemma next_handle_fresh:
  assumes "files_ok b" "files_room b"
  shows "next_handle b \<noteq> 0" "open_files b (next_handle b) = None"
proof -
  show "next_handle b \<noteq> 0"
  proof (cases "freeFiles b = []")
    case True
    then have "0 < unat (next_handle b)"
      using assms next_handle_index[OF assms] by (simp add: files_ok_def)
    then show ?thesis by auto
  next
    case False
    then show ?thesis using assms(1) by (simp add: next_handle_def files_ok_def)
  qed
  show "open_files b (next_handle b) = None"
    using next_handle_index[OF assms] by (cases "freeFiles b = []") (simp_all add: open_files_def next_handle_def)
qed

lemma unat_inj: "unat a = unat b \<longleftrightarrow> a = (b :: u32)"
  by (simp add: word_unat_eq_iff)

lemma register_st_ok:
  assumes "files_ok b" "files_room b"
  shows "files_ok (register_st e b)"
proof (cases "freeFiles b = []")
  case True
  then show ?thesis
    using assms next_handle_index[OF assms True]
    by (simp add: files_ok_def register_st_def files_room_def nth_append list_update_append)
next
  case False
  let ?l = "last (freeFiles b)"
  have l: "?l \<noteq> 0" "?l \<notin> set (butlast (freeFiles b))"
    using assms False append_butlast_last_id[OF False] distinct_append[of "butlast (freeFiles b)" "[?l]"]
    by (auto simp: files_ok_def)
  have "h \<in> set (freeFiles b)" "h \<noteq> ?l" if "h \<in> set (butlast (freeFiles b))" for h
    using that l(2) by (auto dest: in_set_butlastD)
  moreover have "unat ?l \<noteq> 0" using l(1) by (simp add: unat_eq_0)
  ultimately show ?thesis
    using assms False
    by (auto simp: files_ok_def register_st_def nth_list_update distinct_butlast unat_inj)
qed

lemma register_st_table:
  assumes "files_ok b" "files_room b"
  shows "open_files (register_st e b) = (open_files b)(next_handle b \<mapsto> e)"
proof
  fix h
  note f = next_handle_fresh[OF assms]
  show "open_files (register_st e b) h = ((open_files b)(next_handle b \<mapsto> e)) h"
  proof (cases "freeFiles b = []")
    case True
    have i: "unat (next_handle b) = length (files b)" using next_handle_index[OF assms True] .
    then have "h = next_handle b \<longleftrightarrow> unat h = length (files b)" by (metis unat_inj)
    with True i f(1) show ?thesis
      by (auto simp: open_files_def register_st_def nth_append list_update_append)
  next
    case False
    let ?l = "last (freeFiles b)"
    have b: "butlast (freeFiles b) @ [?l] = freeFiles b" using False by simp
    have nh: "next_handle b = ?l" using False by (simp add: next_handle_def)
    have l: "?l \<notin> set (butlast (freeFiles b))" "unat ?l < length (files b)"
      using assms False b distinct_append[of "butlast (freeFiles b)" "[?l]"] by (auto simp: files_ok_def)
    have s: "set (freeFiles b) = insert ?l (set (butlast (freeFiles b)))"
      by (metis b list.set(1) list.simps(15) set_append Un_insert_right sup_bot_right)
    show ?thesis
      using False f(1) l by (auto simp: open_files_def register_st_def nh s nth_list_update unat_inj)
  qed
qed

lemma open_filesD:
  assumes "open_files b h \<noteq> None"
  shows "h \<noteq> 0" "unat h < length (files b)" "h \<notin> set (freeFiles b)"
  using assms by (auto simp: open_files_def split: if_splits)

lemma release_st_ok:
  assumes "files_ok b" "open_files b h \<noteq> None"
  shows "files_ok (release_st h b)"
proof -
  note h = open_filesD[OF assms(2)]
  have "unat h \<noteq> 0" using h(1) by (simp add: unat_eq_0)
  then show ?thesis using assms(1) h by (auto simp: files_ok_def release_st_def nth_list_update)
qed

lemma release_st_table:
  assumes "files_ok b" "open_files b h \<noteq> None"
  shows "open_files (release_st h b) = (open_files b)(h := None)"
  using open_filesD[OF assms(2)]
  by (auto simp: open_files_def release_st_def fun_eq_iff nth_list_update unat_inj)

interpretation ft: handle_table files_ok files_room open_files "0 :: u32"
  "\<lambda>e b. (next_handle b, register_st e b)" release_st
proof unfold_locales
  show "open_files s 0 = None" for s by (simp add: open_files_def)
  show "files_room (release_st h s)" for s h by (simp add: files_room_def release_st_def)
qed (simp_all add: register_st_ok next_handle_fresh register_st_table release_st_ok release_st_table)

lemma register_frame [simp]:
  "options (register_st e b) = options b" "root (register_st e b) = root b" "nodes (register_st e b) = nodes b"
  "nodeCountHigh (register_st e b) = nodeCountHigh b" "heap (register_st e b) = heap b"
  "hnext (register_st e b) = hnext b" "clock (register_st e b) = clock b"
  by (simp_all add: register_st_def)

lemma release_frame [simp]:
  "options (release_st h b) = options b" "root (release_st h b) = root b" "nodes (release_st h b) = nodes b"
  "nodeCountHigh (release_st h b) = nodeCountHigh b" "heap (release_st h b) = heap b"
  "hnext (release_st h b) = hnext b" "clock (release_st h b) = clock b"
  by (simp_all add: release_st_def)

text \<open>The handle freed last is the next to be given out.\<close>

lemma released_next: "next_handle (release_st h b) = h"
  by (simp add: next_handle_def release_st_def)

text \<open>With no handle left the counter wraps: the handle is 0, \<open>no file\<close>, and its entry is lost.\<close>

lemma register_full:
  assumes "files_ok b" "\<not> files_room b"
  shows "next_handle b = 0" "files (register_st e b) ! 0 = e"
  using assms by (auto simp: next_handle_def register_st_def files_room_def files_ok_def nth_append)

section \<open>Theorems on open files\<close>

text \<open>
  \<open>registerFile\<close> gives out a handle that is not 0 and not in use, and enters the file under it; nothing
  else in the table changes.
\<close>

theorem registerFile_fresh:
  assumes "files_ok b" "files_room b"
  shows "\<exists>h b'. registerFile opener path uFh stream b = Inr (h, b') \<and> h \<noteq> 0 \<and> open_files b h = None \<and>
    open_files b' = (open_files b)(h \<mapsto> \<lparr>fe_opener = opener, fe_path = path, fe_uFh = uFh, fe_stream = stream\<rparr>) \<and>
    files_ok b'"
  using registerFile_eq[OF assms(1)] ft.register_not_none[OF assms] ft.register_fresh[OF assms]
    ft.register_table[OF assms] ft.register_good[OF assms] by auto

definition exfiles :: rawBridge where
  "exfiles = (bridge_blank Options_default (\<lambda>_. 0))\<lparr>files := [fileEntry_zero]\<rparr>"

lemma exfiles_ok: "files_ok exfiles" "files_room exfiles" "open_files exfiles = (\<lambda>_. None)"
  by (simp_all add: exfiles_def files_ok_def files_room_def bridge_blank_def open_files_def fun_eq_iff unat_eq_0)

theorem registerFile_fresh_witness:
  "\<exists>h b'. registerFile (ca_Owner Caller_zero) ''a'' 7 None exfiles = Inr (h, b') \<and> h \<noteq> 0 \<and>
     map_option fe_uFh (open_files b' h) = Some 7"
  using registerFile_fresh[OF exfiles_ok(1,2), of "ca_Owner Caller_zero" "''a''" 7 None] by fastforce

text \<open>
  releasing a handle gives back the table that was there before it was registered, and the handle is the
  next one to be given out.
\<close>

theorem unregisterFile_inverse:
  assumes "files_ok b" "files_room b"
  shows "\<exists>h b1 b2. registerFile opener path uFh stream b = Inr (h, b1) \<and> unregisterFile h b1 = Inr ((), b2) \<and>
    open_files b2 = open_files b \<and> files_ok b2 \<and> next_handle b2 = h"
proof -
  let ?e = "\<lparr>fe_opener = opener, fe_path = path, fe_uFh = uFh, fe_stream = stream\<rparr>"
  let ?h = "next_handle b" and ?b = "register_st ?e b"
  have o: "open_files ?b ?h \<noteq> None" using ft.register_table[OF assms, of ?e] by simp
  from open_filesD[OF o] have "unregisterFile ?h ?b = Inr ((), release_st ?h ?b)" by (simp add: unregisterFile_eq)
  moreover have "open_files (release_st ?h ?b) = open_files b" using ft.register_release[OF assms, of ?e] by simp
  moreover have "files_ok (release_st ?h ?b)" using release_st_ok[OF _ o] ft.register_good[OF assms, of ?e] by simp
  ultimately show ?thesis using registerFile_eq[OF assms(1)] released_next by blast
qed

theorem unregisterFile_inverse_witness:
  "\<exists>h b1 b2. registerFile (ca_Owner Caller_zero) ''a'' 7 None exfiles = Inr (h, b1) \<and> unregisterFile h b1 = Inr ((), b2) \<and>
     open_files b2 = (\<lambda>_. None)"
  using unregisterFile_inverse[OF exfiles_ok(1,2), of "ca_Owner Caller_zero" "''a''" 7 None] exfiles_ok(3) by auto

text \<open>
  With 2 ^ 32 files open the counter wraps: \<open>registerFile\<close> gives out the handle 0, which stands for no
  file, and the file is not in the table of open files.
\<close>

theorem registerFile_wraps:
  assumes "files_ok b" "\<not> files_room b"
  shows "\<exists>b'. registerFile opener path uFh stream b = Inr (0, b') \<and> fe_path (files b' ! 0) = path \<and>
    open_files b' 0 = None"
proof -
  note r = register_full[OF assms]
  from registerFile_eq[OF assms(1)] r(1) show ?thesis by (auto simp: r(2) open_files_def)
qed

theorem registerFile_wraps_witness:
  "\<exists>b b'. registerFile (ca_Owner Caller_zero) ''a'' 7 None b = Inr (0, b') \<and> length (files b) = 2 ^ 32"
proof -
  let ?b = "(bridge_blank Options_default (\<lambda>_. 0))\<lparr>files := replicate (2 ^ 32) fileEntry_zero\<rparr>"
  have "files_ok ?b" "\<not> files_room ?b" "length (files ?b) = 2 ^ 32"
    by (simp_all add: files_ok_def files_room_def bridge_blank_def)
  with registerFile_wraps[of ?b "ca_Owner Caller_zero" "''a''" 7 None] show ?thesis by blast
qed

end
