(* ===== verification/Attributes.thy ===== *)
theory Attributes
  imports Api
begin

text \<open>
  How the bridge completes the attributes a file system reports: default
  permissions and owner (\<open>setAttrInner\<close> and its callers in \<open>inode.go\<close>), block
  counts (\<open>setBlocks\<close> in \<open>file_linux.go\<close> and \<open>file_darwin.go\<close>), and timeouts.
\<close>

section \<open>Definitions\<close>

definition setBlocks_linux :: "Attr \<Rightarrow> Attr" where
  "setBlocks_linux out =
    (if 0 < at_Blksize out then out
     else let out1 = out\<lparr>at_Blksize := 4096\<rparr>;
              pages = (at_Size out1 + 4095) div 4096
          in out1\<lparr>at_Blocks := pages * 8\<rparr>)"

definition setBlocks_darwin :: "Attr \<Rightarrow> Attr" where
  "setBlocks_darwin out = out"

definition setBlocks :: "goos \<Rightarrow> Attr \<Rightarrow> Attr" where
  "setBlocks os = (case os of Linux \<Rightarrow> setBlocks_linux | Darwin \<Rightarrow> setBlocks_darwin)"

text \<open>The octal constants \<open>07777\<close>, \<open>0644\<close> and \<open>0111\<close> are 4095, 420 and 73.\<close>

definition setAttrInner :: "goos \<Rightarrow> Options \<Rightarrow> Attr \<Rightarrow> Attr" where
  "setAttrInner os opts out =
    (let out1 =
           (if \<not> op_NullPermissions opts \<and> at_Mode out AND 4095 = 0 then
              let out0 = out\<lparr>at_Mode := at_Mode out OR 420\<rparr>
              in (if at_Mode out0 AND S_IFDIR \<noteq> 0
                  then out0\<lparr>at_Mode := at_Mode out0 OR 73\<rparr> else out0)
            else out);
         out2 = (if op_UID opts \<noteq> 0 \<and> at_Uid out1 = 0 then out1\<lparr>at_Uid := op_UID opts\<rparr> else out1);
         out3 = (if op_GID opts \<noteq> 0 \<and> at_Gid out2 = 0 then out2\<lparr>at_Gid := op_GID opts\<rparr> else out2)
     in setBlocks os out3)"

definition setAttr :: "goos \<Rightarrow> Options \<Rightarrow> AttrOut \<Rightarrow> AttrOut" where
  "setAttr os opts out = out\<lparr>ao_Attr := setAttrInner os opts (ao_Attr out)\<rparr>"

definition setAttrTimeout :: "'d fuselib \<Rightarrow> Options \<Rightarrow> AttrOut \<Rightarrow> AttrOut" where
  "setAttrTimeout lib opts out =
    (case op_AttrTimeout opts of Some t \<Rightarrow> lib_AttrOut_SetTimeout lib t out | None \<Rightarrow> out)"

text \<open>\<open>setEntryOut\<close> gets the number of the inode; \<open>out.Ino\<close> is a field of \<open>out.Attr\<close>.\<close>

definition setEntryOut :: "goos \<Rightarrow> Options \<Rightarrow> u64 \<Rightarrow> EntryOut \<Rightarrow> EntryOut" where
  "setEntryOut os opts i out =
    (let out1 = out\<lparr>eo_NodeId := i\<rparr>;
         out2 = out1\<lparr>eo_Attr := (eo_Attr out1)\<lparr>at_Ino := i\<rparr>\<rparr>;
         out3 = out2\<lparr>eo_Generation := 1\<rparr>
     in out3\<lparr>eo_Attr := setAttrInner os opts (eo_Attr out3)\<rparr>)"

definition setEntryOutTimeout :: "'d fuselib \<Rightarrow> Options \<Rightarrow> EntryOut \<Rightarrow> EntryOut" where
  "setEntryOutTimeout lib opts out =
    (let out1 = (case op_AttrTimeout opts of Some t \<Rightarrow> lib_EntryOut_SetAttrTimeout lib t out | None \<Rightarrow> out)
     in (case op_EntryTimeout opts of Some t \<Rightarrow> lib_EntryOut_SetEntryTimeout lib t out1 | None \<Rightarrow> out1))"

section \<open>Block counts\<close>

text \<open>The size, the owner and the mode pass unchanged through \<open>setBlocks\<close>.\<close>

lemma setBlocks_frame [simp]:
  "at_Ino (setBlocks os a) = at_Ino a" "at_Size (setBlocks os a) = at_Size a"
  "at_Mode (setBlocks os a) = at_Mode a" "at_Uid (setBlocks os a) = at_Uid a"
  "at_Gid (setBlocks os a) = at_Gid a"
  by (simp_all add: setBlocks_def setBlocks_linux_def setBlocks_darwin_def Let_def split: goos.split)

lemma setBlocks_linux_keep: "at_Blksize a \<noteq> 0 \<Longrightarrow> setBlocks_linux a = a"
  by (simp add: setBlocks_linux_def word_gt_0)

lemma setBlocks_idem: "setBlocks os (setBlocks os a) = setBlocks os a"
  by (simp add: setBlocks_def setBlocks_linux_def setBlocks_darwin_def Let_def split: goos.split)

lemma unat_pages:
  assumes "unat (sz :: u64) < 2 ^ 64 - 4095"
  shows "unat ((sz + 4095) div 4096 * 8) = (unat sz + 4095) div 4096 * 8"
proof -
  have s: "unat (sz + 4095) = unat sz + 4095"
    using assms by (subst unat_add_lem[THEN iffD1]) simp_all
  have d: "unat ((sz + 4095) div 4096) = (unat sz + 4095) div 4096"
    by (simp add: unat_div s)
  have "(unat sz + 4095) div 4096 * 8 < 2 ^ 64" using assms by simp
  then show ?thesis by (subst unat_mult_lem[THEN iffD1]) (simp_all add: d)
qed

text \<open>
  512-byte blocks: enough for the size, a whole number of 4096-byte pages, and no
  page more than needed, as long as the sum in the code does not wrap around.
\<close>

lemma setBlocks_linux_blocks:
  assumes "at_Blksize a = 0" "unat (at_Size a) < 2 ^ 64 - 4095"
  shows "unat (at_Blocks (setBlocks_linux a)) = 8 * ((unat (at_Size a) + 4095) div 4096)"
    and "unat (at_Size a) \<le> 512 * unat (at_Blocks (setBlocks_linux a))"
    and "512 * unat (at_Blocks (setBlocks_linux a)) < unat (at_Size a) + 4096"
proof -
  have b: "unat (at_Blocks (setBlocks_linux a)) = (unat (at_Size a) + 4095) div 4096 * 8"
    using unat_pages[OF assms(2)] assms(1) by (simp add: setBlocks_linux_def)
  then show "unat (at_Blocks (setBlocks_linux a)) = 8 * ((unat (at_Size a) + 4095) div 4096)" by simp
  have r: "(unat (at_Size a) + 4095) div 4096 * 4096 + (unat (at_Size a) + 4095) mod 4096
      = unat (at_Size a) + 4095"
    by (rule div_mult_mod_eq)
  have "(unat (at_Size a) + 4095) mod 4096 < 4096" by simp
  with r b show "unat (at_Size a) \<le> 512 * unat (at_Blocks (setBlocks_linux a))"
    and "512 * unat (at_Blocks (setBlocks_linux a)) < unat (at_Size a) + 4096"
    by linarith+
qed

section \<open>Permissions and owner\<close>

lemma setAttrInner_frame [simp]:
  "at_Ino (setAttrInner os opts a) = at_Ino a" "at_Size (setAttrInner os opts a) = at_Size a"
  by (simp_all add: setAttrInner_def Let_def)

lemma setAttrInner_Uid:
  "at_Uid (setAttrInner os opts a) = (if at_Uid a = 0 then op_UID opts else at_Uid a)"
  by (auto simp: setAttrInner_def Let_def)

lemma setAttrInner_Gid:
  "at_Gid (setAttrInner os opts a) = (if at_Gid a = 0 then op_GID opts else at_Gid a)"
  by (auto simp: setAttrInner_def Let_def)

lemma or_S_IFDIR: "((m :: u32) OR 420) AND S_IFDIR = m AND S_IFDIR"
  by (simp add: S_IFDIR_def bit.conj_disj_distrib2)

lemma or_default_modes: "((m :: u32) OR 420) OR 73 = m OR 493"
  by (simp add: or.assoc)

lemma setAttrInner_Mode:
  "at_Mode (setAttrInner os opts a) =
    (if op_NullPermissions opts \<or> at_Mode a AND 4095 \<noteq> 0 then at_Mode a
     else if at_Mode a AND S_IFDIR \<noteq> 0 then at_Mode a OR 493 else at_Mode a OR 420)"
  by (simp add: setAttrInner_def Let_def or_S_IFDIR or_default_modes)

section \<open>Theorems on attributes\<close>

text \<open>
  C36: on Linux a file system that reports no block size gets blocks of 512 bytes that cover the size, whole
  pages of them and less than one page too many, for all sizes at which the sum does not wrap around.
\<close>

theorem setBlocks_bounds:
  assumes "at_Blksize a = 0" "unat (at_Size a) < 2 ^ 64 - 4095"
  shows "at_Blksize (setBlocks Linux a) = 4096 \<and>
    unat (at_Size a) \<le> 512 * unat (at_Blocks (setBlocks Linux a)) \<and>
    512 * unat (at_Blocks (setBlocks Linux a)) < unat (at_Size a) + 4096 \<and>
    8 dvd unat (at_Blocks (setBlocks Linux a))"
  using setBlocks_linux_blocks[OF assms] assms(1) by (simp add: setBlocks_def setBlocks_linux_def Let_def)

definition exattr :: Attr where
  "exattr = \<lparr>at_Ino = 2, at_Size = 5000, at_Blocks = 0, at_Mode = 0x6000, at_Uid = 0, at_Gid = 0, at_Blksize = 0\<rparr>"

theorem setBlocks_bounds_witness:
  "unat (at_Size exattr) \<le> 512 * unat (at_Blocks (setBlocks Linux exattr))"
  using setBlocks_bounds[of exattr] by (simp add: exattr_def)

text \<open>Near the end of the range of sizes the sum wraps around, and a file of 2 ^ 64 - 1 bytes gets no blocks.\<close>

theorem setBlocks_wraps:
  "at_Blocks (setBlocks Linux (exattr\<lparr>at_Size := - 1\<rparr>)) = 0"
  by code_simp

text \<open>
  \<open>setAttrInner\<close> fills in what the file system has left out and nothing else: permissions when there are
  none and the options do not forbid it, the owner and the group of the options when they are 0.
\<close>

theorem setAttrInner_defaults:
  "at_Ino (setAttrInner os opts a) = at_Ino a \<and> at_Size (setAttrInner os opts a) = at_Size a \<and>
   at_Uid (setAttrInner os opts a) = (if at_Uid a = 0 then op_UID opts else at_Uid a) \<and>
   at_Gid (setAttrInner os opts a) = (if at_Gid a = 0 then op_GID opts else at_Gid a) \<and>
   at_Mode (setAttrInner os opts a) =
     (if at_Mode a AND 0xFFF = 0 \<and> \<not> op_NullPermissions opts
      then at_Mode a OR (if at_Mode a AND S_IFDIR = 0 then 0x1A4 else 0x1ED) else at_Mode a)"
  by (simp add: setAttrInner_Uid setAttrInner_Gid setAttrInner_Mode)

text \<open>
  The test for directories looks at one bit of the file type: a block device or a socket without
  permissions gets those of a directory, the execute bits included.
\<close>

theorem setAttrInner_device:
  assumes "at_Mode a = 0x6000 \<or> at_Mode a = 0xC000" "\<not> op_NullPermissions opts"
  shows "at_Mode (setAttrInner os opts a) = at_Mode a OR 0x1ED"
  using assms by (elim disjE) (simp_all add: setAttrInner_Mode S_IFDIR_def)

theorem setAttrInner_device_witness:
  "at_Mode (setAttrInner Linux Options_default exattr) = 0x61ED"
  using setAttrInner_device[of exattr Options_default Linux] by (simp add: exattr_def Options_default_def)

end
