(* ===== verification/Bridge.thy ===== *)
theory Bridge
  imports Files Attributes
begin

text \<open>
  The requests of the kernel (\<open>bridge.go\<close>): one definition for each method of
  \<open>rawBridge\<close> that go-fuse calls, over the state of the bridge, the world of the file
  system and the pool of contexts. An argument that the code fills in through a pointer
  (\<open>out\<close>, \<open>dest\<close>) is passed in and returned; a status is returned, a panic is an abort.
\<close>

section \<open>The state and what acts on its parts\<close>

record 'w sys =
  sy_bridge :: rawBridge
  sy_world :: 'w
  sy_pool :: "Context list"

definition onBridge :: "(rawBridge, 'a) M \<Rightarrow> ('w sys, 'a) M" where
  "onBridge m s =
    (case m (sy_bridge s) of Inl e \<Rightarrow> Inl e | Inr (x, b) \<Rightarrow> Inr (x, s\<lparr>sy_bridge := b\<rparr>))"

definition onFS :: "('w \<Rightarrow> 'a \<times> 'w) \<Rightarrow> ('w sys, 'a) M" where
  "onFS f s = (let (x, w) = f (sy_world s) in Inr (x, s\<lparr>sy_world := w\<rparr>))"

text \<open>\<open>ctx := newContext(cancel, caller)\<close> with the deferred \<open>releaseContext(ctx)\<close>.\<close>

definition withContext :: "chan \<Rightarrow> Caller \<Rightarrow> (Context \<Rightarrow> ('w sys, 'a) M) \<Rightarrow> ('w sys, 'a) M" where
  "withContext cancel caller body =
    bindM (getsM (\<lambda>s. newContext cancel caller (sy_pool s))) (\<lambda>(ctx, pool').
    bindM (modifyM (\<lambda>s. s\<lparr>sy_pool := pool'\<rparr>)) (\<lambda>_.
    bindM (body ctx) (\<lambda>r.
    bindM (modifyM (\<lambda>s. s\<lparr>sy_pool := releaseContext ctx (sy_pool s)\<rparr>)) (\<lambda>_.
    ret r))))"

text \<open>The headers of requests; \<open>SetAttrIn\<close> holds what its methods answer.\<close>

record InHeader =
  ih_NodeId :: u64
  ih_Caller :: Caller

record FileIn = InHeader +
  fi_Fh :: u64

record SetAttrIn = InHeader +
  sa_GetFh :: "u64 \<times> bool"
  sa_GetMode :: "u32 \<times> bool"
  sa_GetUID :: "u32 \<times> bool"
  sa_GetGID :: "u32 \<times> bool"
  sa_GetSize :: "u64 \<times> bool"
  sa_GetATime :: "time \<times> bool"
  sa_GetMTime :: "time \<times> bool"

record RenameIn = InHeader +
  rn_Newdir :: u64
  rn_Flags :: u32

record LkIn = FileIn +
  li_Owner :: u64
  li_Lk :: FileLock
  li_LkFlags :: u32

section \<open>Paths of requests\<close>

text \<open>The inode of a request with its path, and the directory of a request with the path of a name in it.\<close>

definition node_path :: "u64 \<Rightarrow> ('w sys, addr \<times> string) M" where
  "node_path i = onBridge (bindM (bridge_inode i) (\<lambda>n. bindM (pathOf n) (\<lambda>path. ret (n, path))))"

definition child_path :: "u64 \<Rightarrow> string \<Rightarrow> ('w sys, addr \<times> string) M" where
  "child_path i name = bindM (node_path i) (\<lambda>(parent, ppath). ret (parent, childPathOf ppath name))"

text \<open>The inode and the entry of an open file, the path, and the context with the opener.\<close>

definition file_path ::
  "u64 \<Rightarrow> u64 \<Rightarrow> Context \<Rightarrow> ('w sys, addr \<times> fileEntry \<times> string \<times> Context) M" where
  "file_path i fh ctx =
    onBridge (bindM (inodeAndFile i (ucast fh) ctx) (\<lambda>(n, f, ctx').
              bindM (fpathOf n f) (\<lambda>path. ret (n, f, path, ctx'))))"

section \<open>Look-ups and attributes\<close>

definition Access :: "'w FileSystem \<Rightarrow> chan \<Rightarrow> InHeader \<Rightarrow> u32 \<Rightarrow> ('w sys, Status) M" where
  "Access fs cancel input amask =
    withContext cancel (ih_Caller input) (\<lambda>ctx.
      bindM (node_path (ih_NodeId input)) (\<lambda>(n, path).
      onFS (fs_Access fs ctx path amask)))"

definition lookup ::
  "'w FileSystem \<Rightarrow> 'd fuselib \<Rightarrow> Context \<Rightarrow> string \<Rightarrow> addr \<Rightarrow> string \<Rightarrow> EntryOut \<Rightarrow> ('w sys, Status \<times> EntryOut) M" where
  "lookup fs lib ctx path parent name out =
    bindM (onFS (fs_GetAttr fs ctx path 0 (eo_Attr out))) (\<lambda>(code, attr).
      let out1 = out\<lparr>eo_Attr := attr\<rparr>
      in if \<not> Ok code then ret (code, out1)
         else
           bindM (onBridge (addChild parent name (at_Ino attr) (lib_IsDir lib attr))) (\<lambda>child.
           bindM (getsM (\<lambda>s. (options (sy_bridge s), ino (heap (sy_bridge s) child)))) (\<lambda>(opts, i).
           let out2 = setEntryOut (lib_goos lib) opts i out1;
               out3 = setEntryOutTimeout lib opts out2
           in ret (OK, out3))))"

definition Lookup ::
  "'w FileSystem \<Rightarrow> 'd fuselib \<Rightarrow> chan \<Rightarrow> InHeader \<Rightarrow> string \<Rightarrow> EntryOut \<Rightarrow> ('w sys, Status \<times> EntryOut) M" where
  "Lookup fs lib cancel header name out =
    withContext cancel (ih_Caller header) (\<lambda>ctx.
      bindM (child_path (ih_NodeId header) name) (\<lambda>(parent, path).
      bindM (lookup fs lib ctx path parent name out) (\<lambda>(code, out1).
        if \<not> Ok code then
          bindM (onBridge (rmChild parent name)) (\<lambda>_.
          bindM (getsM (\<lambda>s. op_NegativeTimeout (options (sy_bridge s)))) (\<lambda>negative.
          ret (code, case negative of Some t \<Rightarrow> lib_EntryOut_SetEntryTimeout lib t out1 | None \<Rightarrow> out1)))
        else ret (code, out1))))"

definition compactMemory :: "(rawBridge, unit) M" where
  "compactMemory =
    modifyM (\<lambda>b.
      if nodeCountHigh b \<le> length (nodes b) * 100 then b
      else let b1 = b\<lparr>nodes := map (\<lambda>(i, v). (i, v)) (nodes b)\<rparr>
           in b1\<lparr>nodeCountHigh := length (nodes b1)\<rparr>)"

definition Forget :: "u64 \<Rightarrow> u64 \<Rightarrow> ('w sys, unit) M" where
  "Forget nodeid nlookup =
    onBridge
      (bindM (inodeSafe nodeid) (\<lambda>n.
        if n = nil then ret ()
        else bindM (remove_ref n (ucast nlookup)) (\<lambda>removed.
             if removed then compactMemory else ret ())))"

definition getAttr ::
  "'w FileSystem \<Rightarrow> 'd fuselib \<Rightarrow> Context \<Rightarrow> string \<Rightarrow> u32 \<Rightarrow> AttrOut \<Rightarrow> ('w sys, Status \<times> AttrOut) M" where
  "getAttr fs lib ctx path uFh out =
    bindM (onFS (fs_GetAttr fs ctx path uFh (ao_Attr out))) (\<lambda>(code, attr).
      let out1 = out\<lparr>ao_Attr := attr\<rparr>
      in if \<not> Ok code then ret (code, out1)
         else bindM (getsM (\<lambda>s. options (sy_bridge s))) (\<lambda>opts.
              ret (OK, setAttrTimeout lib opts (setAttr (lib_goos lib) opts out1))))"

definition GetAttr ::
  "'w FileSystem \<Rightarrow> 'd fuselib \<Rightarrow> chan \<Rightarrow> FileIn \<Rightarrow> AttrOut \<Rightarrow> ('w sys, Status \<times> AttrOut) M" where
  "GetAttr fs lib cancel input out =
    withContext cancel (ih_Caller input) (\<lambda>ctx.
      bindM (file_path (ih_NodeId input) (fi_Fh input) ctx) (\<lambda>(n, f, path, ctx).
      getAttr fs lib ctx path (fe_uFh f) out))"

definition SetAttr ::
  "'w FileSystem \<Rightarrow> 'd fuselib \<Rightarrow> chan \<Rightarrow> SetAttrIn \<Rightarrow> AttrOut \<Rightarrow> ('w sys, Status \<times> AttrOut) M" where
  "SetAttr fs lib cancel input out =
    withContext cancel (ih_Caller input) (\<lambda>ctx.
      bindM (file_path (ih_NodeId input) (fst (sa_GetFh input)) ctx) (\<lambda>(n, f, path, ctx).
      let (perms, mok) = sa_GetMode input;
          (uid, uok) = sa_GetUID input;
          (gid, gok) = sa_GetGID input;
          (sz, sok) = sa_GetSize input;
          (atime, aok) = sa_GetATime input;
          (mtime, tok) = sa_GetMTime input
      in
      bindM (if mok then onFS (fs_Chmod fs ctx path (fe_uFh f) perms) else ret OK) (\<lambda>code.
      bindM (if Ok code \<and> (uok \<or> gok) then onFS (fs_Chown fs ctx path (fe_uFh f) uid gid) else ret code) (\<lambda>code.
      bindM (if Ok code \<and> sok then onFS (fs_Truncate fs ctx path (fe_uFh f) sz) else ret code) (\<lambda>code.
      bindM (if Ok code \<and> (aok \<or> tok)
             then onFS (fs_Utimens fs ctx path (fe_uFh f)
                          (if aok then Some atime else None) (if tok then Some mtime else None))
             else ret code) (\<lambda>code.
        if \<not> Ok code then ret (code, out)
        else getAttr fs lib ctx path (fe_uFh f) out))))))"

section \<open>Tree structure\<close>

text \<open>A call that creates an entry, followed by the look-up of the new entry.\<close>

definition Mknod ::
  "'w FileSystem \<Rightarrow> 'd fuselib \<Rightarrow> chan \<Rightarrow> InHeader \<Rightarrow> u32 \<Rightarrow> u32 \<Rightarrow> string \<Rightarrow> EntryOut \<Rightarrow> ('w sys, Status \<times> EntryOut) M" where
  "Mknod fs lib cancel input mode rdev name out =
    withContext cancel (ih_Caller input) (\<lambda>ctx.
      bindM (child_path (ih_NodeId input) name) (\<lambda>(parent, path).
      bindM (onFS (fs_Mknod fs ctx path mode rdev)) (\<lambda>code.
        if \<not> Ok code then ret (code, out) else lookup fs lib ctx path parent name out)))"

definition Mkdir ::
  "'w FileSystem \<Rightarrow> 'd fuselib \<Rightarrow> chan \<Rightarrow> InHeader \<Rightarrow> u32 \<Rightarrow> string \<Rightarrow> EntryOut \<Rightarrow> ('w sys, Status \<times> EntryOut) M" where
  "Mkdir fs lib cancel input mode name out =
    withContext cancel (ih_Caller input) (\<lambda>ctx.
      bindM (child_path (ih_NodeId input) name) (\<lambda>(parent, path).
      bindM (onFS (fs_Mkdir fs ctx path mode)) (\<lambda>code.
        if \<not> Ok code then ret (code, out) else lookup fs lib ctx path parent name out)))"

definition Unlink :: "'w FileSystem \<Rightarrow> chan \<Rightarrow> InHeader \<Rightarrow> string \<Rightarrow> ('w sys, Status) M" where
  "Unlink fs cancel header name =
    withContext cancel (ih_Caller header) (\<lambda>ctx.
      bindM (child_path (ih_NodeId header) name) (\<lambda>(parent, path).
      bindM (onFS (fs_Unlink fs ctx path)) (\<lambda>code.
        if \<not> Ok code then ret code
        else bindM (onBridge (rmChild parent name)) (\<lambda>_. ret OK))))"

definition Rmdir :: "'w FileSystem \<Rightarrow> chan \<Rightarrow> InHeader \<Rightarrow> string \<Rightarrow> ('w sys, Status) M" where
  "Rmdir fs cancel header name =
    withContext cancel (ih_Caller header) (\<lambda>ctx.
      bindM (child_path (ih_NodeId header) name) (\<lambda>(parent, path).
      bindM (onFS (fs_Rmdir fs ctx path)) (\<lambda>code.
        if \<not> Ok code then ret code
        else bindM (onBridge (rmChild parent name)) (\<lambda>_. ret OK))))"

definition Rename :: "'w FileSystem \<Rightarrow> chan \<Rightarrow> RenameIn \<Rightarrow> string \<Rightarrow> string \<Rightarrow> ('w sys, Status) M" where
  "Rename fs cancel input name newName =
    (if rn_Flags input \<noteq> 0 then ret ENOSYS
     else withContext cancel (ih_Caller input) (\<lambda>ctx.
      bindM (child_path (ih_NodeId input) name) (\<lambda>(parent, path).
      bindM (child_path (rn_Newdir input) newName) (\<lambda>(newParent, newPath).
      bindM (onFS (fs_Rename fs ctx path newPath)) (\<lambda>code.
        if \<not> Ok code then ret code
        else bindM (onBridge (mvChild parent name newParent newName True)) (\<lambda>_. ret OK))))))"

definition Link ::
  "'w FileSystem \<Rightarrow> 'd fuselib \<Rightarrow> chan \<Rightarrow> InHeader \<Rightarrow> u64 \<Rightarrow> string \<Rightarrow> EntryOut \<Rightarrow> ('w sys, Status \<times> EntryOut) M" where
  "Link fs lib cancel input oldnodeid name out =
    withContext cancel (ih_Caller input) (\<lambda>ctx.
      bindM (node_path oldnodeid) (\<lambda>(old, oldPath).
      bindM (child_path (ih_NodeId input) name) (\<lambda>(parent, path).
      bindM (onFS (fs_Link fs ctx oldPath path)) (\<lambda>code.
        if \<not> Ok code then ret (code, out) else lookup fs lib ctx path parent name out))))"

definition Symlink ::
  "'w FileSystem \<Rightarrow> 'd fuselib \<Rightarrow> chan \<Rightarrow> InHeader \<Rightarrow> string \<Rightarrow> string \<Rightarrow> EntryOut \<Rightarrow> ('w sys, Status \<times> EntryOut) M" where
  "Symlink fs lib cancel header target name out =
    withContext cancel (ih_Caller header) (\<lambda>ctx.
      bindM (child_path (ih_NodeId header) name) (\<lambda>(parent, path).
      bindM (onFS (fs_Symlink fs ctx path target)) (\<lambda>code.
        if \<not> Ok code then ret (code, out) else lookup fs lib ctx path parent name out)))"

definition Readlink :: "'w FileSystem \<Rightarrow> chan \<Rightarrow> InHeader \<Rightarrow> ('w sys, bytes \<times> Status) M" where
  "Readlink fs cancel header =
    withContext cancel (ih_Caller header) (\<lambda>ctx.
      bindM (node_path (ih_NodeId header)) (\<lambda>(n, path).
      onFS (fs_Readlink fs ctx path)))"

section \<open>Extended attributes\<close>

text \<open>
  \<open>GetXAttr\<close> and \<open>ListXAttr\<close> write into the buffer of the reply from its start, and
  answer the size of what they have, and ERANGE when it does not fit.
\<close>

definition copy_into :: "bytes \<Rightarrow> bytes \<Rightarrow> bytes" where
  "copy_into dest data = take (length dest) data @ drop (length data) dest"

definition GetXAttr ::
  "'w FileSystem \<Rightarrow> chan \<Rightarrow> InHeader \<Rightarrow> string \<Rightarrow> bytes \<Rightarrow> ('w sys, u32 \<times> Status \<times> bytes) M" where
  "GetXAttr fs cancel header attr dest =
    withContext cancel (ih_Caller header) (\<lambda>ctx.
      bindM (node_path (ih_NodeId header)) (\<lambda>(n, path).
      bindM (onFS (fs_GetXAttr fs ctx path attr)) (\<lambda>(data, code).
        if \<not> Ok code then ret (0, code, dest)
        else let sz = length data
             in if length dest < sz then ret (word_of_nat sz, ERANGE, dest)
                else ret (word_of_nat sz, OK, copy_into dest data))))"

fun xattr_size :: "nat \<Rightarrow> string list \<Rightarrow> nat" where
  "xattr_size sz [] = sz"
| "xattr_size sz (v # attrs) = xattr_size (sz + (length v + 1)) attrs"

fun xattr_append :: "bytes \<Rightarrow> string list \<Rightarrow> bytes" where
  "xattr_append d [] = d"
| "xattr_append d (v # attrs) = xattr_append ((d @ v) @ [CHR 0x00]) attrs"

text \<open>What is appended to \<open>dest[:0]\<close> overwrites the buffer as far as it fits.\<close>

definition ListXAttr ::
  "'w FileSystem \<Rightarrow> chan \<Rightarrow> InHeader \<Rightarrow> bytes \<Rightarrow> ('w sys, u32 \<times> Status \<times> bytes) M" where
  "ListXAttr fs cancel header dest =
    withContext cancel (ih_Caller header) (\<lambda>ctx.
      bindM (node_path (ih_NodeId header)) (\<lambda>(n, path).
      bindM (onFS (fs_ListXAttr fs ctx path)) (\<lambda>(attrs, code).
        if \<not> Ok code then ret (0, code, dest)
        else let sz = xattr_size 0 attrs
             in if length dest < sz then ret (word_of_nat sz, ERANGE, dest)
                else ret (word_of_nat sz, OK, copy_into dest (xattr_append [] attrs)))))"

definition SetXAttr :: "'w FileSystem \<Rightarrow> chan \<Rightarrow> InHeader \<Rightarrow> u32 \<Rightarrow> string \<Rightarrow> bytes \<Rightarrow> ('w sys, Status) M" where
  "SetXAttr fs cancel input flags attr data =
    withContext cancel (ih_Caller input) (\<lambda>ctx.
      bindM (node_path (ih_NodeId input)) (\<lambda>(n, path).
      onFS (fs_SetXAttr fs ctx path attr data flags)))"

definition RemoveXAttr :: "'w FileSystem \<Rightarrow> chan \<Rightarrow> InHeader \<Rightarrow> string \<Rightarrow> ('w sys, Status) M" where
  "RemoveXAttr fs cancel header attr =
    withContext cancel (ih_Caller header) (\<lambda>ctx.
      bindM (node_path (ih_NodeId header)) (\<lambda>(n, path).
      onFS (fs_RemoveXAttr fs ctx path attr)))"

section \<open>Open files\<close>

text \<open>\<open>Fh\<close> and \<open>OpenFlags\<close> of \<open>CreateOut\<close> are those of the \<open>OpenOut\<close> it holds.\<close>

definition Create ::
  "'w FileSystem \<Rightarrow> 'd fuselib \<Rightarrow> chan \<Rightarrow> InHeader \<Rightarrow> u32 \<Rightarrow> u32 \<Rightarrow> string \<Rightarrow> EntryOut \<Rightarrow> OpenOut \<Rightarrow>
    ('w sys, Status \<times> EntryOut \<times> OpenOut) M" where
  "Create fs lib cancel input flags mode name eout oout =
    withContext cancel (ih_Caller input) (\<lambda>ctx.
      bindM (child_path (ih_NodeId input) name) (\<lambda>(parent, path).
      bindM (onFS (fs_Create fs ctx path flags mode)) (\<lambda>(uFh, forceDIO, code).
        if \<not> Ok code then ret (code, eout, oout)
        else
          bindM (lookup fs lib ctx path parent name eout) (\<lambda>(code, eout).
            if \<not> Ok code then ret (code, eout, oout)
            else
              let oout = (if forceDIO then oout\<lparr>oo_OpenFlags := oo_OpenFlags oout OR lib_FOPEN_DIRECT_IO lib\<rparr> else oout)
              in bindM (onBridge (registerFile (ca_Owner (ih_Caller input)) path uFh None)) (\<lambda>fh.
                 ret (OK, eout, oout\<lparr>oo_Fh := ucast fh\<rparr>))))))"

definition Open ::
  "'w FileSystem \<Rightarrow> 'd fuselib \<Rightarrow> chan \<Rightarrow> InHeader \<Rightarrow> u32 \<Rightarrow> OpenOut \<Rightarrow> ('w sys, Status \<times> OpenOut) M" where
  "Open fs lib cancel input flags out =
    withContext cancel (ih_Caller input) (\<lambda>ctx.
      bindM (node_path (ih_NodeId input)) (\<lambda>(n, path).
      bindM (onFS (fs_Open fs ctx path flags)) (\<lambda>(uFh, keepCache, forceDIO, code).
        if \<not> Ok code then ret (code, out)
        else
          bindM (onBridge (registerFile (ca_Owner (ih_Caller input)) path uFh None)) (\<lambda>fh.
          let out = out\<lparr>oo_Fh := ucast fh\<rparr>;
              out = (if forceDIO then out\<lparr>oo_OpenFlags := oo_OpenFlags out OR lib_FOPEN_DIRECT_IO lib\<rparr>
                     else if keepCache then out\<lparr>oo_OpenFlags := oo_OpenFlags out OR lib_FOPEN_KEEP_CACHE lib\<rparr>
                     else out)
          in ret (OK, out)))))"

definition Read ::
  "'w FileSystem \<Rightarrow> chan \<Rightarrow> FileIn \<Rightarrow> u64 \<Rightarrow> bytes \<Rightarrow> ('w sys, ReadResult \<times> Status) M" where
  "Read fs cancel input offset dest =
    withContext cancel (ih_Caller input) (\<lambda>ctx.
      bindM (file_path (ih_NodeId input) (fi_Fh input) ctx) (\<lambda>(n, f, path, ctx).
      onFS (fs_Read fs ctx path (fe_uFh f) dest offset)))"

definition Write ::
  "'w FileSystem \<Rightarrow> chan \<Rightarrow> FileIn \<Rightarrow> u64 \<Rightarrow> bytes \<Rightarrow> ('w sys, u32 \<times> Status) M" where
  "Write fs cancel input offset data =
    withContext cancel (ih_Caller input) (\<lambda>ctx.
      bindM (file_path (ih_NodeId input) (fi_Fh input) ctx) (\<lambda>(n, f, path, ctx).
      onFS (fs_Write fs ctx path (fe_uFh f) data offset)))"

definition Fallocate ::
  "'w FileSystem \<Rightarrow> chan \<Rightarrow> FileIn \<Rightarrow> u64 \<Rightarrow> u64 \<Rightarrow> u32 \<Rightarrow> ('w sys, Status) M" where
  "Fallocate fs cancel input offset len mode =
    withContext cancel (ih_Caller input) (\<lambda>ctx.
      bindM (file_path (ih_NodeId input) (fi_Fh input) ctx) (\<lambda>(n, f, path, ctx).
      onFS (fs_Fallocate fs ctx path (fe_uFh f) offset len mode)))"

definition Fsync :: "'w FileSystem \<Rightarrow> chan \<Rightarrow> FileIn \<Rightarrow> u32 \<Rightarrow> ('w sys, Status) M" where
  "Fsync fs cancel input flags =
    withContext cancel (ih_Caller input) (\<lambda>ctx.
      bindM (file_path (ih_NodeId input) (fi_Fh input) ctx) (\<lambda>(n, f, path, ctx).
      onFS (fs_Fsync fs ctx path (fe_uFh f) flags)))"

definition Flush :: "'w FileSystem \<Rightarrow> chan \<Rightarrow> FileIn \<Rightarrow> u64 \<Rightarrow> ('w sys, Status) M" where
  "Flush fs cancel input lockOwner =
    withContext cancel (ih_Caller input) (\<lambda>ctx.
      bindM (file_path (ih_NodeId input) (fi_Fh input) ctx) (\<lambda>(n, f, path, ctx).
      onFS (fs_Flush fs ctx path (fe_uFh f) lockOwner)))"

definition Release :: "'w FileSystem \<Rightarrow> chan \<Rightarrow> FileIn \<Rightarrow> ('w sys, unit) M" where
  "Release fs cancel input =
    withContext cancel (ih_Caller input) (\<lambda>ctx.
      bindM (file_path (ih_NodeId input) (fi_Fh input) ctx) (\<lambda>(n, f, path, ctx).
      bindM (onFS (fs_Release fs ctx path (fe_uFh f))) (\<lambda>_.
      onBridge (unregisterFile (ucast (fi_Fh input))))))"

definition GetLk :: "'w FileSystem \<Rightarrow> chan \<Rightarrow> LkIn \<Rightarrow> FileLock \<Rightarrow> ('w sys, Status \<times> FileLock) M" where
  "GetLk fs cancel input out =
    withContext cancel (ih_Caller input) (\<lambda>ctx.
      bindM (file_path (ih_NodeId input) (fi_Fh input) ctx) (\<lambda>(n, f, path, ctx).
      onFS (fs_GetLk fs ctx path (fe_uFh f) (li_Owner input) (li_Lk input) (li_LkFlags input) out)))"

definition SetLk :: "'w FileSystem \<Rightarrow> chan \<Rightarrow> LkIn \<Rightarrow> ('w sys, Status) M" where
  "SetLk fs cancel input =
    withContext cancel (ih_Caller input) (\<lambda>ctx.
      bindM (file_path (ih_NodeId input) (fi_Fh input) ctx) (\<lambda>(n, f, path, ctx).
      onFS (fs_SetLk fs ctx path (fe_uFh f) (li_Owner input) (li_Lk input) (li_LkFlags input))))"

definition SetLkw :: "'w FileSystem \<Rightarrow> chan \<Rightarrow> LkIn \<Rightarrow> ('w sys, Status) M" where
  "SetLkw fs cancel input =
    withContext cancel (ih_Caller input) (\<lambda>ctx.
      bindM (file_path (ih_NodeId input) (fi_Fh input) ctx) (\<lambda>(n, f, path, ctx).
      onFS (fs_SetLkw fs ctx path (fe_uFh f) (li_Owner input) (li_Lk input) (li_LkFlags input))))"

section \<open>Open directories\<close>

definition OpenDir :: "InHeader \<Rightarrow> OpenOut \<Rightarrow> ('w sys, Status \<times> OpenOut) M" where
  "OpenDir input out =
    bindM (node_path (ih_NodeId input)) (\<lambda>(n, path).
    bindM (onBridge (registerFile (ca_Owner (ih_Caller input)) path 0 None)) (\<lambda>fh.
    ret (OK, out\<lparr>oo_Fh := ucast fh\<rparr>)))"

text \<open>
  The listing of an open directory: \<open>None\<close> (with a status) when \<open>Lsdir\<close> fails. It is
  kept in the entry of the open file until the directory is read from its start again.
\<close>

definition dots :: "DirEntry list" where
  "dots = [\<lparr>de_Mode = S_IFDIR, de_Name = ''.'', de_Ino = 0\<rparr>, \<lparr>de_Mode = S_IFDIR, de_Name = ''..'', de_Ino = 0\<rparr>]"

definition dir_load :: "'w FileSystem \<Rightarrow> Context \<Rightarrow> string \<Rightarrow> u32 \<Rightarrow> ('w sys, Status + DirEntry list) M" where
  "dir_load fs ctx path fh =
    bindM (onFS (fs_Lsdir fs ctx path)) (\<lambda>(stream, code).
      if \<not> Ok code then ret (Inl code)
      else
        let stream' = stream @ dots
        in bindM (modifyM (\<lambda>s. s\<lparr>sy_bridge := (sy_bridge s)\<lparr>files := (files (sy_bridge s))
                    [unat fh := (files (sy_bridge s) ! unat fh)\<lparr>fe_stream := Some stream'\<rparr>]\<rparr>\<rparr>)) (\<lambda>_.
           ret (Inr stream')))"

definition dir_stream ::
  "'w FileSystem \<Rightarrow> Context \<Rightarrow> string \<Rightarrow> u32 \<Rightarrow> fileEntry \<Rightarrow> u64 \<Rightarrow> ('w sys, Status + DirEntry list) M" where
  "dir_stream fs ctx path fh d offset =
    (case fe_stream d of
       None \<Rightarrow> dir_load fs ctx path fh
     | Some stream \<Rightarrow> if offset = 0 then dir_load fs ctx path fh else ret (Inr stream))"

fun ReadDir_loop :: "'d fuselib \<Rightarrow> DirEntry list \<Rightarrow> 'd \<Rightarrow> ('w sys, 'd) M" where
  "ReadDir_loop lib [] out = ret out"
| "ReadDir_loop lib (e # es) out =
    (if de_Name e = '''' then
       bindM (onBridge (logf (Log_empty_name (de_Mode e)))) (\<lambda>_. ReadDir_loop lib es out)
     else
       let (ok, out') = lib_AddDirEntry lib e out
       in if \<not> ok then ret out' else ReadDir_loop lib es out')"

definition ReadDir ::
  "'w FileSystem \<Rightarrow> 'd fuselib \<Rightarrow> chan \<Rightarrow> FileIn \<Rightarrow> u64 \<Rightarrow> 'd \<Rightarrow> ('w sys, Status \<times> 'd) M" where
  "ReadDir fs lib cancel input offset out =
    withContext cancel (ih_Caller input) (\<lambda>ctx.
      bindM (file_path (ih_NodeId input) (fi_Fh input) ctx) (\<lambda>(n, d, path, ctx).
      bindM (dir_stream fs ctx path (ucast (fi_Fh input)) d offset) (\<lambda>r.
        case r of
          Inl code \<Rightarrow> ret (code, out)
        | Inr stream \<Rightarrow>
            if length stream < unat offset then ret (OK, out)
            else bindM (ReadDir_loop lib (drop (unat offset) stream) out) (\<lambda>out'. ret (OK, out')))))"

text \<open>
  \<open>entryOut\<close> is a pointer into the reply, so what \<open>lookup\<close> writes there is part of the
  reply whether it succeeds or not.
\<close>

fun ReadDirPlus_loop ::
  "'w FileSystem \<Rightarrow> 'd fuselib \<Rightarrow> Context \<Rightarrow> string \<Rightarrow> addr \<Rightarrow> DirEntry list \<Rightarrow> 'd \<Rightarrow> ('w sys, 'd) M" where
  "ReadDirPlus_loop fs lib ctx path n [] out = ret out"
| "ReadDirPlus_loop fs lib ctx path n (e # es) out =
    (if de_Name e = '''' then
       bindM (onBridge (logf (Log_empty_name (de_Mode e)))) (\<lambda>_. ReadDirPlus_loop fs lib ctx path n es out)
     else
       let (entryOut, out1) = lib_AddDirLookupEntry lib e out
       in case entryOut of
            None \<Rightarrow> ret out1
          | Some eo \<Rightarrow>
              if de_Name e = ''.'' \<or> de_Name e = ''..'' then ReadDirPlus_loop fs lib ctx path n es out1
              else bindM (lookup fs lib ctx (childPathOf path (de_Name e)) n (de_Name e) eo) (\<lambda>(_, eo').
                   ReadDirPlus_loop fs lib ctx path n es (lib_SetLookupEntry lib eo' out1)))"

definition ReadDirPlus ::
  "'w FileSystem \<Rightarrow> 'd fuselib \<Rightarrow> chan \<Rightarrow> FileIn \<Rightarrow> u64 \<Rightarrow> 'd \<Rightarrow> ('w sys, Status \<times> 'd) M" where
  "ReadDirPlus fs lib cancel input offset out =
    withContext cancel (ih_Caller input) (\<lambda>ctx.
      bindM (file_path (ih_NodeId input) (fi_Fh input) ctx) (\<lambda>(n, d, path, ctx).
      bindM (dir_stream fs ctx path (ucast (fi_Fh input)) d offset) (\<lambda>r.
        case r of
          Inl code \<Rightarrow> ret (code, out)
        | Inr stream \<Rightarrow>
            if length stream < unat offset then ret (OK, out)
            else bindM (ReadDirPlus_loop fs lib ctx path n (drop (unat offset) stream) out)
                   (\<lambda>out'. ret (OK, out')))))"

definition ReleaseDir :: "u64 \<Rightarrow> ('w sys, unit) M" where
  "ReleaseDir fh = onBridge (unregisterFile (ucast fh))"

definition FsyncDir :: "('w sys, Status) M" where
  "FsyncDir = ret ENOSYS"

definition Lseek :: "('w sys, Status) M" where
  "Lseek = ret ENOSYS"

definition CopyFileRange :: "('w sys, u32 \<times> Status) M" where
  "CopyFileRange = ret (0, ENOSYS)"

definition StatFs :: "'w FileSystem \<Rightarrow> chan \<Rightarrow> InHeader \<Rightarrow> StatfsOut \<Rightarrow> ('w sys, Status \<times> StatfsOut) M" where
  "StatFs fs cancel input out =
    withContext cancel (ih_Caller input) (\<lambda>ctx.
      bindM (node_path (ih_NodeId input)) (\<lambda>(n, path).
      onFS (fs_StatFs fs ctx path out)))"

end
