(* ===== verification/Bridge_Inv.thy ===== *)
theory Bridge_Inv
  imports Bridge
begin

text \<open>
  The invariant of the bridge between two requests, and what the steps of a request do
  to it and to the references the kernel holds: the walk to a path, a look-up, the
  removal and the move of an entry, a forget, and the table of open files.
\<close>

section \<open>The invariant\<close>

text \<open>
  Besides the invariants of the tree and of the table of files: the root is a directory,
  is in the table, is in no directory, and keeps a reference; and no directory is below
  itself.
\<close>

definition bridge_ok :: "rawBridge \<Rightarrow> bool" where
  "bridge_ok b \<longleftrightarrow>
     tree_ok b \<and> files_ok b \<and> acyclic (down b) \<and>
     go_get (nodes b) 1 = root b \<and> isDir (heap b (root b)) \<and> pset b (root b) = {} \<and>
     lookups b (root b) \<noteq> 0"

text \<open>The references the kernel holds on the inode with a number.\<close>

definition refs :: "rawBridge \<Rightarrow> u64 \<Rightarrow> nat" where
  "refs b i = (if go_get (nodes b) i = nil then 0 else unat (lookups b (go_get (nodes b) i)))"

lemma tree_okD:
  assumes "tree_ok b"
  shows "wf_upto {} b" "heap_ok b" "edges_ok b" "tab_ok b" "live_ok {} b"
  using assms by (simp_all add: tree_ok_def wf_upto_def)

lemma root_ne: "tree_ok b \<Longrightarrow> root b \<noteq> nil"
  by (auto simp: tree_ok_def wf_upto_def tab_ok_def valid_def)

lemma table_valid:
  assumes "tree_ok b" "go_get (nodes b) i \<noteq> nil"
  shows "valid b (go_get (nodes b) i)" "inum b (go_get (nodes b) i) = i" "registered b (go_get (nodes b) i)"
  using tree_okD(4)[OF assms(1)] assms(2) by (auto simp: tab_ok_def registered_def)

lemma refs_pos:
  assumes "0 < refs b i"
  shows "go_get (nodes b) i \<noteq> nil" "lookups b (go_get (nodes b) i) \<noteq> 0"
  using assms by (auto simp: refs_def split: if_splits)

section \<open>Steps that leave the tree alone\<close>

text \<open>A walk to a path can draw a random number and print a message.\<close>

definition quiet :: "rawBridge \<Rightarrow> rawBridge \<Rightarrow> bool" where
  "quiet b b' \<longleftrightarrow>
     nodes b' = nodes b \<and> root b' = root b \<and> heap b' = heap b \<and> hnext b' = hnext b \<and>
     files b' = files b \<and> freeFiles b' = freeFiles b \<and> options b' = options b \<and> clock b' = clock b \<and>
     nodeCountHigh b' = nodeCountHigh b \<and> rands b' = rands b"

lemma quiet_refl [simp]: "quiet b b"
  by (simp add: quiet_def)

lemma quiet_trans: "quiet b b' \<Longrightarrow> quiet b' b'' \<Longrightarrow> quiet b b''"
  by (simp add: quiet_def)

lemma quiet_frame:
  assumes "quiet b b'"
  shows "nodes b' = nodes b" "root b' = root b" "heap b' = heap b" "hnext b' = hnext b"
    "files b' = files b" "freeFiles b' = freeFiles b" "options b' = options b" "clock b' = clock b"
    "nodeCountHigh b' = nodeCountHigh b"
  using assms by (simp_all add: quiet_def)

text \<open>States that agree on the tree agree on all its views.\<close>

lemma views_cong:
  assumes "heap b' = heap b" "hnext b' = hnext b"
  shows "valid b' a = valid b a" "edge b' p m = edge b p m" "pset b' a = pset b a" "lookups b' a = lookups b a"
    "inum b' a = inum b a" "live b' a = live b a" "down b' = down b"
  using assms by (simp_all add: valid_def edge_def pset_def lookups_def inum_def live_def down_def)

lemma tree_ok_cong:
  assumes "heap b' = heap b" "hnext b' = hnext b" "nodes b' = nodes b" "root b' = root b" "clock b' = clock b"
    and "length (nodes b') \<le> nodeCountHigh b'"
  shows "tree_ok b \<Longrightarrow> tree_ok b'"
  using assms(3-6) views_cong[OF assms(1,2)] assms(1)
  by (simp add: tree_ok_def wf_upto_def tab_ok_def heap_ok_def edges_ok_def live_ok_def registered_def)

lemma quiet_views:
  assumes "quiet b b'"
  shows "valid b' a = valid b a" "edge b' p m = edge b p m" "pset b' a = pset b a" "lookups b' a = lookups b a"
    "inum b' a = inum b a" "live b' a = live b a" "down b' = down b" "refs b' = refs b" "registered b' a = registered b a"
proof -
  note f = quiet_frame[OF assms]
  note v = views_cong[OF f(3,4)]
  show "valid b' a = valid b a" "edge b' p m = edge b p m" "pset b' a = pset b a" "lookups b' a = lookups b a"
    "inum b' a = inum b a" "live b' a = live b a" "down b' = down b" by (fact v)+
  show "refs b' = refs b" "registered b' a = registered b a"
    using f v by (simp_all add: refs_def registered_def fun_eq_iff)
qed

lemma quiet_tree_ok: "quiet b b' \<Longrightarrow> tree_ok b \<Longrightarrow> tree_ok b'"
  using quiet_frame[of b b'] by (intro tree_ok_cong[of b' b]) (simp_all add: tree_ok_def wf_upto_def tab_ok_def)

lemma quiet_ok: "quiet b b' \<Longrightarrow> bridge_ok b \<Longrightarrow> bridge_ok b'"
  using quiet_frame[of b b'] quiet_views[of b b'] quiet_tree_ok[of b b']
  by (simp add: bridge_ok_def files_ok_def)

lemma quiet_orphaned: "quiet b (orphaned_st i b)"
  by (simp add: quiet_def orphaned_st_def Let_def)

lemma quiet_logf: "logf m b = Inr ((), b') \<Longrightarrow> quiet b b'"
  by (auto simp: logf_def modifyM_def quiet_def)

lemma logf_total: "\<exists>b'. logf m b = Inr ((), b') \<and> quiet b b'"
  using quiet_logf by (simp add: logf_def modifyM_def)

section \<open>Paths\<close>

lemma pathOf_total:
  assumes "tree_ok b" "acyclic (down b)" "valid b n"
  shows "\<exists>path b'. pathOf n b = Inr (path, b') \<and> quiet b b'"
  using path_walk_cases[OF root_ne[OF assms(1)], of n] walk_acyclic[OF assms, of "[]"]
    pathOf_named pathOf_orphan quiet_orphaned quiet_refl by metis

lemma onBridge_eq: "m (sy_bridge s) = Inr (x, b) \<Longrightarrow> onBridge m s = Inr (x, s\<lparr>sy_bridge := b\<rparr>)"
  by (simp add: onBridge_def)

lemma onBridge_fail: "m (sy_bridge s) = Inl e \<Longrightarrow> onBridge m s = Inl e"
  by (simp add: onBridge_def)

lemma node_path_total:
  assumes "bridge_ok (sy_bridge s)" "go_get (nodes (sy_bridge s)) i \<noteq> nil"
  shows "\<exists>path b. node_path i s = Inr ((go_get (nodes (sy_bridge s)) i, path), s\<lparr>sy_bridge := b\<rparr>) \<and>
    pathOf (go_get (nodes (sy_bridge s)) i) (sy_bridge s) = Inr (path, b) \<and> quiet (sy_bridge s) b"
proof -
  let ?b = "sy_bridge s" let ?n = "go_get (nodes ?b) i"
  have t: "tree_ok ?b" "acyclic (down ?b)" using assms(1) by (simp_all add: bridge_ok_def)
  obtain path b where p: "pathOf ?n ?b = Inr (path, b)" "quiet ?b b"
    using pathOf_total[OF t table_valid(1)[OF t(1) assms(2)]] by blast
  have "node_path i s = Inr ((?n, path), s\<lparr>sy_bridge := b\<rparr>)"
    unfolding node_path_def
    by (rule onBridge_eq) (simp add: bindM_def bridge_inode_apply assms(2) p(1) ret_def)
  with p show ?thesis by blast
qed

lemma node_path_unknown:
  "go_get (nodes (sy_bridge s)) i = nil \<Longrightarrow> node_path i s = Inl (Panic_unknown_node i)"
  unfolding node_path_def by (rule onBridge_fail) (simp add: bindM_def bridge_inode_apply)

lemma child_path_total:
  assumes "bridge_ok (sy_bridge s)" "go_get (nodes (sy_bridge s)) i \<noteq> nil"
  shows "\<exists>path b. child_path i name s =
      Inr ((go_get (nodes (sy_bridge s)) i, childPathOf path name), s\<lparr>sy_bridge := b\<rparr>) \<and>
    pathOf (go_get (nodes (sy_bridge s)) i) (sy_bridge s) = Inr (path, b) \<and> quiet (sy_bridge s) b"
  using node_path_total[OF assms] by (auto simp: child_path_def bindM_def ret_def)

section \<open>Adding an entry\<close>

text \<open>
  A number that a file system may answer for a name: not reserved, the number of the
  inode the name already has here, if it has one, and not that of the root or of a
  directory above, nor 0, which stands for no inode. A count of references does not wrap.
\<close>

definition answer_ok :: "rawBridge \<Rightarrow> addr \<Rightarrow> string \<Rightarrow> u64 \<Rightarrow> bool" where
  "answer_ok b p name i \<longleftrightarrow>
     isDir (heap b p) \<and> name \<noteq> ''.'' \<and> name \<noteq> ''..'' \<and> i \<noteq> NOT 0 \<and> i \<noteq> 0 \<and> i \<noteq> 1 \<and>
     (edge b p name = nil \<or> edge b p name = go_get (nodes b) i) \<and>
     refs b i \<noteq> 2 ^ 32 - 1 \<and> (go_get (nodes b) i, p) \<notin> (down b)\<^sup>*"

lemma answer_addable:
  assumes "bridge_ok b" "valid b p" "registered b p" "answer_ok b p name i"
  shows "addable b p name i"
proof -
  have "lookups b (go_get (nodes b) i) \<noteq> - 1" if "go_get (nodes b) i \<noteq> nil"
  proof
    assume "lookups b (go_get (nodes b) i) = - 1"
    then have "refs b i = unat (- 1 :: u32)" using that by (simp add: refs_def)
    then have "refs b i = 2 ^ 32 - 1" by (simp add: unsigned_minus_1_eq_mask mask_eq_exp_minus_1)
    with assms(4) show False by (simp add: answer_ok_def)
  qed
  with assms show ?thesis by (simp add: addable_def answer_ok_def)
qed

lemma added_refs:
  assumes "tree_ok b" "added b p name i dir c b'" "addable b p name i"
  shows "refs b' = (refs b)(i := Suc (refs b i))"
proof
  fix j
  have n: "nodes b' = AList.update i c (nodes b)" and c: "c \<noteq> nil"
    using assms(2) by (auto simp: added_def valid_def)
  show "refs b' j = ((refs b)(i := Suc (refs b i))) j"
  proof (cases "j = i")
    case True
    show ?thesis
    proof (cases "go_get (nodes b) i = nil")
      case T: True
      then have "lookups b' c = 1" using added_new(3)[OF assms(2)] by simp
      with T True c n show ?thesis by (simp add: refs_def)
    next
      case F: False
      then have l: "lookups b' c = lookups b c + 1" "c = go_get (nodes b) i"
        using added_old[OF assms(2)] by simp_all
      have "lookups b c \<noteq> - 1" using assms(3) F l(2) by (simp add: addable_def)
      then have "unat (lookups b c + 1) = Suc (unat (lookups b c))"
        by (metis add.commute add_eq_0_iff unatSuc)
      with F True c n l show ?thesis by (simp add: refs_def)
    qed
  next
    case False
    let ?a = "go_get (nodes b) j"
    have "lookups b' ?a = lookups b ?a" if "?a \<noteq> nil"
    proof -
      note v = table_valid[OF assms(1) that]
      have "?a \<noteq> c"
      proof
        assume "?a = c"
        with v added_frame(2,9)[OF assms(2)] have "i = j" by simp
        with False show False by simp
      qed
      with v(1) show ?thesis using assms(2) by (simp add: added_def)
    qed
    with False n show ?thesis by (simp add: refs_def)
  qed
qed

lemma added_ok:
  assumes "bridge_ok b" "tree_ok b'" "valid b p" "added b p name i dir c b'" "answer_ok b p name i"
  shows "bridge_ok b'"
proof -
  have f: "files b' = files b" "freeFiles b' = freeFiles b" "root b' = root b" "nodes b' = AList.update i c (nodes b)"
    using assms(4) by (simp_all add: added_def)
  have r: "valid b (root b)" "go_get (nodes b) 1 = root b" "isDir (heap b (root b))" "pset b (root b) = {}"
    using assms(1) by (simp_all add: bridge_ok_def tree_ok_def wf_upto_def tab_ok_def)
  have t: "tree_ok b" using assms(1) by (simp add: bridge_ok_def)
  have i: "i \<noteq> 1" using assms(5) by (simp add: answer_ok_def)
  have "inum b (root b) = 1" using table_valid(2)[OF t, of 1] r(1,2) by (simp add: valid_def)
  then have c: "c \<noteq> root b" using i assms(4) r(1) by (auto simp: added_def)
  have "(c, p) \<notin> (down b)\<^sup>*"
  proof (cases "go_get (nodes b) i = nil")
    case True
    then have "c = hnext b" using added_new(2)[OF assms(4)] by simp
    moreover have "(hnext b, x) \<notin> down b" for x by (simp add: down_def valid_def)
    moreover have "p \<noteq> hnext b" using assms(3) by (simp add: valid_def)
    ultimately show ?thesis by (metis converse_rtranclE)
  next
    case False
    then have "c = go_get (nodes b) i" using added_old(1)[OF assms(4)] by simp
    with assms(5) show ?thesis by (simp add: answer_ok_def)
  qed
  with assms(1) have "acyclic (down b')"
    by (intro acyclic_link[OF _ down_added[OF assms(4)]]) (simp_all add: bridge_ok_def)
  moreover have "files_ok b'" using assms(1) f by (simp add: bridge_ok_def files_ok_def)
  moreover have "isDir (heap b' (root b))" "pset b' (root b) = {}" "lookups b' (root b) = lookups b (root b)"
    using r(1,3,4) c assms(4) by (simp_all add: added_def)
  ultimately show ?thesis using assms(1,2) f r(2) i by (simp add: bridge_ok_def)
qed

text \<open>\<open>addChild\<close> between two states of the bridge.\<close>

lemma addChild_ok:
  assumes "bridge_ok b" "valid b p" "registered b p" "answer_ok b p name i"
  shows "\<exists>c b'. addChild p name i dir b = Inr (c, b') \<and> bridge_ok b' \<and> added b p name i dir c b' \<and>
    refs b' = (refs b)(i := Suc (refs b i))"
proof -
  have t: "tree_ok b" using assms(1) by (simp add: bridge_ok_def)
  note a = answer_addable[OF assms]
  obtain c b' where b': "addChild p name i dir b = Inr (c, b')" "tree_ok b'" "added b p name i dir c b'"
    using addChild_spec[OF t a] by blast
  with added_refs[OF t b'(3) a] added_ok[OF assms(1) b'(2) assms(2) b'(3) assms(4)] show ?thesis by blast
qed

section \<open>Removing and moving an entry\<close>

lemma open_files_cong:
  "files b' = files b \<Longrightarrow> freeFiles b' = freeFiles b \<Longrightarrow> open_files b' = open_files b"
  by (simp add: open_files_def fun_eq_iff)

lemma same_refs:
  assumes "nodes b' = nodes b" "\<And>a. lookups b' a = lookups b a"
  shows "refs b' = refs b"
  using assms by (simp add: refs_def fun_eq_iff)

lemma rmChild_ok:
  assumes "bridge_ok b" "valid b p" "lookups b p \<noteq> 0"
  shows "\<exists>b'. rmChild p name b = Inr (edge b p name \<noteq> nil, b') \<and> bridge_ok b' \<and> refs b' = refs b \<and>
    nodes b' = nodes b \<and> open_files b' = open_files b \<and>
    (\<forall>q m. edge b' q m = (if q = p \<and> m = name then nil else edge b q m))"
proof (cases "edge b p name = nil")
  case True
  with assms rmChild_cut[of b p name] show ?thesis by (auto simp: bridge_ok_def)
next
  case False
  let ?c = "edge b p name" let ?b = "cut_st p name ?c b"
  have t: "tree_ok b" using assms(1) by (simp add: bridge_ok_def)
  have c: "valid b ?c" using edges_okD(2)[OF tree_okD(3)[OF t] assms(2) False] .
  have h: "heap_ok ?b" using cut_heap_ok[OF tree_okD(2)[OF t]] .
  have "live ?b p" using live_lookups[OF h] assms(2,3) by simp
  then have "tree_ok ?b"
    using cut_wf[OF tree_okD(1)[OF t] assms(2) c] wf_upto_live[of p "{}" ?b] by (simp add: tree_ok_def)
  moreover have "acyclic (down ?b)"
    using acyclic_mono[OF _ down_cut] assms(1) by (auto simp: bridge_ok_def)
  moreover have "pset ?b (root b) = {}"
    using assms(1) cut_pset[OF tree_okD(2)[OF t] c, of p name] by (auto simp: bridge_ok_def)
  moreover have "same_env b ?b" by (rule cut_env)
  ultimately have "bridge_ok ?b"
    using assms(1) by (simp add: bridge_ok_def files_ok_def same_env_def)
  moreover have "refs ?b = refs b" by (rule same_refs) simp_all
  moreover have "open_files ?b = open_files b"
    by (rule open_files_cong) (use cut_env[of b p name ?c] in \<open>simp_all add: same_env_def\<close>)
  ultimately show ?thesis
    using rmChild_cut[OF t assms(2,3), of name] False by (auto simp: cut_edge)
qed

text \<open>A rename that a file system may carry out: not into the directory that is moved.\<close>

definition move_ok :: "rawBridge \<Rightarrow> addr \<Rightarrow> string \<Rightarrow> addr \<Rightarrow> bool" where
  "move_ok b p name q \<longleftrightarrow> isDir (heap b q) \<and> (edge b p name, q) \<notin> (down b)\<^sup>*"

lemma move_views:
  assumes "tree_ok b" "valid b p" "valid b q" "registered b q" "isDir (heap b q)"
  shows "valid (move_st p name q newName b) a = valid b a"
    "lookups (move_st p name q newName b) a = lookups b a"
    "isDir (heap (move_st p name q newName b) a) = isDir (heap b a)"
    "root (move_st p name q newName b) = root b" "files (move_st p name q newName b) = files b"
    "freeFiles (move_st p name q newName b) = freeFiles b"
  using move_wf(2)[OF tree_okD(1)[OF assms(1)] assms(2-5), of name newName]
  by (simp_all add: same_env_def view_simps valid_def)

lemma move_root:
  assumes "bridge_ok b" "valid b p" "valid b q" "tree_ok (move_st p name q newName b)"
    and "root (move_st p name q newName b) = root b" "\<And>a. valid (move_st p name q newName b) a = valid b a"
  shows "pset (move_st p name q newName b) (root b) = {}"
proof -
  let ?b = "move_st p name q newName b"
  have t: "tree_ok b" and r: "pset b (root b) = {}" "valid b (root b)"
    using assms(1) by (simp_all add: bridge_ok_def tree_ok_def wf_upto_def tab_ok_def)
  have none: "edge b x m \<noteq> root b" if "valid b x" for x m
    using edges_okD(1)[OF tree_okD(3)[OF t] that r(2)] r(1) by simp
  have "e \<notin> pset ?b (root b)" for e
  proof
    assume "e \<in> pset ?b (root b)"
    with pset_edge[OF assms(4), of "root b" e] r(2) assms(6)
    have e: "valid b (pe_node e)" "edge ?b (pe_node e) (pe_name e) = root b" by simp_all
    from e(2) have "edge b p name = root b \<or> edge b (pe_node e) (pe_name e) = root b"
      using root_ne[OF t] by (auto simp: move_edge split: if_splits)
    with none e(1) assms(2) show False by blast
  qed
  then show ?thesis by blast
qed

lemma mvChild_ok:
  assumes "bridge_ok b" "valid b p" "valid b q" "registered b q" "lookups b p \<noteq> 0" "lookups b q \<noteq> 0"
    and "move_ok b p name q"
  shows "\<exists>b'. mvChild p name q newName True b = Inr (True, b') \<and> bridge_ok b' \<and> refs b' = refs b \<and>
    nodes b' = nodes b \<and> open_files b' = open_files b \<and> b' = move_st p name q newName b"
proof -
  let ?b = "move_st p name q newName b"
  have t: "tree_ok b" using assms(1) by (simp add: bridge_ok_def)
  have d: "isDir (heap b q)" using assms(7) by (simp add: move_ok_def)
  note m = move_wf[OF tree_okD(1)[OF t] assms(2-4) d, of name newName]
  note v = move_views[OF t assms(2-4) d, of name newName]
  have h: "heap_ok ?b" using m(1) by (simp add: wf_upto_def)
  have "live ?b p" "live ?b q" using live_lookups[OF h] assms(2,3,5,6) v(1,2) by simp_all
  then have t': "tree_ok ?b"
    using m(1) wf_upto_live[of p "{q}" ?b] wf_upto_live[of q "{}" ?b] by (simp add: tree_ok_def)
  have "acyclic (down ?b)"
    by (rule acyclic_link[OF _ down_move[OF m(2)]]) (use assms(1,7) in \<open>simp_all add: bridge_ok_def move_ok_def\<close>)
  moreover have "pset ?b (root b) = {}" by (rule move_root[OF assms(1-3) t' v(4) v(1)])
  ultimately have "bridge_ok ?b"
    using assms(1) t' v m(3) by (simp add: bridge_ok_def files_ok_def)
  moreover have "refs ?b = refs b" by (rule same_refs) (simp_all add: m(3) v)
  ultimately show ?thesis
    using mvChild_move[OF t assms(2-4) d assms(5,6), of name newName] m(3)
      open_files_cong[OF v(5,6)] by blast
qed

section \<open>Forgetting\<close>

lemma compactMemory_apply:
  "compactMemory b = Inr ((), if nodeCountHigh b \<le> length (nodes b) * 100 then b
     else b\<lparr>nodeCountHigh := length (nodes b)\<rparr>)"
  by (simp add: compactMemory_def modifyM_def Let_def)

lemma compact_ok:
  assumes "bridge_ok b" "compactMemory b = Inr ((), b')"
  shows "bridge_ok b'" "refs b' = refs b" "nodes b' = nodes b" "heap b' = heap b" "hnext b' = hnext b"
    "open_files b' = open_files b"
proof -
  have f: "nodes b' = nodes b" "heap b' = heap b" "hnext b' = hnext b" "root b' = root b" "files b' = files b"
    "freeFiles b' = freeFiles b" "clock b' = clock b"
    and h: "length (nodes b') \<le> nodeCountHigh b'"
    using assms by (auto simp: compactMemory_apply bridge_ok_def tree_ok_def wf_upto_def tab_ok_def split: if_splits)
  note v = views_cong[OF f(2,3)]
  have "tree_ok b'" using tree_ok_cong[OF f(2,3,1,4,7) h] assms(1) by (simp add: bridge_ok_def)
  then show "bridge_ok b'"
    using assms(1) f v by (simp add: bridge_ok_def files_ok_def)
  show "refs b' = refs b" using f v by (simp add: refs_def fun_eq_iff)
  show "nodes b' = nodes b" "heap b' = heap b" "hnext b' = hnext b" by (fact f)+
  show "open_files b' = open_files b" by (rule open_files_cong[OF f(5,6)])
qed

text \<open>A removal takes no references away: what it removes has none.\<close>

lemma shrinks_refs:
  assumes "shrinks b b'" "tree_ok b'" "wf_upto W b"
  shows "refs b' = refs b"
proof
  fix i
  let ?a = "go_get (nodes b) i"
  show "refs b' i = refs b i"
  proof (cases "?a = nil")
    case True
    then have "go_get (nodes b') i = nil" using assms(1) by (auto simp: shrinks_def)
    with True show ?thesis by (simp add: refs_def)
  next
    case False
    have t: "valid b ?a" "inum b ?a = i" using assms(3) False by (auto simp: wf_upto_def tab_ok_def)
    then have r: "registered b ?a" by (simp add: registered_def)
    have l: "lookups b' ?a = lookups b ?a" "inum b' ?a = i"
      using assms(1) t(2) by (auto simp: shrinks_def same_env_def)
    show ?thesis
    proof (cases "go_get (nodes b') i = nil")
      case True
      have "\<not> registered b' ?a" using True l(2) False by (simp add: registered_def)
      then have "\<not> live b' ?a" using assms(1) t(1) r unfolding shrinks_def by blast
      then have "lookups b' ?a = 0"
        using live_iff[OF tree_okD(2)[OF assms(2)]] shrinks_valid[OF assms(1)] t(1) by auto
      with True False l show ?thesis by (simp add: refs_def)
    next
      case F: False
      then have "go_get (nodes b') i = ?a" using assms(1) by (simp add: shrinks_def)
      with l False show ?thesis by (simp add: refs_def)
    qed
  qed
qed

lemma refs_unref:
  assumes "tree_ok b" "go_get (nodes b) i = a" "a \<noteq> nil" "k \<le> lookups b a"
  shows "refs (unref_st a k b) = (refs b)(i := refs b i - unat k)"
proof
  fix j
  have "lookups b (go_get (nodes b) j) = lookups (unref_st a k b) (go_get (nodes b) j) \<or> j = i"
    using table_valid(2)[OF assms(1), of j] table_valid(2)[OF assms(1), of i] assms(2,3) by auto
  then show "refs (unref_st a k b) j = ((refs b)(i := refs b i - unat k)) j"
    using assms(2,3,4) by (auto simp: refs_def unat_sub)
qed

lemma unref_isDir: "isDir (heap (unref_st a k b) x) = isDir (heap b x)"
  by (simp add: unref_st_def isDir_simps)

lemma down_unref: "down (unref_st a k b) = down b"
  by (simp add: down_def)

text \<open>
  A forget of references the kernel holds returns; the root keeps the reference it was
  created with.
\<close>

lemma remove_ref_ok:
  assumes "bridge_ok b" "go_get (nodes b) i = a" "a \<noteq> nil" "k \<le> lookups b a"
    and "i = 1 \<Longrightarrow> k < lookups b a"
  shows "\<exists>r b'. remove_ref a k b = Inr (r, b') \<and> bridge_ok b' \<and> refs b' = (refs b)(i := refs b i - unat k) \<and>
    r = (lookups b a = k \<and> (\<forall>m. edge b a m = nil)) \<and> (r \<longrightarrow> go_get (nodes b') i = nil) \<and>
    open_files b' = open_files b"
proof -
  let ?u = "unref_st a k b"
  have t: "tree_ok b" using assms(1) by (simp add: bridge_ok_def)
  have a: "valid b a" "inum b a = i" "registered b a" using table_valid[OF t, of i] assms(2,3) by auto
  obtain r b' where b': "remove_ref a k b = Inr (r, b')" "tree_ok b'" "shrinks ?u b'"
    "r = (lookups b a = k \<and> (\<forall>m. edge b a m = nil))" "r \<longrightarrow> \<not> registered b' a"
    using remove_ref_spec[OF t a(1,3) assms(4)] by blast
  have e: "same_env ?u b'" using b'(3) by (simp add: shrinks_def)
  have f: "files b' = files b" "freeFiles b' = freeFiles b" "root b' = root b"
    "isDir (heap b' x) = isDir (heap b x)" "inum b' x = inum b x" "lookups b' x = lookups ?u x" for x
    using e by (simp_all add: same_env_def unref_isDir)
  have ref: "refs b' = (refs b)(i := refs b i - unat k)"
    using shrinks_refs[OF b'(3,2) unref_wf[OF t assms(4)]] refs_unref[OF t assms(2-4)] by simp
  have R: "go_get (nodes b) 1 = root b" "isDir (heap b (root b))" "pset b (root b) = {}"
    "lookups b (root b) \<noteq> 0"
    using assms(1) by (simp_all add: bridge_ok_def)
  have rn: "root b \<noteq> nil" "valid b (root b)" "inum b (root b) = 1"
    using root_ne[OF t] table_valid[OF t, of 1] R(1) by simp_all
  have "lookups b' (root b) \<noteq> 0"
  proof (cases "a = root b")
    case True
    then have "k < lookups b a" using assms(5) a(2) rn by simp
    with True show ?thesis using f(6) by simp
  next
    case False
    with R(4) f(6) show ?thesis by simp
  qed
  then have "registered b' (root b)"
    using live_lookups[OF tree_okD(2)[OF b'(2)]] tree_okD(5)[OF b'(2)] rn shrinks_valid[OF b'(3)]
    by (simp add: live_ok_def)
  then have g: "go_get (nodes b') 1 = root b" using rn f(5) by (simp add: registered_def)
  have "acyclic (down b')"
    using acyclic_mono[OF _ down_shrinks[OF b'(3)]] assms(1) by (simp add: down_unref bridge_ok_def)
  moreover have "pset b' (root b) = {}"
  proof -
    have "pset b' (root b) \<subseteq> pset ?u (root b)" using b'(3) unfolding shrinks_def by blast
    with R(3) show ?thesis by simp
  qed
  ultimately have "bridge_ok b'"
    using assms(1) b'(2) f g \<open>lookups b' (root b) \<noteq> 0\<close> by (simp add: bridge_ok_def files_ok_def)
  moreover have "r \<longrightarrow> go_get (nodes b') i = nil"
  proof
    assume r
    with b'(5) have "go_get (nodes b') i \<noteq> a" using f(5) a(2) by (simp add: registered_def)
    moreover have "go_get (nodes b') i \<noteq> nil \<Longrightarrow> go_get (nodes b') i = a"
      using b'(3) assms(2) by (auto simp: shrinks_def)
    ultimately show "go_get (nodes b') i = nil" by blast
  qed
  moreover have "open_files b' = open_files b" by (rule open_files_cong) (use f in simp_all)
  ultimately show ?thesis using b'(1,4) ref by blast
qed

section \<open>The look-up of an entry\<close>

lemma lookup_error:
  assumes "fs_GetAttr fs ctx path 0 (eo_Attr out) (sy_world s) = ((code, attr), w)" "code \<noteq> OK"
  shows "lookup fs lib ctx path p name out s = Inr ((code, out\<lparr>eo_Attr := attr\<rparr>), s\<lparr>sy_world := w\<rparr>)"
  using assms by (simp add: lookup_def bindM_def onFS_def ret_def Let_def)

text \<open>What the reply to a look-up says of the inode with a number.\<close>

definition entry_reply :: "'d fuselib \<Rightarrow> Options \<Rightarrow> u64 \<Rightarrow> Attr \<Rightarrow> EntryOut \<Rightarrow> EntryOut" where
  "entry_reply lib opts i attr out =
    setEntryOutTimeout lib opts (setEntryOut (lib_goos lib) opts i (out\<lparr>eo_Attr := attr\<rparr>))"

lemma lookup_added:
  assumes "fs_GetAttr fs ctx path 0 (eo_Attr out) (sy_world s) = ((OK, attr), w)"
    and "addChild p name (at_Ino attr) (lib_IsDir lib attr) (sy_bridge s) = Inr (c, b')"
    and "added (sy_bridge s) p name (at_Ino attr) (lib_IsDir lib attr) c b'"
  shows "lookup fs lib ctx path p name out s =
    Inr ((OK, entry_reply lib (options (sy_bridge s)) (at_Ino attr) attr out), s\<lparr>sy_world := w, sy_bridge := b'\<rparr>)"
proof -
  have "ino (heap b' c) = at_Ino attr" "options b' = options (sy_bridge s)"
    using added_frame(2,7)[OF assms(3)] by (simp_all add: inum_def)
  then show ?thesis
    using assms(1,2)
    by (simp add: lookup_def bindM_def onFS_def onBridge_def getsM_def ret_def Let_def entry_reply_def)
qed

lemma lookup_ok:
  assumes "bridge_ok (sy_bridge s)" "valid (sy_bridge s) p" "registered (sy_bridge s) p"
    and "fs_GetAttr fs ctx path 0 (eo_Attr out) (sy_world s) = ((OK, attr), w)"
    and "answer_ok (sy_bridge s) p name (at_Ino attr)"
  shows "\<exists>c b'. lookup fs lib ctx path p name out s =
      Inr ((OK, entry_reply lib (options (sy_bridge s)) (at_Ino attr) attr out),
           s\<lparr>sy_world := w, sy_bridge := b'\<rparr>) \<and>
    bridge_ok b' \<and> added (sy_bridge s) p name (at_Ino attr) (lib_IsDir lib attr) c b' \<and>
    refs b' = (refs (sy_bridge s))(at_Ino attr := Suc (refs (sy_bridge s) (at_Ino attr)))"
proof -
  obtain c b' where c: "addChild p name (at_Ino attr) (lib_IsDir lib attr) (sy_bridge s) = Inr (c, b')"
    "bridge_ok b'" "added (sy_bridge s) p name (at_Ino attr) (lib_IsDir lib attr) c b'"
    "refs b' = (refs (sy_bridge s))(at_Ino attr := Suc (refs (sy_bridge s) (at_Ino attr)))"
    using addChild_ok[OF assms(1-3,5)] by blast
  with lookup_added[OF assms(4) c(1,3)] show ?thesis by blast
qed

text \<open>The number of the reply is that of the inode, unless the library's timeouts change it.\<close>

definition timeouts_ok :: "'d fuselib \<Rightarrow> bool" where
  "timeouts_ok lib \<longleftrightarrow>
     (\<forall>t out. eo_NodeId (lib_EntryOut_SetAttrTimeout lib t out) = eo_NodeId out \<and>
              eo_NodeId (lib_EntryOut_SetEntryTimeout lib t out) = eo_NodeId out)"

lemma entry_reply_NodeId: "timeouts_ok lib \<Longrightarrow> eo_NodeId (entry_reply lib opts i attr out) = i"
  by (simp add: entry_reply_def setEntryOutTimeout_def setEntryOut_def Let_def timeouts_ok_def split: option.splits)

section \<open>Requests as a whole\<close>

lemma newContext_eq:
  "newContext cancel caller cs =
    (\<lparr>cx_Cancel = cancel, cx_Caller = caller, cx_Opener = None\<rparr>, snd (contextPool_Get cs))"
  by (simp add: newContext_def contextPool_Get_def split: list.split)

lemma withContext_eq:
  "withContext cancel caller body s =
    (case body \<lparr>cx_Cancel = cancel, cx_Caller = caller, cx_Opener = None\<rparr>
            (s\<lparr>sy_pool := snd (contextPool_Get (sy_pool s))\<rparr>) of
       Inl e \<Rightarrow> Inl e
     | Inr (r, s') \<Rightarrow> Inr (r, s'\<lparr>sy_pool := Context_zero # sy_pool s'\<rparr>))"
  by (simp add: withContext_def bindM_def getsM_def modifyM_def ret_def newContext_eq releaseContext_zero
      split: sum.split)

text \<open>The inode, the entry and the path of a request on an open file.\<close>

definition handle_ok :: "rawBridge \<Rightarrow> u64 \<Rightarrow> bool" where
  "handle_ok b fh \<longleftrightarrow> ucast fh = (0 :: u32) \<or> open_files b (ucast fh) \<noteq> None"

lemma handle_index: "bridge_ok b \<Longrightarrow> handle_ok b fh \<Longrightarrow> unat (ucast fh :: u32) < length (files b)"
  by (auto simp: handle_ok_def bridge_ok_def files_ok_def open_files_def split: if_splits)

lemma file_path_total:
  assumes "bridge_ok (sy_bridge s)" "go_get (nodes (sy_bridge s)) i \<noteq> nil" "handle_ok (sy_bridge s) fh"
  shows "\<exists>path ctx' b. file_path i fh ctx s =
      Inr ((go_get (nodes (sy_bridge s)) i, files (sy_bridge s) ! unat (ucast fh :: u32), path, ctx'), s\<lparr>sy_bridge := b\<rparr>) \<and>
    quiet (sy_bridge s) b"
proof -
  let ?b = "sy_bridge s" let ?n = "go_get (nodes ?b) i" let ?f = "files ?b ! unat (ucast fh :: u32)"
  define ctx' where "ctx' = (if ucast fh \<noteq> (0 :: u32) then ctx\<lparr>cx_Opener := Some (fe_opener ?f)\<rparr> else ctx)"
  have t: "tree_ok ?b" "acyclic (down ?b)" using assms(1) by (simp_all add: bridge_ok_def)
  have 1: "inodeAndFile i (ucast fh) ctx ?b = Inr ((?n, ?f, ctx'), ?b)"
    using handle_index[OF assms(1,3)] assms(2)
    by (simp add: inodeAndFile_def bindM_def getsM_def ret_def Let_def ctx'_def)
  obtain path b where 2: "fpathOf ?n ?f ?b = Inr (path, b)" "quiet ?b b"
  proof (cases "fe_path ?f = []")
    case True
    then show ?thesis
      using pathOf_total[OF t table_valid(1)[OF t(1) assms(2)]] that by (auto simp: fpathOf_def)
  next
    case False
    then show ?thesis using that[of "fe_path ?f" ?b] by (simp add: fpathOf_def ret_def)
  qed
  have "file_path i fh ctx s = Inr ((?n, ?f, path, ctx'), s\<lparr>sy_bridge := b\<rparr>)"
    unfolding file_path_def by (rule onBridge_eq) (simp add: bindM_def 1 2(1) ret_def)
  with 2(2) show ?thesis by blast
qed

lemma registerFile_ok:
  assumes "bridge_ok b" "files_room b"
  shows "\<exists>fh b'. registerFile opener path uFh stream b = Inr (fh, b') \<and> bridge_ok b' \<and> refs b' = refs b \<and>
    nodes b' = nodes b \<and> fh \<noteq> 0 \<and> open_files b fh = None \<and>
    open_files b' = (open_files b)(fh \<mapsto> \<lparr>fe_opener = opener, fe_path = path, fe_uFh = uFh, fe_stream = stream\<rparr>)"
proof -
  let ?e = "\<lparr>fe_opener = opener, fe_path = path, fe_uFh = uFh, fe_stream = stream\<rparr>"
  let ?b = "register_st ?e b"
  have f: "files_ok b" using assms(1) by (simp add: bridge_ok_def)
  note v = views_cong[of ?b b]
  have h: "length (nodes ?b) \<le> nodeCountHigh ?b"
    using assms(1) by (simp add: bridge_ok_def tree_ok_def wf_upto_def tab_ok_def)
  have "tree_ok ?b" using tree_ok_cong[of ?b b] assms(1) h by (simp add: bridge_ok_def)
  moreover have "files_ok ?b" using ft.register_good[OF f assms(2), of ?e] by simp
  ultimately have "bridge_ok ?b" using assms(1) v by (simp add: bridge_ok_def)
  moreover have "refs ?b = refs b" using v by (simp add: refs_def fun_eq_iff)
  ultimately show ?thesis
    using registerFile_eq[OF f, of opener path uFh stream] ft.register_fresh[OF f assms(2), of ?e]
      ft.register_not_none[OF f assms(2), of ?e] ft.register_table[OF f assms(2), of ?e]
    by auto
qed

lemma unregisterFile_ok:
  assumes "bridge_ok b" "fh = 0 \<or> open_files b fh \<noteq> None"
  shows "\<exists>b'. unregisterFile fh b = Inr ((), b') \<and> bridge_ok b' \<and> refs b' = refs b \<and> nodes b' = nodes b \<and>
    open_files b' = (open_files b)(fh := None)"
proof (cases "fh = 0")
  case True
  have f: "files_ok b" using assms(1) by (simp add: bridge_ok_def)
  then have "open_files b 0 = None" by (rule ft.none_unused)
  with True assms(1) show ?thesis by (auto simp: unregisterFile_eq)
next
  case False
  then have o: "open_files b fh \<noteq> None" using assms(2) by simp
  let ?b = "release_st fh b"
  have f: "files_ok b" using assms(1) by (simp add: bridge_ok_def)
  note v = views_cong[of ?b b]
  have h: "length (nodes ?b) \<le> nodeCountHigh ?b"
    using assms(1) by (simp add: bridge_ok_def tree_ok_def wf_upto_def tab_ok_def)
  have "tree_ok ?b" using tree_ok_cong[of ?b b] assms(1) h by (simp add: bridge_ok_def)
  then have "bridge_ok ?b" using assms(1) v ft.release_good[OF f o] by (simp add: bridge_ok_def)
  moreover have "refs ?b = refs b" using v by (simp add: refs_def fun_eq_iff)
  ultimately show ?thesis
    using False open_filesD[OF o] ft.release_table[OF f o] by (simp add: unregisterFile_eq)
qed

end
