(* ===== verification/Requests.thy ===== *)
theory Requests
  imports Bridge_Inv
begin

text \<open>
  Total correctness of requests: \<open>total m s P\<close> says that \<open>m\<close> returns from the state \<open>s\<close>,
  and that \<open>P\<close> holds of its result, of the bridge and of the world after it. The rules
  follow the way the requests are composed.
\<close>

section \<open>The judgement and its rules\<close>

definition total :: "('w sys, 'a) M \<Rightarrow> 'w sys \<Rightarrow> ('a \<Rightarrow> rawBridge \<Rightarrow> 'w \<Rightarrow> bool) \<Rightarrow> bool" where
  "total m s P \<longleftrightarrow> (\<exists>r s'. m s = Inr (r, s') \<and> P r (sy_bridge s') (sy_world s'))"

declare Ok_def [simp]

lemma totalI: "m s = Inr (r, s') \<Longrightarrow> P r (sy_bridge s') (sy_world s') \<Longrightarrow> total m s P"
  by (auto simp: total_def)

named_theorems total_rules \<open>introduction rules of total correctness\<close>

lemma total_weaken: "total m s Q \<Longrightarrow> (\<And>r b w. Q r b w \<Longrightarrow> P r b w) \<Longrightarrow> total m s P"
  by (auto simp: total_def)

lemma total_ret [total_rules]: "P r (sy_bridge s) (sy_world s) \<Longrightarrow> total (ret r) s P"
  by (simp add: total_def ret_def)

lemma total_bind:
  assumes "total m s Q" "\<And>r s'. Q r (sy_bridge s') (sy_world s') \<Longrightarrow> total (k r) s' P"
  shows "total (bindM m k) s P"
  using assms unfolding total_def bindM_def by fastforce

lemma total_gets [total_rules]: "P (f s) (sy_bridge s) (sy_world s) \<Longrightarrow> total (getsM f) s P"
  by (simp add: total_def getsM_def)

lemma total_FS [total_rules]:
  "P (fst (f (sy_world s))) (sy_bridge s) (snd (f (sy_world s))) \<Longrightarrow> total (onFS f) s P"
  by (simp add: total_def onFS_def split_beta Let_def)

lemma total_Bridge: "m (sy_bridge s) = Inr (x, b) \<Longrightarrow> P x b (sy_world s) \<Longrightarrow> total (onBridge m) s P"
  by (simp add: total_def onBridge_def)

lemma total_Context [total_rules]:
  assumes "\<And>s'. sy_bridge s' = sy_bridge s \<Longrightarrow> sy_world s' = sy_world s \<Longrightarrow>
    total (body \<lparr>cx_Cancel = cancel, cx_Caller = caller, cx_Opener = None\<rparr>) s' P"
  shows "total (withContext cancel caller body) s P"
  using assms[of "s\<lparr>sy_pool := snd (contextPool_Get (sy_pool s))\<rparr>"]
  by (auto simp: total_def withContext_eq)

text \<open>Sequences that start by the file system, by a test, or by reading the state.\<close>

lemma total_bind_FS:
  assumes "\<And>s'. sy_bridge s' = sy_bridge s \<Longrightarrow> sy_world s' = snd (f (sy_world s)) \<Longrightarrow>
    total (k (fst (f (sy_world s)))) s' P"
  shows "total (bindM (onFS f) k) s P"
  by (rule total_bind[where Q = "\<lambda>r b w. r = fst (f (sy_world s)) \<and> b = sy_bridge s \<and> w = snd (f (sy_world s))"])
    (use assms in \<open>auto intro: total_FS\<close>)

lemma total_bind_Bridge:
  assumes "m (sy_bridge s) = Inr (x, b)"
    and "\<And>s'. sy_bridge s' = b \<Longrightarrow> sy_world s' = sy_world s \<Longrightarrow> total (k x) s' P"
  shows "total (bindM (onBridge m) k) s P"
  by (rule total_bind[where Q = "\<lambda>r b' w. r = x \<and> b' = b \<and> w = sy_world s"])
    (use assms in \<open>auto intro: total_Bridge\<close>)

lemma total_bind_gets: "total (k (f s)) s P \<Longrightarrow> total (bindM (getsM f) k) s P"
  by (simp add: total_def bindM_def getsM_def)

lemma total_bind_ret: "total (k r) s P \<Longrightarrow> total (bindM (ret r) k) s P"
  by (simp add: bindM_ret)

text \<open>The paths.\<close>

definition path_in :: "rawBridge \<Rightarrow> addr \<Rightarrow> string \<Rightarrow> bool" where
  "path_in b p path \<longleftrightarrow> (\<exists>b1 b2. quiet b b1 \<and> pathOf p b1 = Inr (path, b2))"

lemma total_node:
  assumes "bridge_ok (sy_bridge s)" "go_get (nodes (sy_bridge s)) i \<noteq> nil"
    and "\<And>path s'. quiet (sy_bridge s) (sy_bridge s') \<Longrightarrow> sy_world s' = sy_world s \<Longrightarrow>
      path_in (sy_bridge s) (go_get (nodes (sy_bridge s)) i) path \<Longrightarrow>
      total (k (go_get (nodes (sy_bridge s)) i, path)) s' P"
  shows "total (bindM (node_path i) k) s P"
proof -
  obtain path b where n: "node_path i s = Inr ((go_get (nodes (sy_bridge s)) i, path), s\<lparr>sy_bridge := b\<rparr>)"
    "pathOf (go_get (nodes (sy_bridge s)) i) (sy_bridge s) = Inr (path, b)" "quiet (sy_bridge s) b"
    using node_path_total[OF assms(1,2)] by blast
  have "path_in (sy_bridge s) (go_get (nodes (sy_bridge s)) i) path"
    unfolding path_in_def using n(2) quiet_refl by blast
  with assms(3)[of "s\<lparr>sy_bridge := b\<rparr>" path] n show ?thesis by (simp add: total_def bindM_def)
qed

lemma total_child:
  assumes "bridge_ok (sy_bridge s)" "go_get (nodes (sy_bridge s)) i \<noteq> nil"
    and "\<And>path s'. quiet (sy_bridge s) (sy_bridge s') \<Longrightarrow> sy_world s' = sy_world s \<Longrightarrow>
      path_in (sy_bridge s) (go_get (nodes (sy_bridge s)) i) path \<Longrightarrow>
      total (k (go_get (nodes (sy_bridge s)) i, childPathOf path name)) s' P"
  shows "total (bindM (child_path i name) k) s P"
proof -
  have "total (bindM (node_path i) (\<lambda>(parent, ppath). bindM (ret (parent, childPathOf ppath name)) k)) s P"
    by (rule total_node[OF assms(1,2)]) (simp add: bindM_ret assms(3))
  then show ?thesis by (simp add: child_path_def bindM_assoc case_prod_unfold)
qed

lemma total_file:
  assumes "bridge_ok (sy_bridge s)" "go_get (nodes (sy_bridge s)) i \<noteq> nil" "handle_ok (sy_bridge s) fh"
    and "\<And>path ctx' s'. quiet (sy_bridge s) (sy_bridge s') \<Longrightarrow> sy_world s' = sy_world s \<Longrightarrow>
      total (k (go_get (nodes (sy_bridge s)) i, files (sy_bridge s) ! unat (ucast fh :: u32), path, ctx')) s' P"
  shows "total (bindM (file_path i fh ctx) k) s P"
proof -
  obtain path ctx' b where n: "file_path i fh ctx s =
      Inr ((go_get (nodes (sy_bridge s)) i, files (sy_bridge s) ! unat (ucast fh :: u32), path, ctx'), s\<lparr>sy_bridge := b\<rparr>)"
    "quiet (sy_bridge s) b"
    using file_path_total[OF assms(1-3)] by blast
  with assms(4)[of "s\<lparr>sy_bridge := b\<rparr>" path ctx'] show ?thesis by (simp add: total_def bindM_def)
qed

section \<open>Requests that leave the inodes and the files alone\<close>

text \<open>
  What an open file is for the file system: who opened it, its path, and the file system's own
  handle. The listing of an open directory is left out, as reading the directory changes it.
\<close>

definition held :: "rawBridge \<Rightarrow> u32 \<Rightarrow> (Owner \<times> string \<times> u32) option" where
  "held b fh = map_option (\<lambda>e. (fe_opener e, fe_path e, fe_uFh e)) (open_files b fh)"

lemma held_dom: "dom (held b) = dom (open_files b)"
  by (auto simp: held_def domIff)

lemma held_None [simp]: "held b fh = None \<longleftrightarrow> open_files b fh = None"
  by (simp add: held_def)

lemma held_cong: "open_files b' = open_files b \<Longrightarrow> held b' = held b"
  by (simp add: held_def fun_eq_iff)

lemma held_open:
  "open_files b' = (open_files b)(fh \<mapsto> e) \<Longrightarrow> held b' = (held b)(fh \<mapsto> (fe_opener e, fe_path e, fe_uFh e))"
  by (simp add: held_def fun_eq_iff)

lemma held_close: "open_files b' = (open_files b)(fh := None) \<Longrightarrow> held b' = (held b)(fh := None)"
  by (simp add: held_def fun_eq_iff)

lemma held_openD: "held b' = held b \<Longrightarrow> open_files b' fh = None \<longleftrightarrow> open_files b fh = None"
  by (metis held_None)

text \<open>\<open>enters b b' fh\<close>: the handle got an entry, the others are what they were.\<close>

definition enters :: "rawBridge \<Rightarrow> rawBridge \<Rightarrow> u32 \<Rightarrow> bool" where
  "enters b b' fh \<longleftrightarrow> fh \<notin> dom (open_files b) \<and> (\<exists>f. held b' = (held b)(fh \<mapsto> f))"

lemma enters_open: "open_files b' = (open_files b)(fh \<mapsto> e) \<Longrightarrow> fh \<notin> dom (open_files b) \<Longrightarrow> enters b b' fh"
  unfolding enters_def using held_open by blast

lemma enters_held: "enters b b' fh \<Longrightarrow> held b = held b0 \<Longrightarrow> enters b0 b' fh"
  using held_dom[of b] held_dom[of b0] by (simp add: enters_def)

definition keeps :: "rawBridge \<Rightarrow> rawBridge \<Rightarrow> bool" where
  "keeps b b' \<longleftrightarrow> bridge_ok b' \<and> refs b' = refs b \<and> nodes b' = nodes b \<and> held b' = held b"

lemma quiet_keeps: "bridge_ok b \<Longrightarrow> quiet b b' \<Longrightarrow> keeps b b'"
  using quiet_ok[of b b'] quiet_views(8)[of b b'] quiet_frame[of b b'] open_files_cong[of b' b]
  by (simp add: keeps_def held_cong[of b' b])

lemma keeps_refl: "bridge_ok b \<Longrightarrow> keeps b b"
  by (simp add: keeps_def)

lemma node_of_refs: "0 < refs b i \<Longrightarrow> go_get (nodes b) i \<noteq> nil"
  by (rule refs_pos)

lemma Access_keeps:
  assumes "bridge_ok (sy_bridge s)" "0 < refs (sy_bridge s) (ih_NodeId h)"
  shows "total (Access fs c h m) s (\<lambda>_ b _. keeps (sy_bridge s) b)"
  unfolding Access_def
  by (intro total_rules total_node) (use assms in \<open>auto simp: node_of_refs intro!: total_rules quiet_keeps\<close>)

lemma GetAttr_keeps:
  assumes "bridge_ok (sy_bridge s)" "0 < refs (sy_bridge s) (ih_NodeId h)" "handle_ok (sy_bridge s) (fi_Fh h)"
  shows "total (GetAttr fs lib c h ao) s (\<lambda>_ b _. keeps (sy_bridge s) b)"
  unfolding GetAttr_def getAttr_def
  by (intro total_rules total_file)
    (use assms in \<open>auto simp: node_of_refs Let_def intro!: total_rules total_bind_FS total_bind_gets quiet_keeps
      split: prod.split\<close>)

lemmas node_rules = total_rules total_bind_FS total_bind_gets total_bind_ret quiet_keeps

lemma SetAttr_keeps:
  assumes "bridge_ok (sy_bridge s)" "0 < refs (sy_bridge s) (ih_NodeId h)" "handle_ok (sy_bridge s) (fst (sa_GetFh h))"
  shows "total (SetAttr fs lib c h ao) s (\<lambda>_ b _. keeps (sy_bridge s) b)"
  unfolding SetAttr_def getAttr_def Let_def case_prod_unfold
  by (intro total_rules total_file)
    (use assms in \<open>auto simp: node_of_refs Let_def intro!: node_rules split: prod.split\<close>)

lemma Readlink_keeps:
  assumes "bridge_ok (sy_bridge s)" "0 < refs (sy_bridge s) (ih_NodeId h)"
  shows "total (Readlink fs c h) s (\<lambda>_ b _. keeps (sy_bridge s) b)"
  unfolding Readlink_def
  by (intro total_rules total_node) (use assms in \<open>auto simp: node_of_refs intro!: node_rules\<close>)

lemma GetXAttr_keeps:
  assumes "bridge_ok (sy_bridge s)" "0 < refs (sy_bridge s) (ih_NodeId h)"
  shows "total (GetXAttr fs c h attr dest) s (\<lambda>_ b _. keeps (sy_bridge s) b)"
  unfolding GetXAttr_def case_prod_unfold Let_def
  by (intro total_rules total_node) (use assms in \<open>auto simp: node_of_refs intro!: node_rules\<close>)

lemma ListXAttr_keeps:
  assumes "bridge_ok (sy_bridge s)" "0 < refs (sy_bridge s) (ih_NodeId h)"
  shows "total (ListXAttr fs c h dest) s (\<lambda>_ b _. keeps (sy_bridge s) b)"
  unfolding ListXAttr_def case_prod_unfold Let_def
  by (intro total_rules total_node) (use assms in \<open>auto simp: node_of_refs intro!: node_rules\<close>)

lemma SetXAttr_keeps:
  assumes "bridge_ok (sy_bridge s)" "0 < refs (sy_bridge s) (ih_NodeId h)"
  shows "total (SetXAttr fs c h flags attr data) s (\<lambda>_ b _. keeps (sy_bridge s) b)"
  unfolding SetXAttr_def
  by (intro total_rules total_node) (use assms in \<open>auto simp: node_of_refs intro!: node_rules\<close>)

lemma RemoveXAttr_keeps:
  assumes "bridge_ok (sy_bridge s)" "0 < refs (sy_bridge s) (ih_NodeId h)"
  shows "total (RemoveXAttr fs c h attr) s (\<lambda>_ b _. keeps (sy_bridge s) b)"
  unfolding RemoveXAttr_def
  by (intro total_rules total_node) (use assms in \<open>auto simp: node_of_refs intro!: node_rules\<close>)

lemma StatFs_keeps:
  assumes "bridge_ok (sy_bridge s)" "0 < refs (sy_bridge s) (ih_NodeId h)"
  shows "total (StatFs fs c h sf) s (\<lambda>_ b _. keeps (sy_bridge s) b)"
  unfolding StatFs_def
  by (intro total_rules total_node) (use assms in \<open>auto simp: node_of_refs intro!: node_rules\<close>)

text \<open>The requests that hand an open file to the file system.\<close>

lemma file_keeps:
  assumes "bridge_ok (sy_bridge s)" "0 < refs (sy_bridge s) (ih_NodeId h)" "handle_ok (sy_bridge s) fh"
  shows "total (withContext c (ih_Caller h) (\<lambda>ctx.
      bindM (file_path (ih_NodeId h) fh ctx) (\<lambda>(n, f, path, ctx). onFS (call n f path ctx)))) s
    (\<lambda>_ b _. keeps (sy_bridge s) b)"
  by (intro total_rules total_file) (use assms in \<open>auto simp: node_of_refs intro!: node_rules\<close>)

lemma file_requests_keep:
  assumes "bridge_ok (sy_bridge s)" "0 < refs (sy_bridge s) (ih_NodeId h)" "handle_ok (sy_bridge s) (fi_Fh h)"
  shows "total (Read fs c h off dest) s (\<lambda>_ b _. keeps (sy_bridge s) b)"
    "total (Write fs c h off data) s (\<lambda>_ b _. keeps (sy_bridge s) b)"
    "total (Fallocate fs c h off len mode) s (\<lambda>_ b _. keeps (sy_bridge s) b)"
    "total (Fsync fs c h flags) s (\<lambda>_ b _. keeps (sy_bridge s) b)"
    "total (Flush fs c h owner) s (\<lambda>_ b _. keeps (sy_bridge s) b)"
  unfolding Read_def Write_def Fallocate_def Fsync_def Flush_def by (rule file_keeps[OF assms])+

lemma lock_requests_keep:
  fixes h :: LkIn
  assumes "bridge_ok (sy_bridge s)" "0 < refs (sy_bridge s) (ih_NodeId h)" "handle_ok (sy_bridge s) (fi_Fh h)"
  shows "total (GetLk fs c h lk) s (\<lambda>_ b _. keeps (sy_bridge s) b)"
    "total (SetLk fs c h) s (\<lambda>_ b _. keeps (sy_bridge s) b)"
    "total (SetLkw fs c h) s (\<lambda>_ b _. keeps (sy_bridge s) b)"
  unfolding GetLk_def SetLk_def SetLkw_def by (rule file_keeps[OF assms])+

section \<open>Open files\<close>

lemma total_register:
  assumes "bridge_ok (sy_bridge s)" "files_room (sy_bridge s)"
    and "\<And>fh s'. bridge_ok (sy_bridge s') \<Longrightarrow> refs (sy_bridge s') = refs (sy_bridge s) \<Longrightarrow>
      nodes (sy_bridge s') = nodes (sy_bridge s) \<Longrightarrow> sy_world s' = sy_world s \<Longrightarrow> fh \<noteq> 0 \<Longrightarrow>
      fh \<notin> dom (open_files (sy_bridge s)) \<Longrightarrow> open_files (sy_bridge s') =
        (open_files (sy_bridge s))(fh \<mapsto> \<lparr>fe_opener = opener, fe_path = path, fe_uFh = uFh, fe_stream = stream\<rparr>) \<Longrightarrow>
      total (k fh) s' P"
  shows "total (bindM (onBridge (registerFile opener path uFh stream)) k) s P"
proof -
  obtain fh b where r: "registerFile opener path uFh stream (sy_bridge s) = Inr (fh, b)" "bridge_ok b"
    "refs b = refs (sy_bridge s)" "nodes b = nodes (sy_bridge s)" "fh \<noteq> 0" "open_files (sy_bridge s) fh = None"
    "open_files b = (open_files (sy_bridge s))(fh \<mapsto> \<lparr>fe_opener = opener, fe_path = path, fe_uFh = uFh, fe_stream = stream\<rparr>)"
    using registerFile_ok[OF assms(1,2)] by blast
  show ?thesis
    by (rule total_bind_Bridge[where x = fh and b = b])
      (use r assms(3) in \<open>auto simp: domIff\<close>)
qed

text \<open>\<open>opened b b' fh\<close>: the handle was free, and is in use now.\<close>

definition opened :: "rawBridge \<Rightarrow> rawBridge \<Rightarrow> u64 \<Rightarrow> bool" where
  "opened b b' fh \<longleftrightarrow>
     bridge_ok b' \<and> refs b' = refs b \<and> nodes b' = nodes b \<and> ucast fh \<noteq> (0 :: u32) \<and>
     enters b b' (ucast fh)"

lemma ucast_ucast_32 [simp]: "ucast (ucast x :: u64) = (x :: u32)"
  by transfer simp

lemma open_flags_Fh [simp]:
  "oo_Fh (if p then oo\<lparr>oo_OpenFlags := x\<rparr> else if q then oo\<lparr>oo_OpenFlags := y\<rparr> else oo) = oo_Fh oo"
  by simp

lemma quiet_room: "quiet b b' \<Longrightarrow> files_room b \<Longrightarrow> files_room b'"
  by (simp add: files_room_def quiet_def)

lemma quiet_open: "quiet b b' \<Longrightarrow> open_files b' = open_files b"
  by (rule open_files_cong) (simp_all add: quiet_def)

lemma quiet_held: "quiet b b' \<Longrightarrow> held b' = held b"
  by (rule held_cong) (rule quiet_open)


lemma Open_opens:
  assumes "bridge_ok (sy_bridge s)" "0 < refs (sy_bridge s) (ih_NodeId h)" "files_room (sy_bridge s)"
  shows "total (Open fs lib c h flags oo) s
    (\<lambda>r b _. if fst r = OK then opened (sy_bridge s) b (oo_Fh (snd r)) else keeps (sy_bridge s) b)"
  unfolding Open_def case_prod_unfold Let_def
  by (intro total_rules total_node)
    (use assms in \<open>auto simp: node_of_refs quiet_frame quiet_views(8) quiet_ok quiet_room quiet_open opened_def Ok_def
      intro!: total_rules total_bind_FS quiet_keeps total_register enters_open\<close>)

lemma OpenDir_opens:
  assumes "bridge_ok (sy_bridge s)" "0 < refs (sy_bridge s) (ih_NodeId h)" "files_room (sy_bridge s)"
  shows "total (OpenDir h oo) s
    (\<lambda>r b _. if fst r = OK then opened (sy_bridge s) b (oo_Fh (snd r)) else keeps (sy_bridge s) b)"
  unfolding OpenDir_def case_prod_unfold Let_def
  by (intro total_node)
    (use assms in \<open>auto simp: node_of_refs quiet_frame quiet_views(8) quiet_ok quiet_room quiet_open opened_def Ok_def
      intro!: total_rules total_register enters_open\<close>)

lemma total_unregister:
  assumes "bridge_ok (sy_bridge s)" "fh = 0 \<or> open_files (sy_bridge s) fh \<noteq> None"
    and "\<And>b. bridge_ok b \<Longrightarrow> refs b = refs (sy_bridge s) \<Longrightarrow> nodes b = nodes (sy_bridge s) \<Longrightarrow>
      held b = (held (sy_bridge s))(fh := None) \<Longrightarrow> P () b (sy_world s)"
  shows "total (onBridge (unregisterFile fh)) s P"
  using unregisterFile_ok[OF assms(1,2)] assms(3) held_close by (auto intro!: total_Bridge)

text \<open>\<open>closed b b' fh\<close>: the handle is free.\<close>

definition closed :: "rawBridge \<Rightarrow> rawBridge \<Rightarrow> u64 \<Rightarrow> bool" where
  "closed b b' fh \<longleftrightarrow>
     bridge_ok b' \<and> refs b' = refs b \<and> nodes b' = nodes b \<and>
     held b' = (held b)(ucast fh := None)"

lemma Release_closes:
  assumes "bridge_ok (sy_bridge s)" "0 < refs (sy_bridge s) (ih_NodeId h)" "handle_ok (sy_bridge s) (fi_Fh h)"
  shows "total (Release fs c h) s (\<lambda>_ b _. closed (sy_bridge s) b (fi_Fh h))"
  unfolding Release_def
  by (intro total_rules total_file)
    (use assms in \<open>auto simp: node_of_refs quiet_frame quiet_views(8) quiet_ok quiet_open quiet_held handle_ok_def closed_def
      intro!: total_bind_FS total_unregister split: if_splits\<close>)

lemma ReleaseDir_closes:
  assumes "bridge_ok (sy_bridge s)" "handle_ok (sy_bridge s) fh"
  shows "total (ReleaseDir fh) s (\<lambda>_ b _. closed (sy_bridge s) b fh)"
  unfolding ReleaseDir_def
  by (rule total_unregister) (use assms in \<open>auto simp: handle_ok_def closed_def split: if_splits\<close>)

text \<open>Reading a directory changes the listing in the entry of the open file.\<close>

lemma total_dir_load:
  assumes "bridge_ok (sy_bridge s)" "open_files (sy_bridge s) fh \<noteq> None"
  shows "total (dir_load fs ctx path fh) s (\<lambda>_ b _. keeps (sy_bridge s) b)"
proof -
  let ?b = "sy_bridge s"
  let ?upd = "\<lambda>st. ?b\<lparr>files := (files ?b)[unat fh := (files ?b ! unat fh)\<lparr>fe_stream := Some st\<rparr>]\<rparr>"
  have k: "keeps ?b (?upd st)" for st
  proof -
    note v = views_cong[of "?upd st" ?b]
    note o = open_filesD[OF assms(2)]
    have h: "length (nodes (?upd st)) \<le> nodeCountHigh (?upd st)"
      using assms(1) by (simp add: bridge_ok_def tree_ok_def wf_upto_def tab_ok_def)
    have t: "tree_ok (?upd st)" using tree_ok_cong[of "?upd st" ?b] assms(1) h by (simp add: bridge_ok_def)
    have "unat fh \<noteq> 0" "\<And>x. x \<in> set (freeFiles ?b) \<Longrightarrow> unat fh \<noteq> unat x"
      using o by (auto simp: unat_inj unat_eq_0)
    then have "files_ok (?upd st)" using assms(1) o by (auto simp: bridge_ok_def files_ok_def nth_list_update_neq)
    with t v assms(1) have "bridge_ok (?upd st)" by (simp add: bridge_ok_def)
    moreover have "held (?upd st) = held ?b"
      using o(1,2) by (auto simp: held_def open_files_def fun_eq_iff nth_list_update)
    moreover have "refs (?upd st) = refs ?b" using v by (simp add: refs_def fun_eq_iff)
    ultimately show ?thesis by (simp add: keeps_def)
  qed
  show ?thesis
    unfolding dir_load_def case_prod_unfold Let_def
    by (rule total_bind_FS) (use assms k in \<open>auto intro!: total_rules keeps_refl simp: total_def bindM_def modifyM_def ret_def\<close>)
qed

lemma total_dir_stream:
  assumes "bridge_ok (sy_bridge s)" "open_files (sy_bridge s) fh \<noteq> None"
  shows "total (dir_stream fs ctx path fh d off) s (\<lambda>_ b _. keeps (sy_bridge s) b)"
  unfolding dir_stream_def
  by (cases "fe_stream d") (auto intro!: total_dir_load total_ret keeps_refl assms)

lemma ReadDir_loop_quiet:
  fixes s :: "'w sys"
  shows "total (ReadDir_loop lib es out) s (\<lambda>_ b _. quiet (sy_bridge s) b)"
proof (induction lib es out arbitrary: s rule: ReadDir_loop.induct)
  case (2 lib e es out)
  show ?case
  proof (cases "de_Name e = ''''")
    case True
    obtain b where b: "logf (Log_empty_name (de_Mode e)) (sy_bridge s) = Inr ((), b)" "quiet (sy_bridge s) b"
      using logf_total by blast
    have "total (ReadDir_loop lib es out) s' (\<lambda>_ b' _. quiet (sy_bridge s) b')" if "sy_bridge s' = b" for s' :: "'w sys"
      by (rule total_weaken[OF 2(1)[OF True]]) (use b(2) quiet_trans that in blast)
    with True b show ?thesis by (auto intro: total_bind_Bridge)
  next
    case False
    then show ?thesis using 2(2)[OF False refl] by (auto intro: total_ret split: prod.split)
  qed
qed (simp add: total_ret)

lemma keeps_quiet_trans: "keeps b b' \<Longrightarrow> quiet b' b'' \<Longrightarrow> keeps b b''"
  using quiet_keeps[of b' b''] by (simp add: keeps_def)

lemma quiet_keeps_trans: "quiet b b' \<Longrightarrow> keeps b' b'' \<Longrightarrow> keeps b b''"
  by (simp add: keeps_def quiet_frame quiet_views(8) quiet_held)

lemma ReadDir_keeps:
  fixes s :: "'w sys"
  assumes "bridge_ok (sy_bridge s)" "0 < refs (sy_bridge s) (ih_NodeId h)"
    and "open_files (sy_bridge s) (ucast (fi_Fh h)) \<noteq> None"
  shows "total (ReadDir fs lib c h off out) s (\<lambda>_ b _. keeps (sy_bridge s) b)"
  unfolding ReadDir_def case_prod_unfold
proof (intro total_rules total_file)
  fix s1 s2 :: "'w sys" and path ctx'
  assume 1: "sy_bridge s1 = sy_bridge s" and q: "quiet (sy_bridge s1) (sy_bridge s2)"
  then have b2: "bridge_ok (sy_bridge s2)" "open_files (sy_bridge s2) (ucast (fi_Fh h)) \<noteq> None"
    using assms quiet_ok[OF q] quiet_open[OF q] by simp_all
  show "total (bindM (dir_stream fs (snd (snd (snd (node, d, path, ctx')))) (fst (snd (snd (node, d, path, ctx'))))
      (ucast (fi_Fh h)) (fst (snd (node, d, path, ctx'))) off)
    (\<lambda>r. case r of Inl code \<Rightarrow> ret (code, out)
       | Inr stream \<Rightarrow> if length stream < unat off then ret (OK, out)
           else bindM (ReadDir_loop lib (drop (unat off) stream) out) (\<lambda>out'. ret (OK, out')))) s2
    (\<lambda>_ b _. keeps (sy_bridge s) b)" for node d
  proof (rule total_bind[OF total_dir_stream[OF b2]])
    fix r and s3 :: "'w sys" assume k: "keeps (sy_bridge s2) (sy_bridge s3)"
    then have k3: "keeps (sy_bridge s) (sy_bridge s3)" using quiet_keeps_trans q 1 by metis
    have "total (ReadDir_loop lib es out) s3 (\<lambda>_ b _. keeps (sy_bridge s) b)" for es
      by (rule total_weaken[OF ReadDir_loop_quiet]) (use k3 keeps_quiet_trans in blast)
    then show "total (case r of Inl code \<Rightarrow> ret (code, out)
       | Inr stream \<Rightarrow> if length stream < unat off then ret (OK, out)
           else bindM (ReadDir_loop lib (drop (unat off) stream) out) (\<lambda>out'. ret (OK, out'))) s3
      (\<lambda>_ b _. keeps (sy_bridge s) b)"
      using k3 by (auto intro!: total_ret total_bind split: sum.split)
  qed
qed (use assms in \<open>auto simp: node_of_refs handle_ok_def\<close>)

section \<open>Entries\<close>

text \<open>
  What the file system answers for the attributes of a path, in a world: a number that is
  possible for the name in the directory.
\<close>

definition answers_ok :: "'w FileSystem \<Rightarrow> rawBridge \<Rightarrow> Context \<Rightarrow> addr \<Rightarrow> string \<Rightarrow> string \<Rightarrow> 'w \<Rightarrow> bool" where
  "answers_ok fs b ctx p path name w \<longleftrightarrow>
     (\<forall>a attr w'. fs_GetAttr fs ctx path 0 a w = ((OK, attr), w') \<longrightarrow> answer_ok b p name (at_Ino attr))"

text \<open>The same after a call that makes the entry, in the world the call leaves.\<close>

definition creates_ok ::
  "'w FileSystem \<Rightarrow> rawBridge \<Rightarrow> Context \<Rightarrow> addr \<Rightarrow> string \<Rightarrow> (string \<Rightarrow> 'w \<Rightarrow> 'a \<times> 'w) \<Rightarrow> 'w \<Rightarrow> bool" where
  "creates_ok fs b ctx p name call w \<longleftrightarrow>
     (\<forall>path. path_in b p path \<longrightarrow>
        answers_ok fs b ctx p (childPathOf path name) name (snd (call (childPathOf path name) w)))"

lemma quiet_answer: "quiet b b' \<Longrightarrow> answer_ok b' p name i = answer_ok b p name i"
  using quiet_frame[of b b'] quiet_views[of b b'] by (simp add: answer_ok_def)

lemma quiet_answers: "quiet b b' \<Longrightarrow> answers_ok fs b' ctx p path name w = answers_ok fs b ctx p path name w"
  by (simp add: answers_ok_def quiet_answer)

section \<open>The tree as requests use it\<close>

text \<open>\<open>given b b' i\<close>: the kernel got one more reference on the inode \<open>i\<close>.\<close>

definition given :: "rawBridge \<Rightarrow> rawBridge \<Rightarrow> u64 \<Rightarrow> bool" where
  "given b b' i \<longleftrightarrow>
     bridge_ok b' \<and> refs b' = (refs b)(i := Suc (refs b i)) \<and> held b' = held b \<and>
     (files_room b \<longrightarrow> files_room b')"

text \<open>\<open>taken b b' i n\<close>: the kernel gave back \<open>n\<close> references on the inode \<open>i\<close>.\<close>

definition taken :: "rawBridge \<Rightarrow> rawBridge \<Rightarrow> u64 \<Rightarrow> nat \<Rightarrow> bool" where
  "taken b b' i n \<longleftrightarrow>
     bridge_ok b' \<and> refs b' = (refs b)(i := refs b i - n) \<and> held b' = held b"

text \<open>
  What the requests rely on, as a contract of the four operations: an addition hands out one reference, the
  removal and the move of an entry hand out none, and references that are given back are taken off the count.
  None of them touches open files, and all keep the invariant.
\<close>

locale inode_tree =
  fixes add :: "addr \<Rightarrow> string \<Rightarrow> u64 \<Rightarrow> bool \<Rightarrow> (rawBridge, addr) M"
    and rm :: "addr \<Rightarrow> string \<Rightarrow> (rawBridge, bool) M"
    and mv :: "addr \<Rightarrow> string \<Rightarrow> addr \<Rightarrow> string \<Rightarrow> bool \<Rightarrow> (rawBridge, bool) M"
    and give_back :: "addr \<Rightarrow> u32 \<Rightarrow> (rawBridge, bool) M"
  assumes add_law: "bridge_ok b \<Longrightarrow> go_get (nodes b) j \<noteq> nil \<Longrightarrow> answer_ok b (go_get (nodes b) j) name i \<Longrightarrow>
      \<exists>c b'. add (go_get (nodes b) j) name i dir b = Inr (c, b') \<and> given b b' i \<and> ino (heap b' c) = i"
    and rm_law: "bridge_ok b \<Longrightarrow> 0 < refs b j \<Longrightarrow> \<exists>r b'. rm (go_get (nodes b) j) name b = Inr (r, b') \<and> keeps b b'"
    and mv_law: "bridge_ok b \<Longrightarrow> 0 < refs b j \<Longrightarrow> 0 < refs b k \<Longrightarrow>
      move_ok b (go_get (nodes b) j) name (go_get (nodes b) k) \<Longrightarrow>
      \<exists>r b'. mv (go_get (nodes b) j) name (go_get (nodes b) k) newName True b = Inr (r, b') \<and> keeps b b'"
    and give_back_law: "bridge_ok b \<Longrightarrow> go_get (nodes b) i \<noteq> nil \<Longrightarrow> unat n \<le> refs b i \<Longrightarrow> (i = 1 \<Longrightarrow> unat n < refs b i) \<Longrightarrow>
      \<exists>r b'. give_back (go_get (nodes b) i) n b = Inr (r, b') \<and> taken b b' i (unat n)"
begin

lemma total_add:
  assumes "bridge_ok (sy_bridge s)" "go_get (nodes (sy_bridge s)) j \<noteq> nil"
    and "answer_ok (sy_bridge s) (go_get (nodes (sy_bridge s)) j) name i"
    and "\<And>c s'. given (sy_bridge s) (sy_bridge s') i \<Longrightarrow> ino (heap (sy_bridge s') c) = i \<Longrightarrow> total (k c) s' P"
  shows "total (bindM (onBridge (add (go_get (nodes (sy_bridge s)) j) name i dir)) k) s P"
proof -
  obtain c b' where "add (go_get (nodes (sy_bridge s)) j) name i dir (sy_bridge s) = Inr (c, b')"
    "given (sy_bridge s) b' i" "ino (heap b' c) = i" using add_law[OF assms(1-3)] by blast
  with assms(4) show ?thesis by (intro total_bind_Bridge) auto
qed

lemma total_rm:
  fixes s :: "'w sys"
  assumes "bridge_ok b" "0 < refs b j" "quiet b (sy_bridge s)"
  shows "total (bindM (onBridge (rm (go_get (nodes b) j) name)) (\<lambda>_. ret x)) s (\<lambda>_ b' _. keeps b b')"
proof -
  have n: "nodes (sy_bridge s) = nodes b" "refs (sy_bridge s) = refs b"
    using quiet_frame(1)[OF assms(3)] quiet_views(8)[OF assms(3)] by simp_all
  obtain r b' where "rm (go_get (nodes b) j) name (sy_bridge s) = Inr (r, b')" "keeps (sy_bridge s) b'"
    using rm_law[OF quiet_ok[OF assms(3,1)], of j name] assms(2) n by auto
  with quiet_keeps_trans[OF assms(3)] show ?thesis
    by (intro total_bind_Bridge) (assumption, auto intro!: total_ret)
qed

lemma total_mv:
  fixes s :: "'w sys"
  assumes "bridge_ok b" "0 < refs b j" "0 < refs b k" "quiet b (sy_bridge s)"
    and "move_ok b (go_get (nodes b) j) name (go_get (nodes b) k)"
  shows "total (bindM (onBridge (mv (go_get (nodes b) j) name (go_get (nodes b) k) newName True)) (\<lambda>_. ret x)) s
    (\<lambda>_ b' _. keeps b b')"
proof -
  have n: "nodes (sy_bridge s) = nodes b" "refs (sy_bridge s) = refs b" "heap (sy_bridge s) = heap b"
    "down (sy_bridge s) = down b" "edge (sy_bridge s) p m = edge b p m" for p m
    using quiet_frame[OF assms(4)] quiet_views[OF assms(4)] by simp_all
  have "move_ok (sy_bridge s) (go_get (nodes b) j) name (go_get (nodes b) k)"
    using assms(5) by (simp add: move_ok_def n)
  then obtain r b' where "mv (go_get (nodes b) j) name (go_get (nodes b) k) newName True (sy_bridge s) = Inr (r, b')"
    "keeps (sy_bridge s) b'"
    using mv_law[OF quiet_ok[OF assms(4,1)], of j k name newName] assms(2,3) n(1,2) by auto
  with quiet_keeps_trans[OF assms(4)] show ?thesis
    by (intro total_bind_Bridge) (assumption, auto intro!: total_ret)
qed

end

interpretation it: inode_tree addChild rmChild mvChild remove_ref
proof
  fix b j name i dir
  assume b: "bridge_ok b" "go_get (nodes b) j \<noteq> nil" "answer_ok b (go_get (nodes b) j) name i"
  have t: "tree_ok b" using b(1) by (simp add: bridge_ok_def)
  note p = table_valid[OF t b(2)]
  obtain c b' where l: "addChild (go_get (nodes b) j) name i dir b = Inr (c, b')" "bridge_ok b'"
    "added b (go_get (nodes b) j) name i dir c b'" "refs b' = (refs b)(i := Suc (refs b i))"
    using addChild_ok[OF b(1) p(1,3) b(3)] by blast
  note f = added_frame[OF l(3)]
  have "held b' = held b" by (rule held_cong, rule open_files_cong) (rule f(5,6))+
  moreover have "files_room b' = files_room b" by (simp add: files_room_def f(5,6))
  moreover have "ino (heap b' c) = i" using f(2) by (simp add: inum_def)
  ultimately have "given b b' i \<and> ino (heap b' c) = i" using l(2,4) by (simp add: given_def)
  with l(1) show "\<exists>c b'. addChild (go_get (nodes b) j) name i dir b = Inr (c, b') \<and> given b b' i \<and> ino (heap b' c) = i"
    by blast
next
  fix b j name assume b: "bridge_ok b" "0 < refs b j"
  note p = refs_pos[OF b(2)]
  have t: "tree_ok b" using b(1) by (simp add: bridge_ok_def)
  obtain r b' where r: "rmChild (go_get (nodes b) j) name b = Inr (r, b')" "bridge_ok b'" "refs b' = refs b"
    "nodes b' = nodes b" "open_files b' = open_files b"
    using rmChild_ok[OF b(1) table_valid(1)[OF t p(1)] p(2), of name] by blast
  have "keeps b b'" using r(2-4) held_cong[OF r(5)] by (simp add: keeps_def)
  with r(1) show "\<exists>r b'. rmChild (go_get (nodes b) j) name b = Inr (r, b') \<and> keeps b b'" by blast
next
  fix b j k name newName
  assume b: "bridge_ok b" "0 < refs b j" "0 < refs b k" "move_ok b (go_get (nodes b) j) name (go_get (nodes b) k)"
  note p = refs_pos[OF b(2)] and q = refs_pos[OF b(3)]
  have t: "tree_ok b" using b(1) by (simp add: bridge_ok_def)
  note w = table_valid[OF t q(1)]
  obtain r b' where r: "mvChild (go_get (nodes b) j) name (go_get (nodes b) k) newName True b = Inr (r, b')"
    "bridge_ok b'" "refs b' = refs b" "nodes b' = nodes b" "open_files b' = open_files b"
    using mvChild_ok[OF b(1) table_valid(1)[OF t p(1)] w(1,3) p(2) q(2) b(4), of newName] by blast
  have "keeps b b'" using r(2-4) held_cong[OF r(5)] by (simp add: keeps_def)
  with r(1) show "\<exists>r b'. mvChild (go_get (nodes b) j) name (go_get (nodes b) k) newName True b = Inr (r, b') \<and> keeps b b'"
    by blast
next
  fix b i and n :: u32
  assume b: "bridge_ok b" "go_get (nodes b) i \<noteq> nil" "unat n \<le> refs b i" "i = 1 \<Longrightarrow> unat n < refs b i"
  have r: "refs b i = unat (lookups b (go_get (nodes b) i))" using b(2) by (simp add: refs_def)
  have le: "n \<le> lookups b (go_get (nodes b) i)" "i = 1 \<Longrightarrow> n < lookups b (go_get (nodes b) i)"
    using b(3,4) r by (simp_all add: word_le_nat_alt word_less_nat_alt)
  obtain r b' where r: "remove_ref (go_get (nodes b) i) n b = Inr (r, b')" "bridge_ok b'"
    "refs b' = (refs b)(i := refs b i - unat n)" "open_files b' = open_files b"
    using remove_ref_ok[OF b(1) refl b(2) le] by blast
  have "taken b b' i (unat n)" using r(2,3) held_cong[OF r(4)] by (simp add: taken_def)
  with r(1) show "\<exists>r b'. remove_ref (go_get (nodes b) i) n b = Inr (r, b') \<and> taken b b' i (unat n)" by blast
qed

lemma total_lookup:
  fixes s :: "'w sys"
  assumes "bridge_ok (sy_bridge s)" "go_get (nodes (sy_bridge s)) i \<noteq> nil" "timeouts_ok lib"
    and "answers_ok fs (sy_bridge s) ctx (go_get (nodes (sy_bridge s)) i) path name (sy_world s)"
  shows "total (lookup fs lib ctx path (go_get (nodes (sy_bridge s)) i) name out) s
    (\<lambda>r b _. if fst r = OK then given (sy_bridge s) b (eo_NodeId (snd r)) else b = sy_bridge s)"
proof -
  obtain code attr w where g: "fs_GetAttr fs ctx path 0 (eo_Attr out) (sy_world s) = ((code, attr), w)"
    by (metis surj_pair)
  show ?thesis
  proof (cases "code = OK")
    case False
    then show ?thesis by (intro totalI) (rule lookup_error[OF g False], simp)
  next
    case True
    let ?s = "s\<lparr>sy_world := w\<rparr>"
    have a: "answer_ok (sy_bridge s) (go_get (nodes (sy_bridge s)) i) name (at_Ino attr)"
      using assms(4) g True by (auto simp: answers_ok_def)
    let ?Q = "\<lambda>r b _. if fst r = OK then given (sy_bridge s) b (eo_NodeId (snd r)) else b = sy_bridge s"
    define k :: "addr \<Rightarrow> ('w sys, Status \<times> EntryOut) M" where
      "k = (\<lambda>c. bindM (getsM (\<lambda>s. (options (sy_bridge s), ino (heap (sy_bridge s) c)))) (\<lambda>(opts, i).
        ret (OK, entry_reply lib opts i attr out)))"
    have "total (k c) s' ?Q" if "given (sy_bridge s) (sy_bridge s') (at_Ino attr)" "ino (heap (sy_bridge s') c) = at_Ino attr"
      for c s'
      using that by (simp add: k_def total_bind_gets total_ret entry_reply_NodeId[OF assms(3)])
    then have "total (bindM (onBridge (addChild (go_get (nodes (sy_bridge s)) i) name (at_Ino attr) (lib_IsDir lib attr))) k) ?s ?Q"
      using it.total_add[of ?s i name "at_Ino attr" k ?Q] assms(1,2) a by simp
    moreover have "lookup fs lib ctx path (go_get (nodes (sy_bridge s)) i) name out s =
        bindM (onBridge (addChild (go_get (nodes (sy_bridge s)) i) name (at_Ino attr) (lib_IsDir lib attr))) k ?s"
      using g True by (simp add: lookup_def bindM_def onFS_def entry_reply_def Let_def k_def)
    ultimately show ?thesis by (simp add: total_def)
  qed
qed

text \<open>The outcome of a request whose reply is an entry.\<close>

abbreviation entry_post :: "rawBridge \<Rightarrow> Status \<times> EntryOut \<Rightarrow> rawBridge \<Rightarrow> bool" where
  "entry_post b r b' \<equiv> (if fst r = OK then given b b' (eo_NodeId (snd r)) else keeps b b')"

lemma quiet_given: "quiet b b1 \<Longrightarrow> given b1 b' i \<Longrightarrow> given b b' i"
  by (simp add: given_def quiet_views(8) quiet_held quiet_room)

text \<open>A look-up that follows a quiet step.\<close>

lemma total_lookup_quiet:
  assumes "bridge_ok b" "quiet b (sy_bridge s)" "go_get (nodes b) i \<noteq> nil" "timeouts_ok lib"
    and "answers_ok fs b ctx (go_get (nodes b) i) path name (sy_world s)"
  shows "total (lookup fs lib ctx path (go_get (nodes b) i) name out) s (\<lambda>r b' _. entry_post b r b')"
proof -
  have n: "nodes (sy_bridge s) = nodes b" using assms(2) by (rule quiet_frame)
  have "total (lookup fs lib ctx path (go_get (nodes (sy_bridge s)) i) name out) s
    (\<lambda>r b _. if fst r = OK then given (sy_bridge s) b (eo_NodeId (snd r)) else b = sy_bridge s)"
    using assms quiet_ok[OF assms(2)] by (intro total_lookup) (simp_all add: n quiet_answers[OF assms(2)])
  then show ?thesis
    unfolding n
    by (rule total_weaken) (use assms(1,2) quiet_given quiet_keeps in \<open>auto split: if_splits\<close>)
qed

text \<open>A call that makes an entry, and its look-up.\<close>

lemma total_create:
  fixes s :: "'w sys"
  assumes "bridge_ok b" "0 < refs b i" "timeouts_ok lib" "creates_ok fs b ctx (go_get (nodes b) i) name call w"
    and "sy_bridge s = b" "sy_world s = w"
  shows "total (bindM (child_path i name) (\<lambda>(parent, path).
      bindM (onFS (call path)) (\<lambda>code.
        if \<not> Ok code then ret (code, out) else lookup fs lib ctx path parent name out))) s
    (\<lambda>r b' _. entry_post b r b')"
proof (rule total_child)
  let ?p = "go_get (nodes (sy_bridge s)) i"
  fix path and s1 :: "'w sys"
  assume 1: "quiet (sy_bridge s) (sy_bridge s1)" "sy_world s1 = sy_world s" "path_in (sy_bridge s) ?p path"
  show "total (case (?p, childPathOf path name) of (parent, path) \<Rightarrow>
      bindM (onFS (call path)) (\<lambda>code.
        if \<not> Ok code then ret (code, out) else lookup fs lib ctx path parent name out)) s1
    (\<lambda>r b' _. entry_post b r b')"
  proof (simp only: prod.case, rule total_bind_FS)
    fix s2 :: "'w sys"
    assume 2: "sy_bridge s2 = sy_bridge s1" "sy_world s2 = snd (call (childPathOf path name) (sy_world s1))"
    have "total (lookup fs lib ctx (childPathOf path name) ?p name out) s2 (\<lambda>r b' _. entry_post b r b')"
      using assms 1 2 unfolding assms(5)
      by (intro total_lookup_quiet) (auto simp: node_of_refs creates_ok_def)
    then show "total (if \<not> Ok (fst (call (childPathOf path name) (sy_world s1)))
        then ret (fst (call (childPathOf path name) (sy_world s1)), out)
        else lookup fs lib ctx (childPathOf path name) ?p name out) s2
      (\<lambda>r b' _. entry_post b r b')"
      using 1 2 assms by (auto intro!: total_ret quiet_keeps)
  qed
qed (use assms in \<open>auto simp: node_of_refs\<close>)

definition ctx_of :: "chan \<Rightarrow> ('a) InHeader_scheme \<Rightarrow> Context" where
  "ctx_of c h = \<lparr>cx_Cancel = c, cx_Caller = ih_Caller h, cx_Opener = None\<rparr>"

lemma Mknod_given:
  assumes "bridge_ok (sy_bridge s)" "0 < refs (sy_bridge s) (ih_NodeId h)" "timeouts_ok lib"
    and "creates_ok fs (sy_bridge s) (ctx_of c h) (go_get (nodes (sy_bridge s)) (ih_NodeId h)) name
      (\<lambda>path. fs_Mknod fs (ctx_of c h) path mode rdev) (sy_world s)"
  shows "total (Mknod fs lib c h mode rdev name eo) s (\<lambda>r b _. entry_post (sy_bridge s) r b)"
  unfolding Mknod_def
  by (intro total_Context total_create[OF assms(1-3)]) (use assms(4) in \<open>simp_all add: ctx_of_def\<close>)

lemma Mkdir_given:
  assumes "bridge_ok (sy_bridge s)" "0 < refs (sy_bridge s) (ih_NodeId h)" "timeouts_ok lib"
    and "creates_ok fs (sy_bridge s) (ctx_of c h) (go_get (nodes (sy_bridge s)) (ih_NodeId h)) name
      (\<lambda>path. fs_Mkdir fs (ctx_of c h) path mode) (sy_world s)"
  shows "total (Mkdir fs lib c h mode name eo) s (\<lambda>r b _. entry_post (sy_bridge s) r b)"
  unfolding Mkdir_def
  by (intro total_Context total_create[OF assms(1-3)]) (use assms(4) in \<open>simp_all add: ctx_of_def\<close>)

lemma Symlink_given:
  assumes "bridge_ok (sy_bridge s)" "0 < refs (sy_bridge s) (ih_NodeId h)" "timeouts_ok lib"
    and "creates_ok fs (sy_bridge s) (ctx_of c h) (go_get (nodes (sy_bridge s)) (ih_NodeId h)) name
      (\<lambda>path. fs_Symlink fs (ctx_of c h) path target) (sy_world s)"
  shows "total (Symlink fs lib c h target name eo) s (\<lambda>r b _. entry_post (sy_bridge s) r b)"
  unfolding Symlink_def
  by (intro total_Context total_create[OF assms(1-3)]) (use assms(4) in \<open>simp_all add: ctx_of_def\<close>)

lemma Lookup_given:
  fixes s :: "'w sys"
  assumes "bridge_ok (sy_bridge s)" "0 < refs (sy_bridge s) (ih_NodeId h)" "timeouts_ok lib"
    and "creates_ok fs (sy_bridge s) (ctx_of c h) (go_get (nodes (sy_bridge s)) (ih_NodeId h)) name
      (\<lambda>path w. ((), w)) (sy_world s)"
  shows "total (Lookup fs lib c h name eo) s (\<lambda>r b _. entry_post (sy_bridge s) r b)"
  unfolding Lookup_def
proof (intro total_Context total_child)
  let ?b = "sy_bridge s"
  let ?p = "go_get (nodes ?b) (ih_NodeId h)"
  note p = refs_pos[OF assms(2)]
  have t: "tree_ok ?b" using assms(1) by (simp add: bridge_ok_def)
  fix path and s0 s1 :: "'w sys"
  assume 0: "sy_bridge s0 = ?b" "sy_world s0 = sy_world s"
    and 1: "quiet (sy_bridge s0) (sy_bridge s1)" "sy_world s1 = sy_world s0"
      "path_in (sy_bridge s0) (go_get (nodes (sy_bridge s0)) (ih_NodeId h)) path"
  let ?ctx = "\<lparr>cx_Cancel = c, cx_Caller = ih_Caller h, cx_Opener = None\<rparr>"
  have n: "nodes (sy_bridge s1) = nodes ?b" using 1(1) 0(1) by (simp add: quiet_frame)
  have ok1: "bridge_ok (sy_bridge s1)" using quiet_ok[OF 1(1)] assms(1) 0(1) by simp
  have a: "answers_ok fs (sy_bridge s1) ?ctx ?p (childPathOf path name) name (sy_world s1)"
    using assms(4) 0 1 by (simp add: creates_ok_def ctx_of_def quiet_answers[OF 1(1)])
  have "total (lookup fs lib ?ctx (childPathOf path name) ?p name eo) s1
    (\<lambda>r b _. if fst r = OK then given (sy_bridge s1) b (eo_NodeId (snd r)) else b = sy_bridge s1)"
    using total_lookup[OF ok1 _ assms(3), of "ih_NodeId h" fs ?ctx "childPathOf path name" name] p a n by simp
  then show "total (case (go_get (nodes (sy_bridge s0)) (ih_NodeId h), childPathOf path name) of (parent, path) \<Rightarrow>
      bindM (lookup fs lib ?ctx path parent name eo) (\<lambda>(code, out1).
        if \<not> Ok code then
          bindM (onBridge (rmChild parent name)) (\<lambda>_.
          bindM (getsM (\<lambda>s. op_NegativeTimeout (options (sy_bridge s)))) (\<lambda>negative.
          ret (code, case negative of Some t \<Rightarrow> lib_EntryOut_SetEntryTimeout lib t out1 | None \<Rightarrow> out1)))
        else ret (code, out1))) s1 (\<lambda>r b _. entry_post ?b r b)"
    unfolding prod.case 0(1)
  proof (rule total_bind)
    fix r :: "Status \<times> EntryOut" and s2 :: "'w sys"
    assume r: "if fst r = OK then given (sy_bridge s1) (sy_bridge s2) (eo_NodeId (snd r)) else sy_bridge s2 = sy_bridge s1"
    show "total (case r of (code, out1) \<Rightarrow>
        if \<not> Ok code then
          bindM (onBridge (rmChild ?p name)) (\<lambda>_.
          bindM (getsM (\<lambda>s. op_NegativeTimeout (options (sy_bridge s)))) (\<lambda>negative.
          ret (code, case negative of Some t \<Rightarrow> lib_EntryOut_SetEntryTimeout lib t out1 | None \<Rightarrow> out1)))
        else ret (code, out1)) s2 (\<lambda>r b _. entry_post ?b r b)"
    proof (cases "fst r = OK")
      case True
      with r 1(1) 0(1) quiet_given show ?thesis by (auto intro!: total_ret split: prod.split)
    next
      case False
      then have s2: "sy_bridge s2 = sy_bridge s1" using r by simp
      have "valid (sy_bridge s1) ?p" "lookups (sy_bridge s1) ?p \<noteq> 0"
        using table_valid(1)[OF t p(1)] p(2) quiet_views[OF 1(1)] 0(1) by simp_all
      then obtain b' where b': "rmChild ?p name (sy_bridge s2) = Inr (edge (sy_bridge s1) ?p name \<noteq> nil, b')"
        "bridge_ok b'" "refs b' = refs (sy_bridge s1)" "nodes b' = nodes (sy_bridge s1)"
        "open_files b' = open_files (sy_bridge s1)"
        using rmChild_ok[OF ok1] s2 by metis
      then have k: "keeps ?b b'"
        using 1(1) 0(1) held_cong[of b' "sy_bridge s1"] by (simp add: keeps_def quiet_views(8) quiet_held quiet_frame)
      have rb: "total (bindM (onBridge (rmChild ?p name)) k) s2 Q"
        if "\<And>x s'. sy_bridge s' = b' \<Longrightarrow> total (k x) s' Q"
        for k :: "bool \<Rightarrow> ('w sys, Status \<times> EntryOut) M" and Q
        by (rule total_bind_Bridge, rule b'(1), rule that)
      show ?thesis using False k
        by (auto split: prod.split intro!: rb total_bind_gets total_ret)
    qed
  qed
qed (use assms in \<open>auto simp: node_of_refs\<close>)

lemma Link_given:
  fixes s :: "'w sys"
  assumes "bridge_ok (sy_bridge s)" "0 < refs (sy_bridge s) (ih_NodeId h)" "0 < refs (sy_bridge s) old" "timeouts_ok lib"
    and "\<And>oldPath. creates_ok fs (sy_bridge s) (ctx_of c h) (go_get (nodes (sy_bridge s)) (ih_NodeId h)) name
      (fs_Link fs (ctx_of c h) oldPath) (sy_world s)"
  shows "total (Link fs lib c h old name eo) s (\<lambda>r b _. entry_post (sy_bridge s) r b)"
  unfolding Link_def
proof (intro total_Context total_node)
  let ?ctx = "\<lparr>cx_Cancel = c, cx_Caller = ih_Caller h, cx_Opener = None\<rparr>"
  fix oldPath and s0 s1 :: "'w sys"
  assume 0: "sy_bridge s0 = sy_bridge s" "sy_world s0 = sy_world s"
    and 1: "quiet (sy_bridge s0) (sy_bridge s1)" "sy_world s1 = sy_world s0"
  have q: "quiet (sy_bridge s) (sy_bridge s1)" using 0 1 by simp
  have "path_in (sy_bridge s1) p path \<Longrightarrow> path_in (sy_bridge s) p path" for p path
    using q quiet_trans unfolding path_in_def by blast
  then have "creates_ok fs (sy_bridge s1) ?ctx (go_get (nodes (sy_bridge s1)) (ih_NodeId h)) name
      (fs_Link fs ?ctx oldPath) (sy_world s1)"
    using assms(5) 0 1 by (simp add: creates_ok_def ctx_of_def quiet_answers[OF q] quiet_frame(1)[OF q])
  then have "total (bindM (child_path (ih_NodeId h) name) (\<lambda>(parent, path).
      bindM (onFS (fs_Link fs ?ctx oldPath path)) (\<lambda>code.
        if \<not> Ok code then ret (code, eo) else lookup fs lib ?ctx path parent name eo))) s1
    (\<lambda>r b' _. entry_post (sy_bridge s1) r b')"
    using assms quiet_ok[OF q] quiet_views(8)[OF q] by (intro total_create[where ctx = ?ctx]) simp_all
  then show "total (case (go_get (nodes (sy_bridge s0)) old, oldPath) of (old, oldPath) \<Rightarrow>
      bindM (child_path (ih_NodeId h) name) (\<lambda>(parent, path).
      bindM (onFS (fs_Link fs ?ctx oldPath path)) (\<lambda>code.
        if \<not> Ok code then ret (code, eo) else lookup fs lib ?ctx path parent name eo))) s1
    (\<lambda>r b _. entry_post (sy_bridge s) r b)"
    unfolding prod.case
    by (rule total_weaken) (use q quiet_given quiet_keeps_trans in \<open>auto split: if_splits\<close>)
qed (use assms in \<open>auto simp: node_of_refs\<close>)

text \<open>\<open>Create\<close> hands out an entry and a handle.\<close>

definition created :: "rawBridge \<Rightarrow> rawBridge \<Rightarrow> u64 \<Rightarrow> u64 \<Rightarrow> bool" where
  "created b b' i fh \<longleftrightarrow>
     bridge_ok b' \<and> refs b' = (refs b)(i := Suc (refs b i)) \<and> ucast fh \<noteq> (0 :: u32) \<and>
     enters b b' (ucast fh)"

abbreviation create_post :: "rawBridge \<Rightarrow> Status \<times> EntryOut \<times> OpenOut \<Rightarrow> rawBridge \<Rightarrow> bool" where
  "create_post b r b' \<equiv>
    (if fst r = OK then created b b' (eo_NodeId (fst (snd r))) (oo_Fh (snd (snd r))) else keeps b b')"

lemma total_create_register:
  fixes s :: "'w sys"
  assumes "given b (sy_bridge s) i" "files_room b"
  shows "total (bindM (onBridge (registerFile opener path uFh None)) (\<lambda>fh. ret (OK, eo, oo\<lparr>oo_Fh := ucast fh\<rparr>))) s
    (\<lambda>r b' _. fst r = OK \<and> fst (snd r) = eo \<and> created b b' i (oo_Fh (snd (snd r))))"
proof (rule total_register)
  show "bridge_ok (sy_bridge s)" "files_room (sy_bridge s)" using assms by (simp_all add: given_def)
  fix fh and s' :: "'w sys"
  assume "bridge_ok (sy_bridge s')" "refs (sy_bridge s') = refs (sy_bridge s)" "fh \<noteq> 0"
    "fh \<notin> dom (open_files (sy_bridge s))"
    "open_files (sy_bridge s') = (open_files (sy_bridge s))(fh \<mapsto> \<lparr>fe_opener = opener, fe_path = path, fe_uFh = uFh, fe_stream = None\<rparr>)"
  moreover from this have "enters b (sy_bridge s') fh"
    using assms(1) enters_held[OF enters_open, of "sy_bridge s'" "sy_bridge s" fh] by (simp add: given_def)
  ultimately have "created b (sy_bridge s') i (ucast fh)"
    using assms(1) by (simp add: given_def created_def)
  then show "total (ret (OK, eo, oo\<lparr>oo_Fh := ucast fh\<rparr>)) s'
      (\<lambda>r b' _. fst r = OK \<and> fst (snd r) = eo \<and> created b b' i (oo_Fh (snd (snd r))))"
    by (intro total_ret) simp
qed

lemma Create_created:
  fixes s :: "'w sys"
  assumes "bridge_ok (sy_bridge s)" "0 < refs (sy_bridge s) (ih_NodeId h)" "timeouts_ok lib" "files_room (sy_bridge s)"
    and "creates_ok fs (sy_bridge s) (ctx_of c h) (go_get (nodes (sy_bridge s)) (ih_NodeId h)) name
      (\<lambda>path. fs_Create fs (ctx_of c h) path flags mode) (sy_world s)"
  shows "total (Create fs lib c h flags mode name eo oo) s (\<lambda>r b _. create_post (sy_bridge s) r b)"
  unfolding Create_def
proof (intro total_Context total_child)
  let ?b = "sy_bridge s" let ?p = "go_get (nodes ?b) (ih_NodeId h)"
  let ?ctx = "\<lparr>cx_Cancel = c, cx_Caller = ih_Caller h, cx_Opener = None\<rparr>"
  fix path and s0 s1 :: "'w sys"
  assume 0: "sy_bridge s0 = ?b" "sy_world s0 = sy_world s"
    and 1: "quiet (sy_bridge s0) (sy_bridge s1)" "sy_world s1 = sy_world s0"
      "path_in (sy_bridge s0) (go_get (nodes (sy_bridge s0)) (ih_NodeId h)) path"
  let ?path = "childPathOf path name"
  have q: "quiet ?b (sy_bridge s1)" using 0 1 by simp
  have k1: "keeps ?b (sy_bridge s1)" using quiet_keeps[OF assms(1) q] .
  show "total (case (go_get (nodes (sy_bridge s0)) (ih_NodeId h), ?path) of (parent, path) \<Rightarrow>
      bindM (onFS (fs_Create fs ?ctx path flags mode)) (\<lambda>(uFh, forceDIO, code).
        if \<not> Ok code then ret (code, eo, oo)
        else
          bindM (lookup fs lib ?ctx path parent name eo) (\<lambda>(code, eout).
            if \<not> Ok code then ret (code, eout, oo)
            else
              let oout = (if forceDIO then oo\<lparr>oo_OpenFlags := oo_OpenFlags oo OR lib_FOPEN_DIRECT_IO lib\<rparr> else oo)
              in bindM (onBridge (registerFile (ca_Owner (ih_Caller h)) path uFh None)) (\<lambda>fh.
                 ret (OK, eout, oout\<lparr>oo_Fh := ucast fh\<rparr>))))) s1
    (\<lambda>r b _. create_post ?b r b)"
    unfolding prod.case 0(1)
  proof (rule total_bind_FS)
    fix s2 :: "'w sys"
    assume 2: "sy_bridge s2 = sy_bridge s1" "sy_world s2 = snd (fs_Create fs ?ctx ?path flags mode (sy_world s1))"
    have l: "total (lookup fs lib ?ctx ?path ?p name eo) s2 (\<lambda>r b' _. entry_post ?b r b')"
      using assms 0 1 2 q
      by (intro total_lookup_quiet) (auto simp: node_of_refs creates_ok_def ctx_of_def)
    have reg: "total (bindM (onBridge (registerFile (ca_Owner (ih_Caller h)) ?path uFh None))
        (\<lambda>fh. ret (OK, eo', oo'\<lparr>oo_Fh := ucast fh\<rparr>))) s3 (\<lambda>r b _. create_post ?b r b)"
      if "given ?b (sy_bridge s3) (eo_NodeId eo')" for s3 :: "'w sys" and uFh eo' oo'
      by (rule total_weaken[OF total_create_register[OF that assms(4)]]) auto
    show "total ((\<lambda>(uFh, forceDIO, code).
        if \<not> Ok code then ret (code, eo, oo)
        else
          bindM (lookup fs lib ?ctx ?path ?p name eo) (\<lambda>(code, eout).
            if \<not> Ok code then ret (code, eout, oo)
            else
              let oout = (if forceDIO then oo\<lparr>oo_OpenFlags := oo_OpenFlags oo OR lib_FOPEN_DIRECT_IO lib\<rparr> else oo)
              in bindM (onBridge (registerFile (ca_Owner (ih_Caller h)) ?path uFh None)) (\<lambda>fh.
                 ret (OK, eout, oout\<lparr>oo_Fh := ucast fh\<rparr>)))) (fst (fs_Create fs ?ctx ?path flags mode (sy_world s1)))) s2
      (\<lambda>r b _. create_post ?b r b)"
      using k1 2(1)
      by (auto split: prod.split simp: Let_def intro!: total_ret total_bind[OF l] reg split: if_splits)
  qed
qed (use assms in \<open>auto simp: node_of_refs\<close>)

section \<open>Removing, moving, forgetting\<close>

lemma Unlink_keeps:
  assumes "bridge_ok (sy_bridge s)" "0 < refs (sy_bridge s) (ih_NodeId h)"
  shows "total (Unlink fs c h name) s (\<lambda>_ b _. keeps (sy_bridge s) b)"
  unfolding Unlink_def
  by (intro total_rules total_child)
    (use assms in \<open>auto simp: node_of_refs intro!: total_bind_FS total_ret quiet_keeps it.total_rm\<close>)

lemma Rmdir_keeps:
  assumes "bridge_ok (sy_bridge s)" "0 < refs (sy_bridge s) (ih_NodeId h)"
  shows "total (Rmdir fs c h name) s (\<lambda>_ b _. keeps (sy_bridge s) b)"
  unfolding Rmdir_def
  by (intro total_rules total_child)
    (use assms in \<open>auto simp: node_of_refs intro!: total_bind_FS total_ret quiet_keeps it.total_rm\<close>)

lemma Rename_keeps:
  fixes s :: "'w sys"
  assumes "bridge_ok (sy_bridge s)" "0 < refs (sy_bridge s) (ih_NodeId h)" "0 < refs (sy_bridge s) (rn_Newdir h)"
    and "move_ok (sy_bridge s) (go_get (nodes (sy_bridge s)) (ih_NodeId h)) name
      (go_get (nodes (sy_bridge s)) (rn_Newdir h))"
  shows "total (Rename fs c h name newName) s (\<lambda>_ b _. keeps (sy_bridge s) b)"
proof (cases "rn_Flags h = 0")
  case False
  with assms(1) show ?thesis by (auto simp: Rename_def intro!: total_ret keeps_refl)
next
  case True
  have "total (withContext c (ih_Caller h) (\<lambda>ctx.
      bindM (child_path (ih_NodeId h) name) (\<lambda>(parent, path).
      bindM (child_path (rn_Newdir h) newName) (\<lambda>(newParent, newPath).
      bindM (onFS (fs_Rename fs ctx path newPath)) (\<lambda>code.
        if \<not> Ok code then ret code
        else bindM (onBridge (mvChild parent name newParent newName True)) (\<lambda>_. ret OK)))))) s
    (\<lambda>_ b _. keeps (sy_bridge s) b)"
  proof (intro total_Context total_child, goal_cases)
    case (1 s0)
    then show ?case using assms(1) by simp
  next
    case (2 s0)
    then show ?case using assms(2) by (simp add: node_of_refs)
  next
    case (3 s0 path s1)
    then have q1: "quiet (sy_bridge s) (sy_bridge s1)" by simp
    show ?case
      unfolding prod.case
    proof (rule total_child, goal_cases)
      case 1
      then show ?case using quiet_ok[OF q1 assms(1)] .
    next
      case 2
      then show ?case using assms(3) quiet_frame(1)[OF q1] by (simp add: node_of_refs)
    next
      case (3 path' s2)
      then have q2: "quiet (sy_bridge s) (sy_bridge s2)" using q1 quiet_trans by blast
      have n: "nodes (sy_bridge s0) = nodes (sy_bridge s)" "nodes (sy_bridge s1) = nodes (sy_bridge s)"
        using \<open>sy_bridge s0 = sy_bridge s\<close> quiet_frame(1)[OF q1] by simp_all
      show ?case
        unfolding prod.case n
        by (rule total_bind_FS)
          (use q2 assms in \<open>auto intro!: total_ret quiet_keeps it.total_mv\<close>)
    qed
  qed
  with True show ?thesis by (simp add: Rename_def)
qed

lemma refs_lt: "refs b i < 2 ^ 32"
  using unsigned_less[where 'a = nat, of "lookups b (go_get (nodes b) i)"] by (simp add: refs_def)

lemma unat_ucast_32: "unat (n :: u64) < 2 ^ 32 \<Longrightarrow> unat (ucast n :: u32) = unat n"
  by (simp add: unsigned_ucast_eq unsigned_take_bit_eq take_bit_nat_eq_self)

lemma Forget_takes:
  fixes s :: "'w sys"
  assumes "bridge_ok (sy_bridge s)" "unat n \<le> refs (sy_bridge s) i" "i = 1 \<Longrightarrow> unat n < refs (sy_bridge s) i"
  shows "total (Forget i n) s (\<lambda>_ b _. taken (sy_bridge s) b i (unat n))"
proof (cases "go_get (nodes (sy_bridge s)) i = nil")
  case True
  with assms(1) show ?thesis
    by (auto simp: Forget_def taken_def refs_def onBridge_def bindM_def inodeSafe_apply ret_def
        intro!: totalI[where r = "()" and s' = s])
next
  case False
  let ?b = "sy_bridge s" let ?a = "go_get (nodes ?b) i" let ?k = "ucast n :: u32"
  have "unat n < 2 ^ 32" using assms(2) refs_lt[of ?b i] by simp
  then have k: "unat ?k = unat n" by (rule unat_ucast_32)
  obtain rm b1 where b1: "remove_ref ?a ?k ?b = Inr (rm, b1)" "taken ?b b1 i (unat n)"
    using it.give_back_law[OF assms(1) False, of ?k] assms(2,3) k by auto
  then have ok: "bridge_ok b1" by (simp add: taken_def)
  obtain b2 where b2: "(if rm then compactMemory else ret ()) b1 = Inr ((), b2)" "bridge_ok b2"
    "refs b2 = refs b1" "open_files b2 = open_files b1"
  proof (cases rm)
    case True
    obtain b2 where "compactMemory b1 = Inr ((), b2)" by (simp add: compactMemory_apply)
    with True compact_ok[OF ok this] that show ?thesis by simp
  next
    case F: False
    with ok that show ?thesis by (simp add: ret_def)
  qed
  have "Forget i n s = Inr ((), s\<lparr>sy_bridge := b2\<rparr>)"
    unfolding Forget_def
    by (rule onBridge_eq) (use False b1(1) b2(1) in \<open>simp add: bindM_def inodeSafe_apply\<close>)
  then show ?thesis by (rule totalI) (use b1(2) b2 held_cong[OF b2(4)] in \<open>simp add: taken_def\<close>)
qed

end
