(* ===== verification/Listing.thy ===== *)
theory Listing
  imports Requests
begin

text \<open>
  \<open>ReadDirPlus\<close>: a listing that looks up each of its entries. The kernel gets one reference
  for every entry of the reply that has a number. What the file system may answer for the
  entries depends on those looked up before (\<open>listing_ok\<close>).
\<close>

section \<open>What go-fuse and the file system keep to\<close>

text \<open>
  An entry that \<open>AddDirLookupEntry\<close> adds has no number yet, and the write through the
  pointer it answers gives it one.
\<close>

definition entries_ok :: "'d fuselib \<Rightarrow> bool" where
  "entries_ok lib \<longleftrightarrow>
     (\<forall>e d d'. lib_AddDirLookupEntry lib e d = (None, d') \<longrightarrow> lib_NodeIds lib d' = lib_NodeIds lib d) \<and>
     (\<forall>e d eo d'. lib_AddDirLookupEntry lib e d = (Some eo, d') \<longrightarrow>
        eo_NodeId eo = 0 \<and> lib_NodeIds lib d' = lib_NodeIds lib d \<and>
        (\<forall>eo'. lib_NodeIds lib (lib_SetLookupEntry lib eo' d') =
           lib_NodeIds lib d @ (if eo_NodeId eo' = 0 then [] else [eo_NodeId eo'])))"

text \<open>The answers to the look-ups of a listing, one after the other, in the directory \<open>p\<close>.\<close>

primrec listing_ok ::
  "'w FileSystem \<Rightarrow> Context \<Rightarrow> string \<Rightarrow> addr \<Rightarrow> DirEntry list \<Rightarrow> rawBridge \<Rightarrow> 'w \<Rightarrow> bool" where
  "listing_ok fs ctx path p [] b w \<longleftrightarrow> True"
| "listing_ok fs ctx path p (e # es) b w \<longleftrightarrow>
     (if de_Name e = '''' \<or> de_Name e = ''.'' \<or> de_Name e = ''..'' then listing_ok fs ctx path p es b w
      else answers_ok fs b ctx p (childPathOf path (de_Name e)) (de_Name e) w \<and>
        (\<forall>a code attr w'. fs_GetAttr fs ctx (childPathOf path (de_Name e)) 0 a w = ((code, attr), w') \<longrightarrow>
           (if code = OK
            then \<forall>dir c b'. added b p (de_Name e) (at_Ino attr) dir c b' \<longrightarrow> listing_ok fs ctx path p es b' w'
            else listing_ok fs ctx path p es b w')))"

text \<open>The same for the listing that a request on an open directory gets.\<close>

definition plus_ok :: "'w FileSystem \<Rightarrow> Context \<Rightarrow> rawBridge \<Rightarrow> u64 \<Rightarrow> u64 \<Rightarrow> u64 \<Rightarrow> 'w \<Rightarrow> bool" where
  "plus_ok fs ctx b i fh off w \<longleftrightarrow>
     (\<forall>pool n d path ctx' s2 stream s3.
        file_path i fh ctx \<lparr>sy_bridge = b, sy_world = w, sy_pool = pool\<rparr> = Inr ((n, d, path, ctx'), s2) \<longrightarrow>
        dir_stream fs ctx' path (ucast fh) d off s2 = Inr (Inr stream, s3) \<longrightarrow>
        listing_ok fs ctx' path n (drop (unat off) stream) (sy_bridge s3) (sy_world s3))"

lemma quiet_added:
  assumes "quiet b b1"
  shows "added b1 p name i dir c b' = added b p name i dir c b'"
  by (simp add: added_def quiet_frame[OF assms] quiet_views[OF assms])

lemma quiet_listing: "quiet b b1 \<Longrightarrow> listing_ok fs ctx path p es b1 w = listing_ok fs ctx path p es b w"
proof (induction es arbitrary: b b1 w)
  case (Cons e es)
  show ?case by (simp add: Cons.IH[OF Cons.prems] quiet_answers[OF Cons.prems] quiet_added[OF Cons.prems])
qed simp

section \<open>One more reference for each number\<close>

definition count_in :: "u64 \<Rightarrow> (u64 \<Rightarrow> nat) \<Rightarrow> u64 \<Rightarrow> nat" where
  "count_in i K = K(i := Suc (K i))"

text \<open>\<open>listed b b' is\<close>: the kernel got a reference on each of the numbers \<open>is\<close>.\<close>

definition listed :: "rawBridge \<Rightarrow> rawBridge \<Rightarrow> u64 list \<Rightarrow> bool" where
  "listed b b' is \<longleftrightarrow>
     bridge_ok b' \<and> refs b' = fold count_in is (refs b) \<and> held b' = held b"

lemma keeps_listed: "keeps b b' \<Longrightarrow> listed b b' []"
  by (simp add: keeps_def listed_def)

lemma given_listed: "given b b' i \<Longrightarrow> listed b b' [i]"
  by (simp add: given_def listed_def count_in_def)

lemma listed_trans: "listed b b' is \<Longrightarrow> listed b' b'' js \<Longrightarrow> listed b b'' (is @ js)"
  by (simp add: listed_def)

text \<open>A look-up, with what it asked the file system.\<close>

lemma lookup_listed:
  assumes "bridge_ok (sy_bridge s)" "go_get (nodes (sy_bridge s)) i = p" "p \<noteq> nil" "timeouts_ok lib"
    and "answers_ok fs (sy_bridge s) ctx p path name (sy_world s)" "eo_NodeId eo = 0"
  obtains code attr w eo' s' where
    "fs_GetAttr fs ctx path 0 (eo_Attr eo) (sy_world s) = ((code, attr), w)"
    "lookup fs lib ctx path p name eo s = Inr ((code, eo'), s')" "sy_world s' = w"
    "listed (sy_bridge s) (sy_bridge s') (if eo_NodeId eo' = 0 then [] else [eo_NodeId eo'])"
    "if code = OK then \<exists>dir c. added (sy_bridge s) p name (at_Ino attr) dir c (sy_bridge s') else sy_bridge s' = sy_bridge s"
    "go_get (nodes (sy_bridge s')) i = p"
proof -
  let ?b = "sy_bridge s"
  have t: "tree_ok ?b" using assms(1) by (simp add: bridge_ok_def)
  note p = table_valid[OF t, of i, unfolded assms(2), OF assms(3)]
  obtain code attr w where g: "fs_GetAttr fs ctx path 0 (eo_Attr eo) (sy_world s) = ((code, attr), w)"
    by (metis surj_pair)
  show ?thesis
  proof (cases "code = OK")
    case False
    have "listed ?b ?b []" using assms(1) by (simp add: listed_def)
    with that[OF g lookup_error[OF g False]] False assms(2,6) show ?thesis by simp
  next
    case True
    with g assms(5) have a: "answer_ok ?b p name (at_Ino attr)" by (auto simp: answers_ok_def)
    from lookup_ok[OF assms(1) p(1,3) g[unfolded True] a] obtain c b' where
      l: "lookup fs lib ctx path p name eo s =
        Inr ((OK, entry_reply lib (options ?b) (at_Ino attr) attr eo), s\<lparr>sy_world := w, sy_bridge := b'\<rparr>)"
      "bridge_ok b'" "added ?b p name (at_Ino attr) (lib_IsDir lib attr) c b'"
      "refs b' = (refs ?b)(at_Ino attr := Suc (refs ?b (at_Ino attr)))" by blast
    have "at_Ino attr \<noteq> 0" using a by (simp add: answer_ok_def)
    moreover have "held b' = held ?b"
      by (rule held_cong, rule open_files_cong) (rule added_frame(5,6)[OF l(3)])+
    ultimately have "listed ?b b' (if eo_NodeId (entry_reply lib (options ?b) (at_Ino attr) attr eo) = 0 then []
        else [eo_NodeId (entry_reply lib (options ?b) (at_Ino attr) attr eo)])"
      using l(2,4) by (simp add: listed_def entry_reply_NodeId[OF assms(4)] count_in_def)
    moreover have "go_get (nodes b') i = p"
    proof (cases "i = at_Ino attr")
      case True
      then have "c = p" using added_old(1)[OF l(3)] assms(2,3) by simp
      with True show ?thesis using added_frame(3)[OF l(3)] by simp
    qed (simp add: added_frame(3)[OF l(3)] assms(2))
    ultimately show ?thesis using that[OF g[unfolded True] l(1)] l(3) True by auto
  qed
qed

section \<open>The loop and the request\<close>

lemma ReadDirPlus_loop_listed:
  fixes s :: "'w sys"
  assumes "timeouts_ok lib" "entries_ok lib" "p \<noteq> nil"
    and "bridge_ok (sy_bridge s)" "go_get (nodes (sy_bridge s)) i = p"
    and "listing_ok fs ctx path p es (sy_bridge s) (sy_world s)"
  shows "\<exists>d s' is. ReadDirPlus_loop fs lib ctx path p es out s = Inr (d, s') \<and>
    listed (sy_bridge s) (sy_bridge s') is \<and> lib_NodeIds lib d = lib_NodeIds lib out @ is"
  using assms(4-)
proof (induction es arbitrary: out s)
  case Nil
  then show ?case by (simp add: ret_def listed_def)
next
  case (Cons e es)
  let ?loop = "ReadDirPlus_loop fs lib ctx path p"
  consider (empty) "de_Name e = ''''" | (full) d where "de_Name e \<noteq> ''''" "lib_AddDirLookupEntry lib e out = (None, d)"
    | (dots) eo d where "de_Name e = ''.'' \<or> de_Name e = ''..''" "lib_AddDirLookupEntry lib e out = (Some eo, d)"
    | (entry) eo d where "de_Name e \<noteq> ''''" "de_Name e \<noteq> ''.''" "de_Name e \<noteq> ''..''"
        "lib_AddDirLookupEntry lib e out = (Some eo, d)"
    by (metis option.exhaust surj_pair)
  then show ?case
  proof cases
    case empty
    obtain b where b: "logf (Log_empty_name (de_Mode e)) (sy_bridge s) = Inr ((), b)" "quiet (sy_bridge s) b"
      using logf_total by blast
    let ?s = "s\<lparr>sy_bridge := b\<rparr>"
    have "\<exists>d s' is. ?loop es out ?s = Inr (d, s') \<and> listed (sy_bridge ?s) (sy_bridge s') is \<and>
        lib_NodeIds lib d = lib_NodeIds lib out @ is"
      by (rule Cons.IH)
        (use Cons.prems empty in \<open>simp_all add: quiet_ok[OF b(2)] quiet_frame(1)[OF b(2)] quiet_listing[OF b(2)]\<close>)
    then obtain d s' "is" where l: "?loop es out ?s = Inr (d, s')" "listed b (sy_bridge s') is"
      "lib_NodeIds lib d = lib_NodeIds lib out @ is" by auto
    have "listed (sy_bridge s) (sy_bridge s') is"
      using listed_trans[OF keeps_listed[OF quiet_keeps[OF Cons.prems(1) b(2)]] l(2)] by simp
    moreover have "?loop (e # es) out s = Inr (d, s')"
      using empty l(1) onBridge_eq[of "logf (Log_empty_name (de_Mode e))", OF b(1)] by (simp add: bindM_def)
    ultimately show ?thesis using l(3) by blast
  next
    case (full d)
    then have "?loop (e # es) out s = Inr (d, s)" by (simp add: ret_def)
    moreover have "lib_NodeIds lib d = lib_NodeIds lib out" using assms(2) full(2) unfolding entries_ok_def by blast
    moreover have "listed (sy_bridge s) (sy_bridge s) []" using Cons.prems(1) by (simp add: listed_def)
    ultimately show ?thesis by (metis append_Nil2)
  next
    case (dots eo d)
    then have eq: "?loop (e # es) out s = ?loop es d s" and ne: "de_Name e \<noteq> ''''" by auto
    have "lib_NodeIds lib d = lib_NodeIds lib out" using assms(2) dots(2) unfolding entries_ok_def by blast
    moreover have "listing_ok fs ctx path p es (sy_bridge s) (sy_world s)" using Cons.prems(3) dots(1) by auto
    ultimately show ?thesis using Cons.IH[of s d] Cons.prems(1,2) eq by simp
  next
    case (entry eo d)
    have en: "eo_NodeId eo = 0" "lib_NodeIds lib (lib_SetLookupEntry lib eo' d) =
        lib_NodeIds lib out @ (if eo_NodeId eo' = 0 then [] else [eo_NodeId eo'])" for eo'
      using assms(2) entry(4) unfolding entries_ok_def by blast+
    let ?path = "childPathOf path (de_Name e)"
    have a: "answers_ok fs (sy_bridge s) ctx p ?path (de_Name e) (sy_world s)" using Cons.prems(3) entry by simp
    obtain code attr w eo' s1 where l: "fs_GetAttr fs ctx ?path 0 (eo_Attr eo) (sy_world s) = ((code, attr), w)"
      "lookup fs lib ctx ?path p (de_Name e) eo s = Inr ((code, eo'), s1)" "sy_world s1 = w"
      "listed (sy_bridge s) (sy_bridge s1) (if eo_NodeId eo' = 0 then [] else [eo_NodeId eo'])"
      "if code = OK then \<exists>dir c. added (sy_bridge s) p (de_Name e) (at_Ino attr) dir c (sy_bridge s1)
       else sy_bridge s1 = sy_bridge s" "go_get (nodes (sy_bridge s1)) i = p"
      by (rule lookup_listed[OF Cons.prems(1,2) assms(3,1) a en(1)])
    have "listing_ok fs ctx path p es (sy_bridge s1) (sy_world s1)"
      using Cons.prems(3) entry l(1,3,5) by (cases "code = OK") force+
    moreover have "bridge_ok (sy_bridge s1)" using l(4) by (simp add: listed_def)
    ultimately obtain d' s' "is" where r: "?loop es (lib_SetLookupEntry lib eo' d) s1 = Inr (d', s')"
      "listed (sy_bridge s1) (sy_bridge s') is"
      "lib_NodeIds lib d' = lib_NodeIds lib (lib_SetLookupEntry lib eo' d) @ is"
      using Cons.IH[of s1] l(6) by blast
    have "?loop (e # es) out s = Inr (d', s')" using entry r(1) by (simp add: bindM_def l(2))
    with listed_trans[OF l(4) r(2)] r(3) en(2) show ?thesis by auto
  qed
qed

lemma ReadDirPlus_listed:
  fixes s :: "'w sys"
  assumes "bridge_ok (sy_bridge s)" "0 < refs (sy_bridge s) (ih_NodeId h)" "timeouts_ok lib" "entries_ok lib"
    and "open_files (sy_bridge s) (ucast (fi_Fh h)) \<noteq> None"
    and "plus_ok fs (ctx_of c h) (sy_bridge s) (ih_NodeId h) (fi_Fh h) off (sy_world s)"
  shows "total (ReadDirPlus fs lib c h off out) s
    (\<lambda>r b _. \<exists>is. listed (sy_bridge s) b is \<and> lib_NodeIds lib (snd r) = lib_NodeIds lib out @ is)"
  unfolding ReadDirPlus_def
proof (rule total_Context)
  fix s1 :: "'w sys"
  assume 1: "sy_bridge s1 = sy_bridge s" "sy_world s1 = sy_world s"
  let ?ctx = "\<lparr>cx_Cancel = c, cx_Caller = ih_Caller h, cx_Opener = None\<rparr>" and ?fh = "ucast (fi_Fh h) :: u32"
  let ?n = "go_get (nodes (sy_bridge s)) (ih_NodeId h)" and ?d = "files (sy_bridge s) ! unat ?fh"
  have n: "?n \<noteq> nil" using assms(2) by (rule node_of_refs)
  obtain path ctx' b2 where f: "file_path (ih_NodeId h) (fi_Fh h) ?ctx s1 = Inr ((?n, ?d, path, ctx'), s1\<lparr>sy_bridge := b2\<rparr>)"
    "quiet (sy_bridge s) b2"
    using file_path_total[of s1 "ih_NodeId h" "fi_Fh h" ?ctx] assms(1,5) n 1 by (auto simp: handle_ok_def)
  let ?s2 = "s1\<lparr>sy_bridge := b2\<rparr>"
  have b2: "bridge_ok (sy_bridge ?s2)" "open_files (sy_bridge ?s2) ?fh \<noteq> None"
    using assms(1,5) quiet_ok[OF f(2)] quiet_open[OF f(2)] by simp_all
  from total_dir_stream[OF b2, of fs ctx' path ?d off] obtain r s3 where
    d: "dir_stream fs ctx' path ?fh ?d off ?s2 = Inr (r, s3)" "keeps b2 (sy_bridge s3)"
    by (auto simp: total_def)
  have k: "keeps (sy_bridge s) (sy_bridge s3)" by (rule quiet_keeps_trans[OF f(2) d(2)])
  have l0: "listed (sy_bridge s) (sy_bridge s3) []" by (rule keeps_listed[OF k])
  let ?rest = "\<lambda>r. case r of
      Inl code \<Rightarrow> ret (code, out)
    | Inr stream \<Rightarrow>
        if length stream < unat off then ret (OK, out)
        else bindM (ReadDirPlus_loop fs lib ctx' path ?n (drop (unat off) stream) out) (\<lambda>out'. ret (OK, out'))"
  have "\<exists>code d s4 is. ?rest r s3 = Inr ((code, d), s4) \<and> listed (sy_bridge s) (sy_bridge s4) is \<and>
      lib_NodeIds lib d = lib_NodeIds lib out @ is"
  proof (cases "\<exists>stream. r = Inr stream \<and> unat off \<le> length stream")
    case False
    then have "\<exists>code. ?rest r s3 = Inr ((code, out), s3)" by (auto simp: ret_def not_le split: sum.split)
    with l0 show ?thesis by (metis append_Nil2)
  next
    case True
    then obtain stream where r: "r = Inr stream" "unat off \<le> length stream" by blast
    have s1: "\<lparr>sy_bridge = sy_bridge s, sy_world = sy_world s, sy_pool = sy_pool s1\<rparr> = s1" using 1 by (cases s1) simp
    have "listing_ok fs ctx' path ?n (drop (unat off) stream) (sy_bridge s3) (sy_world s3)"
      using assms(6) f(1) d(1) r(1) unfolding plus_ok_def ctx_of_def by (metis s1)
    moreover have "bridge_ok (sy_bridge s3)" "go_get (nodes (sy_bridge s3)) (ih_NodeId h) = ?n"
      using k by (simp_all add: keeps_def)
    ultimately obtain d' s4 "is" where
      "ReadDirPlus_loop fs lib ctx' path ?n (drop (unat off) stream) out s3 = Inr (d', s4)"
      "listed (sy_bridge s3) (sy_bridge s4) is" "lib_NodeIds lib d' = lib_NodeIds lib out @ is"
      using ReadDirPlus_loop_listed[OF assms(3,4) n] by blast
    with listed_trans[OF l0] r show ?thesis by (auto simp: bindM_def ret_def)
  qed
  then obtain code d' s4 "is" where e: "?rest r s3 = Inr ((code, d'), s4)" "listed (sy_bridge s) (sy_bridge s4) is"
      "lib_NodeIds lib d' = lib_NodeIds lib out @ is" by blast
  show "total (bindM (file_path (ih_NodeId h) (fi_Fh h) ?ctx) (\<lambda>(n, d, path, ctx).
      bindM (dir_stream fs ctx path ?fh d off) (\<lambda>r.
        case r of
          Inl code \<Rightarrow> ret (code, out)
        | Inr stream \<Rightarrow>
            if length stream < unat off then ret (OK, out)
            else bindM (ReadDirPlus_loop fs lib ctx path n (drop (unat off) stream) out) (\<lambda>out'. ret (OK, out'))))) s1
    (\<lambda>r b _. \<exists>is. listed (sy_bridge s) b is \<and> lib_NodeIds lib (snd r) = lib_NodeIds lib out @ is)"
    using e by (auto simp: total_def bindM_def f(1) d(1) simp del: ReadDirPlus_loop.simps)
qed

end
