(* ===== verification/Session.thy ===== *)
theory Session
  imports Listing
begin

text \<open>
  A session: the requests of the kernel one after the other, from \<open>NewPathFS\<close> on. The
  kernel counts the references it is given by entries in replies, takes back no more than
  it has, and names inodes it has references on. The file system can answer what it
  likes, but for the numbers of inodes (\<open>answer_ok\<close>). Then no request panics, and the
  counts of the kernel and of the bridge agree.
\<close>

section \<open>Requests and replies\<close>

text \<open>One constructor per method of \<open>Bridge\<close> that go-fuse calls and that can change its state or reads it.\<close>

datatype request =
    Req_Access chan InHeader u32
  | Req_Lookup chan InHeader string EntryOut
  | Req_Forget u64 u64
  | Req_GetAttr chan FileIn AttrOut
  | Req_SetAttr chan SetAttrIn AttrOut
  | Req_Mknod chan InHeader u32 u32 string EntryOut
  | Req_Mkdir chan InHeader u32 string EntryOut
  | Req_Unlink chan InHeader string
  | Req_Rmdir chan InHeader string
  | Req_Rename chan RenameIn string string
  | Req_Link chan InHeader u64 string EntryOut
  | Req_Symlink chan InHeader string string EntryOut
  | Req_Readlink chan InHeader
  | Req_GetXAttr chan InHeader string bytes
  | Req_ListXAttr chan InHeader bytes
  | Req_SetXAttr chan InHeader u32 string bytes
  | Req_RemoveXAttr chan InHeader string
  | Req_Create chan InHeader u32 u32 string EntryOut OpenOut
  | Req_Open chan InHeader u32 OpenOut
  | Req_Read chan FileIn u64 bytes
  | Req_Write chan FileIn u64 bytes
  | Req_Fallocate chan FileIn u64 u64 u32
  | Req_Fsync chan FileIn u32
  | Req_Flush chan FileIn u64
  | Req_Release chan FileIn
  | Req_GetLk chan LkIn FileLock
  | Req_SetLk chan LkIn
  | Req_SetLkw chan LkIn
  | Req_OpenDir InHeader OpenOut
  | Req_ReadDir chan FileIn u64
  | Req_ReadDirPlus chan FileIn u64
  | Req_ReleaseDir u64
  | Req_StatFs chan InHeader StatfsOut

text \<open>
  Of a reply matter the numbers of the entries it hands out, if it is OK, and its handle. Only
  the reply to \<open>ReadDirPlus\<close> can have more than one entry.
\<close>

datatype reply = Reply (reply_entries: "u64 list") (reply_handle: "u64 option")

definition entry_of :: "Status \<times> EntryOut \<Rightarrow> reply" where
  "entry_of r = Reply (if Ok (fst r) then [eo_NodeId (snd r)] else []) None"

definition handle_of :: "Status \<times> OpenOut \<Rightarrow> reply" where
  "handle_of r = Reply [] (if Ok (fst r) then Some (oo_Fh (snd r)) else None)"

definition both_of :: "Status \<times> EntryOut \<times> OpenOut \<Rightarrow> reply" where
  "both_of r = (if Ok (fst r) then Reply [eo_NodeId (fst (snd r))] (Some (oo_Fh (snd (snd r)))) else Reply [] None)"

definition plain_of :: "'a \<Rightarrow> reply" where
  "plain_of r = Reply [] None"

definition listing_of :: "'d fuselib \<Rightarrow> Status \<times> 'd \<Rightarrow> reply" where
  "listing_of lib r = Reply (lib_NodeIds lib (snd r)) None"

definition mapM :: "('a \<Rightarrow> 'b) \<Rightarrow> ('s, 'a) M \<Rightarrow> ('s, 'b) M" where
  "mapM f m = bindM m (\<lambda>r. ret (f r))"

text \<open>The replies to \<open>ReadDir\<close> and \<open>ReadDirPlus\<close> start as \<open>out\<close>.\<close>

fun serve :: "'w FileSystem \<Rightarrow> 'd fuselib \<Rightarrow> 'd \<Rightarrow> request \<Rightarrow> ('w sys, reply) M" where
  "serve fs lib out (Req_Access c h m) = mapM plain_of (Access fs c h m)"
| "serve fs lib out (Req_Lookup c h name eo) = mapM entry_of (Lookup fs lib c h name eo)"
| "serve fs lib out (Req_Forget i n) = mapM plain_of (Forget i n)"
| "serve fs lib out (Req_GetAttr c h ao) = mapM plain_of (GetAttr fs lib c h ao)"
| "serve fs lib out (Req_SetAttr c h ao) = mapM plain_of (SetAttr fs lib c h ao)"
| "serve fs lib out (Req_Mknod c h mode rdev name eo) = mapM entry_of (Mknod fs lib c h mode rdev name eo)"
| "serve fs lib out (Req_Mkdir c h mode name eo) = mapM entry_of (Mkdir fs lib c h mode name eo)"
| "serve fs lib out (Req_Unlink c h name) = mapM plain_of (Unlink fs c h name)"
| "serve fs lib out (Req_Rmdir c h name) = mapM plain_of (Rmdir fs c h name)"
| "serve fs lib out (Req_Rename c h name newName) = mapM plain_of (Rename fs c h name newName)"
| "serve fs lib out (Req_Link c h old name eo) = mapM entry_of (Link fs lib c h old name eo)"
| "serve fs lib out (Req_Symlink c h target name eo) = mapM entry_of (Symlink fs lib c h target name eo)"
| "serve fs lib out (Req_Readlink c h) = mapM plain_of (Readlink fs c h)"
| "serve fs lib out (Req_GetXAttr c h attr dest) = mapM plain_of (GetXAttr fs c h attr dest)"
| "serve fs lib out (Req_ListXAttr c h dest) = mapM plain_of (ListXAttr fs c h dest)"
| "serve fs lib out (Req_SetXAttr c h flags attr data) = mapM plain_of (SetXAttr fs c h flags attr data)"
| "serve fs lib out (Req_RemoveXAttr c h attr) = mapM plain_of (RemoveXAttr fs c h attr)"
| "serve fs lib out (Req_Create c h flags mode name eo oo) = mapM both_of (Create fs lib c h flags mode name eo oo)"
| "serve fs lib out (Req_Open c h flags oo) = mapM handle_of (Open fs lib c h flags oo)"
| "serve fs lib out (Req_Read c h off dest) = mapM plain_of (Read fs c h off dest)"
| "serve fs lib out (Req_Write c h off data) = mapM plain_of (Write fs c h off data)"
| "serve fs lib out (Req_Fallocate c h off len mode) = mapM plain_of (Fallocate fs c h off len mode)"
| "serve fs lib out (Req_Fsync c h flags) = mapM plain_of (Fsync fs c h flags)"
| "serve fs lib out (Req_Flush c h owner) = mapM plain_of (Flush fs c h owner)"
| "serve fs lib out (Req_Release c h) = mapM plain_of (Release fs c h)"
| "serve fs lib out (Req_GetLk c h lk) = mapM plain_of (GetLk fs c h lk)"
| "serve fs lib out (Req_SetLk c h) = mapM plain_of (SetLk fs c h)"
| "serve fs lib out (Req_SetLkw c h) = mapM plain_of (SetLkw fs c h)"
| "serve fs lib out (Req_OpenDir h oo) = mapM handle_of (OpenDir h oo)"
| "serve fs lib out (Req_ReadDir c h off) = mapM plain_of (ReadDir fs lib c h off out)"
| "serve fs lib out (Req_ReadDirPlus c h off) = mapM (listing_of lib) (ReadDirPlus fs lib c h off out)"
| "serve fs lib out (Req_ReleaseDir fh) = mapM plain_of (ReleaseDir fh)"
| "serve fs lib out (Req_StatFs c h sf) = mapM plain_of (StatFs fs c h sf)"

section \<open>What the kernel and the file system keep to\<close>

abbreviation node_of :: "rawBridge \<Rightarrow> u64 \<Rightarrow> addr" where
  "node_of b i \<equiv> go_get (nodes b) i"

text \<open>
  The kernel names inodes it has references on, and open files by handles it was given.
  The file system answers numbers as in \<open>answers_ok\<close>, and does not move a directory into
  itself.
\<close>

fun legal :: "'w FileSystem \<Rightarrow> rawBridge \<Rightarrow> 'w \<Rightarrow> request \<Rightarrow> bool" where
  "legal fs b w (Req_Lookup c h name eo) \<longleftrightarrow>
     0 < refs b (ih_NodeId h) \<and>
     creates_ok fs b (ctx_of c h) (node_of b (ih_NodeId h)) name (\<lambda>path w. ((), w)) w"
| "legal fs b w (Req_Forget i n) \<longleftrightarrow> unat n \<le> refs b i \<and> (i = 1 \<longrightarrow> unat n < refs b i)"
| "legal fs b w (Req_Mknod c h mode rdev name eo) \<longleftrightarrow>
     0 < refs b (ih_NodeId h) \<and>
     creates_ok fs b (ctx_of c h) (node_of b (ih_NodeId h)) name
       (\<lambda>path. fs_Mknod fs (ctx_of c h) path mode rdev) w"
| "legal fs b w (Req_Mkdir c h mode name eo) \<longleftrightarrow>
     0 < refs b (ih_NodeId h) \<and>
     creates_ok fs b (ctx_of c h) (node_of b (ih_NodeId h)) name
       (\<lambda>path. fs_Mkdir fs (ctx_of c h) path mode) w"
| "legal fs b w (Req_Symlink c h target name eo) \<longleftrightarrow>
     0 < refs b (ih_NodeId h) \<and>
     creates_ok fs b (ctx_of c h) (node_of b (ih_NodeId h)) name
       (\<lambda>path. fs_Symlink fs (ctx_of c h) path target) w"
| "legal fs b w (Req_Link c h old name eo) \<longleftrightarrow>
     0 < refs b old \<and> 0 < refs b (ih_NodeId h) \<and>
     (\<forall>oldPath. creates_ok fs b (ctx_of c h) (node_of b (ih_NodeId h)) name (fs_Link fs (ctx_of c h) oldPath) w)"
| "legal fs b w (Req_Create c h flags mode name eo oo) \<longleftrightarrow>
     0 < refs b (ih_NodeId h) \<and> files_room b \<and>
     creates_ok fs b (ctx_of c h) (node_of b (ih_NodeId h)) name
       (\<lambda>path. fs_Create fs (ctx_of c h) path flags mode) w"
| "legal fs b w (Req_Rename c h name newName) \<longleftrightarrow>
     0 < refs b (ih_NodeId h) \<and> 0 < refs b (rn_Newdir h) \<and>
     move_ok b (node_of b (ih_NodeId h)) name (node_of b (rn_Newdir h))"
| "legal fs b w (Req_Unlink c h name) \<longleftrightarrow> 0 < refs b (ih_NodeId h)"
| "legal fs b w (Req_Rmdir c h name) \<longleftrightarrow> 0 < refs b (ih_NodeId h)"
| "legal fs b w (Req_Access c h m) \<longleftrightarrow> 0 < refs b (ih_NodeId h)"
| "legal fs b w (Req_Readlink c h) \<longleftrightarrow> 0 < refs b (ih_NodeId h)"
| "legal fs b w (Req_GetXAttr c h attr dest) \<longleftrightarrow> 0 < refs b (ih_NodeId h)"
| "legal fs b w (Req_ListXAttr c h dest) \<longleftrightarrow> 0 < refs b (ih_NodeId h)"
| "legal fs b w (Req_SetXAttr c h flags attr data) \<longleftrightarrow> 0 < refs b (ih_NodeId h)"
| "legal fs b w (Req_RemoveXAttr c h attr) \<longleftrightarrow> 0 < refs b (ih_NodeId h)"
| "legal fs b w (Req_StatFs c h sf) \<longleftrightarrow> 0 < refs b (ih_NodeId h)"
| "legal fs b w (Req_Open c h flags oo) \<longleftrightarrow> 0 < refs b (ih_NodeId h) \<and> files_room b"
| "legal fs b w (Req_OpenDir h oo) \<longleftrightarrow> 0 < refs b (ih_NodeId h) \<and> files_room b"
| "legal fs b w (Req_GetAttr c h ao) \<longleftrightarrow> 0 < refs b (ih_NodeId h) \<and> handle_ok b (fi_Fh h)"
| "legal fs b w (Req_SetAttr c h ao) \<longleftrightarrow> 0 < refs b (ih_NodeId h) \<and> handle_ok b (fst (sa_GetFh h))"
| "legal fs b w (Req_Read c h off dest) \<longleftrightarrow> 0 < refs b (ih_NodeId h) \<and> handle_ok b (fi_Fh h)"
| "legal fs b w (Req_Write c h off data) \<longleftrightarrow> 0 < refs b (ih_NodeId h) \<and> handle_ok b (fi_Fh h)"
| "legal fs b w (Req_Fallocate c h off len mode) \<longleftrightarrow> 0 < refs b (ih_NodeId h) \<and> handle_ok b (fi_Fh h)"
| "legal fs b w (Req_Fsync c h flags) \<longleftrightarrow> 0 < refs b (ih_NodeId h) \<and> handle_ok b (fi_Fh h)"
| "legal fs b w (Req_Flush c h owner) \<longleftrightarrow> 0 < refs b (ih_NodeId h) \<and> handle_ok b (fi_Fh h)"
| "legal fs b w (Req_Release c h) \<longleftrightarrow> 0 < refs b (ih_NodeId h) \<and> handle_ok b (fi_Fh h)"
| "legal fs b w (Req_GetLk c h lk) \<longleftrightarrow> 0 < refs b (ih_NodeId h) \<and> handle_ok b (fi_Fh h)"
| "legal fs b w (Req_SetLk c h) \<longleftrightarrow> 0 < refs b (ih_NodeId h) \<and> handle_ok b (fi_Fh h)"
| "legal fs b w (Req_SetLkw c h) \<longleftrightarrow> 0 < refs b (ih_NodeId h) \<and> handle_ok b (fi_Fh h)"
| "legal fs b w (Req_ReadDir c h off) \<longleftrightarrow>
     0 < refs b (ih_NodeId h) \<and> open_files b (ucast (fi_Fh h)) \<noteq> None"
| "legal fs b w (Req_ReadDirPlus c h off) \<longleftrightarrow>
     0 < refs b (ih_NodeId h) \<and> open_files b (ucast (fi_Fh h)) \<noteq> None \<and>
     plus_ok fs (ctx_of c h) b (ih_NodeId h) (fi_Fh h) off w"
| "legal fs b w (Req_ReleaseDir fh) \<longleftrightarrow> handle_ok b fh"

text \<open>Of go-fuse: \<open>out\<close> is an empty listing.\<close>

definition fuse_ok :: "'d fuselib \<Rightarrow> 'd \<Rightarrow> bool" where
  "fuse_ok lib out \<longleftrightarrow> timeouts_ok lib \<and> entries_ok lib \<and> lib_NodeIds lib out = []"

text \<open>How the kernel counts its references, and the handles it was given.\<close>

definition counted :: "request \<Rightarrow> reply \<Rightarrow> (u64 \<Rightarrow> nat) \<Rightarrow> u64 \<Rightarrow> nat" where
  "counted req rep K =
    fold count_in (reply_entries rep) (case req of Req_Forget i n \<Rightarrow> K(i := K i - unat n) | _ \<Rightarrow> K)"

definition handed :: "request \<Rightarrow> reply \<Rightarrow> u32 set \<Rightarrow> u32 set" where
  "handed req rep H =
    (case reply_handle rep of
       Some fh \<Rightarrow> insert (ucast fh) H
     | None \<Rightarrow> (case req of
         Req_Release c h \<Rightarrow> H - {ucast (fi_Fh h)}
       | Req_ReleaseDir fh \<Rightarrow> H - {ucast fh}
       | _ \<Rightarrow> H))"

inductive session ::
  "'w FileSystem \<Rightarrow> 'd fuselib \<Rightarrow> 'd \<Rightarrow> 'w sys \<Rightarrow> (u64 \<Rightarrow> nat) \<Rightarrow> u32 set \<Rightarrow> bool" for fs lib out where
  session_start: "NewPathFS opts rs = Inr b \<Longrightarrow>
    session fs lib out \<lparr>sy_bridge = b, sy_world = w, sy_pool = cs\<rparr> ((\<lambda>_. 0)(1 := 1)) {}"
| session_request: "session fs lib out s K H \<Longrightarrow> legal fs (sy_bridge s) (sy_world s) req \<Longrightarrow>
    serve fs lib out req s = Inr (rep, s') \<Longrightarrow> session fs lib out s' (counted req rep K) (handed req rep H)"

inductive_cases session_cases: "session fs lib out s K H"

section \<open>One request\<close>

text \<open>A handle that is in use before and after a request stands for the same open file.\<close>

definition stays :: "rawBridge \<Rightarrow> rawBridge \<Rightarrow> bool" where
  "stays b b' \<longleftrightarrow> (\<forall>fh. held b fh \<noteq> None \<longrightarrow> held b' fh \<noteq> None \<longrightarrow> held b' fh = held b fh)"

lemma stays_held: "held b' = held b \<Longrightarrow> stays b b'"
  by (simp add: stays_def)

lemma enters_stays:
  assumes "enters b b' fh"
  shows "stays b b'" "dom (held b') = insert fh (dom (held b))" "fh \<notin> dom (held b)"
proof -
  obtain f where f: "held b' = (held b)(fh \<mapsto> f)" "open_files b fh = None" using assms by (auto simp: enters_def)
  then have n: "held b fh = None" by simp
  then show "fh \<notin> dom (held b)" by (simp add: domIff del: held_None)
  show "dom (held b') = insert fh (dom (held b))" unfolding f(1) by simp
  show "stays b b'" unfolding stays_def f(1) using n by (metis fun_upd_other)
qed

lemma close_stays: "held b' = (held b)(fh := None) \<Longrightarrow> stays b b'"
  by (simp add: stays_def del: held_None)

text \<open>What a legal request leaves behind, seen from the kernel.\<close>

definition outcome :: "request \<Rightarrow> rawBridge \<Rightarrow> reply \<Rightarrow> rawBridge \<Rightarrow> bool" where
  "outcome req b rep b' \<longleftrightarrow>
     bridge_ok b' \<and> refs b' = counted req rep (refs b) \<and>
     dom (held b') = handed req rep (dom (held b)) \<and> stays b b' \<and>
     (\<forall>fh. reply_handle rep = Some fh \<longrightarrow> ucast fh \<noteq> (0 :: u32) \<and> ucast fh \<notin> dom (held b))"

lemma total_mapM: "total m s (\<lambda>r b w. P (f r) b w) \<Longrightarrow> total (mapM f m) s P"
  unfolding mapM_def by (rule total_bind[where Q = "\<lambda>r. P (f r)"]) (auto intro: total_ret)

definition ordinary :: "request \<Rightarrow> bool" where
  "ordinary req \<longleftrightarrow> (\<forall>i n. req \<noteq> Req_Forget i n) \<and> (\<forall>c h. req \<noteq> Req_Release c h) \<and> (\<forall>fh. req \<noteq> Req_ReleaseDir fh)"

lemma ordinary_simps:
  assumes "ordinary req"
  shows "counted req (Reply is hn) K = fold count_in is K" "handed req (Reply en None) H = H"
  using assms by (auto simp: ordinary_def counted_def handed_def split: request.split)

lemma counted_one: "ordinary req \<Longrightarrow> counted req (Reply [i] hn) K = K(i := Suc (K i))"
  by (simp add: ordinary_simps count_in_def)

lemma handed_Some [simp]: "handed req (Reply en (Some fh)) H = insert (ucast fh) H"
  by (simp add: handed_def)

lemma outcome_keeps: "keeps b b' \<Longrightarrow> ordinary req \<Longrightarrow> outcome req b (Reply [] None) b'"
  by (simp add: outcome_def keeps_def ordinary_simps stays_held)

lemma outcome_entry: "entry_post b r b' \<Longrightarrow> ordinary req \<Longrightarrow> outcome req b (entry_of r) b'"
  by (cases "fst r = OK") (simp_all add: outcome_def entry_of_def given_def keeps_def ordinary_simps count_in_def stays_held)

lemma outcome_handle:
  "if fst r = OK then opened b b' (oo_Fh (snd r)) else keeps b b' \<Longrightarrow> ordinary req \<Longrightarrow> outcome req b (handle_of r) b'"
  by (cases "fst r = OK") (use enters_stays[of b b' "ucast (oo_Fh (snd r))"] in
    \<open>simp_all add: outcome_def handle_of_def opened_def keeps_def ordinary_simps stays_held\<close>)

lemma outcome_create: "create_post b r b' \<Longrightarrow> ordinary req \<Longrightarrow> outcome req b (both_of r) b'"
  by (cases "fst r = OK") (use enters_stays[of b b' "ucast (oo_Fh (snd (snd r)))"] in
    \<open>simp_all add: outcome_def both_of_def created_def keeps_def ordinary_simps count_in_def stays_held\<close>)

lemma outcome_listing: "listed b b' is \<Longrightarrow> ordinary req \<Longrightarrow> outcome req b (Reply is None) b'"
  by (simp add: outcome_def listed_def ordinary_simps stays_held)

lemma total_plain:
  assumes "total m s (\<lambda>_ b _. keeps b0 b)" "ordinary req"
  shows "total (mapM plain_of m) s (\<lambda>rep b' _. outcome req b0 rep b')"
  by (rule total_mapM, rule total_weaken[OF assms(1)]) (simp add: plain_of_def outcome_keeps assms(2))

lemma total_entry:
  assumes "total m s (\<lambda>r b _. entry_post b0 r b)" "ordinary req"
  shows "total (mapM entry_of m) s (\<lambda>rep b' _. outcome req b0 rep b')"
  by (rule total_mapM, rule total_weaken[OF assms(1)]) (rule outcome_entry[OF _ assms(2)])

lemma total_handle:
  assumes "total m s (\<lambda>r b _. if fst r = OK then opened b0 b (oo_Fh (snd r)) else keeps b0 b)" "ordinary req"
  shows "total (mapM handle_of m) s (\<lambda>rep b' _. outcome req b0 rep b')"
  by (rule total_mapM, rule total_weaken[OF assms(1)]) (rule outcome_handle[OF _ assms(2)])

lemma total_both:
  assumes "total m s (\<lambda>r b _. create_post b0 r b)" "ordinary req"
  shows "total (mapM both_of m) s (\<lambda>rep b' _. outcome req b0 rep b')"
  by (rule total_mapM, rule total_weaken[OF assms(1)]) (rule outcome_create[OF _ assms(2)])

lemma total_ReadDirPlus:
  assumes "bridge_ok (sy_bridge s)" "fuse_ok lib out" "legal fs (sy_bridge s) (sy_world s) (Req_ReadDirPlus c h off)"
  shows "total (mapM (listing_of lib) (ReadDirPlus fs lib c h off out)) s
    (\<lambda>rep b' _. outcome (Req_ReadDirPlus c h off) (sy_bridge s) rep b')"
proof (rule total_mapM, rule total_weaken[OF ReadDirPlus_listed])
  show "outcome (Req_ReadDirPlus c h off) (sy_bridge s) (listing_of lib r) b"
    if "\<exists>is. listed (sy_bridge s) b is \<and> lib_NodeIds lib (snd r) = lib_NodeIds lib out @ is" for r b
    using that assms(2) by (auto simp: listing_of_def fuse_ok_def ordinary_def intro!: outcome_listing)
qed (use assms in \<open>simp_all add: fuse_ok_def\<close>)

lemma total_Forget:
  assumes "bridge_ok (sy_bridge s)" "legal fs (sy_bridge s) (sy_world s) (Req_Forget i n)"
  shows "total (mapM plain_of (Forget i n)) s (\<lambda>rep b' _. outcome (Req_Forget i n) (sy_bridge s) rep b')"
  by (intro total_mapM total_weaken[OF Forget_takes])
    (use assms in \<open>simp_all add: outcome_def plain_of_def taken_def counted_def handed_def stays_held\<close>)

lemma total_Release:
  assumes "bridge_ok (sy_bridge s)" "legal fs (sy_bridge s) (sy_world s) (Req_Release c h)"
  shows "total (mapM plain_of (Release fs c h)) s (\<lambda>rep b' _. outcome (Req_Release c h) (sy_bridge s) rep b')"
  by (intro total_mapM total_weaken[OF Release_closes])
    (use assms in \<open>simp_all add: outcome_def plain_of_def closed_def counted_def handed_def close_stays\<close>)

lemma total_ReleaseDir:
  assumes "bridge_ok (sy_bridge s)" "legal fs (sy_bridge s) (sy_world s) (Req_ReleaseDir fh)"
  shows "total (mapM plain_of (ReleaseDir fh)) s (\<lambda>rep b' _. outcome (Req_ReleaseDir fh) (sy_bridge s) rep b')"
  by (intro total_mapM total_weaken[OF ReleaseDir_closes])
    (use assms in \<open>simp_all add: outcome_def plain_of_def closed_def counted_def handed_def close_stays\<close>)

lemmas plain_requests =
  Access_keeps GetAttr_keeps SetAttr_keeps Readlink_keeps GetXAttr_keeps ListXAttr_keeps SetXAttr_keeps
  RemoveXAttr_keeps StatFs_keeps file_requests_keep lock_requests_keep ReadDir_keeps Unlink_keeps Rmdir_keeps
  Rename_keeps

lemmas entry_requests = Lookup_given Mknod_given Mkdir_given Symlink_given Link_given

lemma serve_ok:
  assumes "bridge_ok (sy_bridge s)" "fuse_ok lib out" "legal fs (sy_bridge s) (sy_world s) req"
  shows "total (serve fs lib out req) s (\<lambda>rep b' _. outcome req (sy_bridge s) rep b')"
proof (cases "ordinary req")
  case True
  have "timeouts_ok lib" using assms(2) by (simp add: fuse_ok_def)
  with True show ?thesis
    using assms total_ReadDirPlus[OF assms(1,2)]
    by (cases req)
      (auto intro!: total_plain total_entry total_both total_handle
        intro: plain_requests entry_requests Create_created Open_opens OpenDir_opens simp: ordinary_def)
next
  case False
  then obtain i n c h fh where "req = Req_Forget i n \<or> req = Req_Release c h \<or> req = Req_ReleaseDir fh"
    by (auto simp: ordinary_def)
  then show ?thesis
    using total_Forget[OF assms(1)] total_Release[OF assms(1)] total_ReleaseDir[OF assms(1)] assms(3) by auto
qed

section \<open>Whole sessions\<close>

lemma NewPathFS_ok:
  assumes "NewPathFS opts rs = Inr b"
  shows "bridge_ok b" "refs b = (\<lambda>_. 0)(1 := 1)" "dom (open_files b) = {}"
proof -
  note n = NewPathFS_wf[OF assms]
  have e: "edge b p m = nil" "pset b a = {}" for p m a
    using NewPathFS_empty[OF assms] by simp_all
  then have "down b = {}" by (auto simp: down_def)
  moreover have "files_ok b" by (simp add: files_ok_def n)
  ultimately show "bridge_ok b" using n e by (simp add: bridge_ok_def go_get_Cons acyclic_def)
  show "refs b = (\<lambda>_. 0)(1 := 1)"
    using n root_ne[OF n(1)] by (simp add: refs_def fun_eq_iff go_get_Cons)
  show "dom (open_files b) = {}" by (auto simp: open_files_def n unat_eq_0 split: if_splits)
qed

lemma session_inv:
  assumes "fuse_ok lib out"
  shows "session fs lib out s K H \<Longrightarrow>
    bridge_ok (sy_bridge s) \<and> refs (sy_bridge s) = K \<and> dom (open_files (sy_bridge s)) = H"
proof (induction rule: session.induct)
  case (session_start opts rs b w cs)
  from NewPathFS_ok[OF this] show ?case by simp
next
  case (session_request s K H req rep s')
  then have "total (serve fs lib out req) s (\<lambda>rep b' _. outcome req (sy_bridge s) rep b')"
    using assms by (intro serve_ok) simp_all
  with session_request show ?case by (auto simp: total_def outcome_def held_dom)
qed

section \<open>Nothing stays behind\<close>

text \<open>When the kernel has forgotten all but the root, the table holds the root only.\<close>

lemma wf_up:
  assumes "tree_ok b" "acyclic (down b)"
  shows "wf ((down b)\<inverse>)"
proof -
  have "down b \<subseteq> {..<hnext b} \<times> {..<hnext b}"
    using down_valid[OF assms(1)] by (auto simp: down_def valid_def)
  then have "finite (down b)" by (rule finite_subset) simp
  then show ?thesis using assms(2) by (simp add: finite_acyclic_wf_converse)
qed

lemma only_root:
  assumes "bridge_ok b" "\<And>i. i \<noteq> 1 \<Longrightarrow> refs b i = 0"
  shows "valid b a \<Longrightarrow> registered b a \<Longrightarrow> a = root b"
proof (induction a rule: wf_induct_rule[OF wf_up[of b]])
  case 1
  then show ?case using assms(1) by (simp add: bridge_ok_def)
next
  case 2
  then show ?case using assms(1) by (simp add: bridge_ok_def)
next
  case (3 a)
  have t: "tree_ok b" using assms(1) by (simp add: bridge_ok_def)
  show ?case
  proof (rule ccontr)
    assume ne: "a \<noteq> root b"
    have n: "node_of b (inum b a) = a" "a \<noteq> nil" using 3(2,3) by (simp_all add: registered_def valid_def)
    then have "inum b a \<noteq> 1" using ne assms(1) by (auto simp: bridge_ok_def)
    from assms(2)[OF this] n have "lookups b a = 0" by (simp add: refs_def unat_eq_0)
    moreover have "live b a" using tree_okD(5)[OF t] 3(2,3) by (auto simp: live_ok_def)
    ultimately obtain m where m: "edge b a m \<noteq> nil"
      using live_iff[OF tree_okD(2)[OF t] 3(2)] by blast
    let ?c = "edge b a m"
    have c: "valid b ?c" using edges_okD(2)[OF tree_okD(3)[OF t] 3(2) m] .
    then have p: "pset b ?c \<noteq> {}" using edges_okD(1)[OF tree_okD(3)[OF t] 3(2) c, of m] by auto
    then have "registered b ?c" using tree_okD(5)[OF t] c by (simp add: live_ok_def)
    moreover have "(?c, a) \<in> (down b)\<inverse>" using 3(2) m by (auto simp: down_def)
    ultimately have "?c = root b" using 3(1) c by blast
    with p assms(1) show False by (simp add: bridge_ok_def)
  qed
qed

lemma one_node:
  assumes "bridge_ok b" "\<And>i. i \<noteq> 1 \<Longrightarrow> refs b i = 0"
  shows "length (nodes b) = 1"
proof -
  have t: "tree_ok b" using assms(1) by (simp add: bridge_ok_def)
  then have g: "go_map_ok (nodes b)" using tree_okD(4) by (simp add: tab_ok_def)
  have "i = 1 \<and> v = root b" if "(i, v) \<in> set (nodes b)" for i v
  proof -
    have "v \<noteq> nil" using g that by (force simp: go_map_ok_def)
    with that have n: "node_of b i = v" using go_get_eq_iff[OF g] by blast
    with \<open>v \<noteq> nil\<close> have v: "valid b v" "inum b v = i" "registered b v" using table_valid[OF t, of i] by auto
    have "v = root b" using only_root[OF assms v(1,3)] .
    moreover have "inum b (root b) = 1"
      using table_valid(2)[OF t, of 1] assms(1) root_ne[OF t] by (simp add: bridge_ok_def)
    ultimately show ?thesis using v(2) by simp
  qed
  then have "set (nodes b) \<subseteq> {(1, root b)}" by auto
  moreover have "distinct (nodes b)" using g by (auto simp: go_map_ok_def distinct_map)
  then have "length (nodes b) = card (set (nodes b))" by (simp add: distinct_card)
  moreover have "nodes b \<noteq> []" using assms(1) root_ne[OF t] by (auto simp: bridge_ok_def)
  ultimately show ?thesis
    by (metis card.empty card.insert empty_iff finite.emptyI set_empty2 subset_singleton_iff One_nat_def)
qed

end
