(* ===== verification/Default_FS.thy ===== *)
theory Default_FS
  imports Api
begin

text \<open>
  \<open>DefaultFileSystem\<close> (\<open>default.go\<close>): every call answers ENOSYS, but for \<open>StatFs\<close>,
  which answers OK, and \<open>Release\<close>, which answers nothing. Whatever is passed in as an
  \<open>out\<close> argument stays as it is.
\<close>

definition defaultFileSystem :: "'w FileSystem" where
  "defaultFileSystem =
    \<lparr>fs_GetAttr = (\<lambda>ctx path uFh out w. ((ENOSYS, out), w)),
     fs_Access = (\<lambda>ctx path mask w. (ENOSYS, w)),
     fs_Mknod = (\<lambda>ctx path mode dev w. (ENOSYS, w)),
     fs_Mkdir = (\<lambda>ctx path mode w. (ENOSYS, w)),
     fs_Unlink = (\<lambda>ctx path w. (ENOSYS, w)),
     fs_Rmdir = (\<lambda>ctx path w. (ENOSYS, w)),
     fs_Rename = (\<lambda>ctx path newPath w. (ENOSYS, w)),
     fs_Link = (\<lambda>ctx path newPath w. (ENOSYS, w)),
     fs_Symlink = (\<lambda>ctx path target w. (ENOSYS, w)),
     fs_Readlink = (\<lambda>ctx path w. (('''', ENOSYS), w)),
     fs_GetXAttr = (\<lambda>ctx path attr w. (([], ENOSYS), w)),
     fs_ListXAttr = (\<lambda>ctx path w. (([], ENOSYS), w)),
     fs_SetXAttr = (\<lambda>ctx path attr data flags w. (ENOSYS, w)),
     fs_RemoveXAttr = (\<lambda>ctx path attr w. (ENOSYS, w)),
     fs_Create = (\<lambda>ctx path flags mode w. ((0, False, ENOSYS), w)),
     fs_Open = (\<lambda>ctx path flags w. ((0, False, False, ENOSYS), w)),
     fs_Read = (\<lambda>ctx path uFh dest off w. ((None, ENOSYS), w)),
     fs_Write = (\<lambda>ctx path uFh data off w. ((0, ENOSYS), w)),
     fs_Fallocate = (\<lambda>ctx path uFh off size mode w. (ENOSYS, w)),
     fs_Fsync = (\<lambda>ctx path uFh flags w. (ENOSYS, w)),
     fs_Flush = (\<lambda>ctx path uFh lockOwner w. (ENOSYS, w)),
     fs_Release = (\<lambda>ctx path uFh w. ((), w)),
     fs_GetLk = (\<lambda>ctx path uFh owner lk flags out w. ((ENOSYS, out), w)),
     fs_SetLk = (\<lambda>ctx path uFh owner lk flags w. (ENOSYS, w)),
     fs_SetLkw = (\<lambda>ctx path uFh owner lk flags w. (ENOSYS, w)),
     fs_Chmod = (\<lambda>ctx path uFh mode w. (ENOSYS, w)),
     fs_Chown = (\<lambda>ctx path uFh uid gid w. (ENOSYS, w)),
     fs_Truncate = (\<lambda>ctx path uFh size w. (ENOSYS, w)),
     fs_Utimens = (\<lambda>ctx path uFh atime mtime w. (ENOSYS, w)),
     fs_Lsdir = (\<lambda>ctx path w. (([], ENOSYS), w)),
     fs_StatFs = (\<lambda>ctx path out w. ((OK, out), w))\<rparr>"

definition DefaultFileSystem :: "'w FileSystem" where
  "DefaultFileSystem = defaultFileSystem"

end
