(* ===== verification/Examples.thy ===== *)
theory Examples
  imports Session Default_FS
begin

text \<open>
  Small states and a small file system, at which the properties of the development are
  applied: the first state of a bridge, one with a directory \<open>d\<close> in the root, and one with
  a file \<open>x\<close> in that directory.
\<close>

section \<open>States\<close>

definition ex0 :: rawBridge where
  "ex0 = (bridge_blank Options_default (\<lambda>_. 0))
      \<lparr>root := 1, nodes := [(1, 1)], nodeCountHigh := 1, files := [fileEntry_zero], hnext := Suc 1,
       heap := (\<lambda>_. inode_zero)(1 := inode_zero\<lparr>ino := 1, children := Some [], lookupCount := 1\<rparr>)\<rparr>"

definition ex1 :: rawBridge where
  "ex1 = (case addChild 1 ''d'' 2 True ex0 of Inr (_, b) \<Rightarrow> b | Inl _ \<Rightarrow> ex0)"

definition ex2 :: rawBridge where
  "ex2 = (case addChild 2 ''x'' 3 False ex1 of Inr (_, b) \<Rightarrow> b | Inl _ \<Rightarrow> ex1)"

lemma ex0_new: "NewPathFS None (\<lambda>_. 0) = Inr ex0"
  by (simp add: NewPathFS_def newInode_def alloc_apply Let_def bridge_blank_def upd_def inode_zero_def ex0_def
      fun_eq_iff)

lemma ex0_ok: "bridge_ok ex0"
  by (rule NewPathFS_ok(1)[OF ex0_new])

lemma nil_above: "p \<noteq> nil \<Longrightarrow> (nil, p) \<notin> (down b)\<^sup>*"
  by (auto simp: down_def valid_def elim: converse_rtranclE)

lemma ex0_facts: "valid ex0 1" "registered ex0 1" "go_get (nodes ex0) 2 = nil" "refs ex0 2 = 0" "refs ex0 1 = 1"
  "isDir (heap ex0 1)" "edge ex0 1 ''d'' = nil" "root ex0 = 1" "go_get (nodes ex0) 1 = 1"
  by code_simp+

lemma ex0_answer: "answer_ok ex0 1 ''d'' 2"
  unfolding answer_ok_def using ex0_facts nil_above[of _ ex0]
  by (simp add: One_nat_def[symmetric] del: One_nat_def)

lemma ex1_add: "\<exists>c. addChild 1 ''d'' 2 True ex0 = Inr (c, ex1) \<and> bridge_ok ex1 \<and> added ex0 1 ''d'' 2 True c ex1"
  using addChild_ok[OF ex0_ok ex0_facts(1,2) ex0_answer, of True] by (auto simp: ex1_def)

lemma ex1_ok: "bridge_ok ex1"
  using ex1_add by blast

lemma ex1_facts: "valid ex1 2" "registered ex1 2" "go_get (nodes ex1) 3 = nil" "refs ex1 3 = 0" "refs ex1 2 = 1"
  "refs ex1 1 = 1" "isDir (heap ex1 2)" "edge ex1 2 ''x'' = nil" "root ex1 = 1" "go_get (nodes ex1) 1 = 1"
  "go_get (nodes ex1) 2 = 2" "valid ex1 1" "registered ex1 1" "lookups ex1 1 = 1" "lookups ex1 2 = 1"
  "edge ex1 1 ''d'' = 2"
  by code_simp+

lemma ex1_answer: "answer_ok ex1 2 ''x'' 3"
  unfolding answer_ok_def by (simp add: ex1_facts nil_above)

lemma ex2_add: "\<exists>c. addChild 2 ''x'' 3 False ex1 = Inr (c, ex2) \<and> bridge_ok ex2 \<and> added ex1 2 ''x'' 3 False c ex2"
  using addChild_ok[OF ex1_ok ex1_facts(1,2) ex1_answer, of False] by (auto simp: ex2_def)

lemma ex2_ok: "bridge_ok ex2"
  using ex2_add by blast

lemma ex2_facts: "valid ex2 1" "valid ex2 2" "valid ex2 3" "registered ex2 1" "registered ex2 2" "registered ex2 3"
  "isDir (heap ex2 1)" "isDir (heap ex2 2)" "edge ex2 1 ''d'' = 2" "edge ex2 2 ''x'' = 3" "edge ex2 1 ''y'' = nil"
  "lookups ex2 1 = 1" "lookups ex2 2 = 1" "lookups ex2 3 = 1" "root ex2 = 1" "hnext ex2 = 4"
  "go_get (nodes ex2) 3 = 3" "inum ex2 3 = 3"
  by code_simp+

lemma ex2_tree: "tree_ok ex2" "acyclic (down ex2)"
  using ex2_ok by (simp_all add: bridge_ok_def)

lemma ex2_named: "named ex2 1 []" "named ex2 2 [''d'']" "named ex2 3 [''d'', ''x'']"
proof -
  show 1: "named ex2 1 []" using named_root[of ex2] by (simp add: ex2_facts)
  have "parents_get (parents (heap ex2 2)) = pent ''d'' 1" by code_simp
  with named_child[OF 1, of 2 "''d''"] show 2: "named ex2 2 [''d'']" by (simp add: ex2_facts)
  have "parents_get (parents (heap ex2 3)) = pent ''x'' 2" by code_simp
  with named_child[OF 2, of 3 "''x''"] show "named ex2 3 [''d'', ''x'']" by (simp add: ex2_facts)
qed

section \<open>A file system\<close>

text \<open>The library's functions that only matter for replies, with no effect.\<close>

definition exlib :: "DirEntry list fuselib" where
  "exlib = \<lparr>lib_goos = Linux, lib_IsDir = (\<lambda>a. at_Mode a AND 0xF000 = 0x4000),
     lib_EntryOut_SetAttrTimeout = (\<lambda>t out. out\<lparr>eo_AttrValid := t div 1000000000\<rparr>),
     lib_EntryOut_SetEntryTimeout = (\<lambda>t out. out\<lparr>eo_EntryValid := t div 1000000000\<rparr>),
     lib_AttrOut_SetTimeout = (\<lambda>t out. out\<lparr>ao_AttrValid := t div 1000000000\<rparr>),
     lib_FOPEN_DIRECT_IO = 1, lib_FOPEN_KEEP_CACHE = 2,
     lib_AddDirEntry = (\<lambda>e d. (length d < 3, if length d < 3 then d @ [e] else d)),
     lib_AddDirLookupEntry = (\<lambda>e d. (None, d)),
     lib_SetLookupEntry = (\<lambda>eo d. d), lib_NodeIds = (\<lambda>d. [])\<rparr>"

lemma exlib_timeouts: "timeouts_ok exlib"
  by (simp add: timeouts_ok_def exlib_def)

lemma exlib_fuse: "fuse_ok exlib out"
  using exlib_timeouts by (simp add: fuse_ok_def entries_ok_def) (simp add: exlib_def)

text \<open>A file system with the directory \<open>d\<close>, number 2, and nothing else.\<close>

definition exfs :: "unit FileSystem" where
  "exfs = defaultFileSystem
     \<lparr>fs_GetAttr := (\<lambda>ctx path uFh out w.
        if path = ''d'' then ((OK, out\<lparr>at_Ino := 2, at_Mode := 0x4000\<rparr>), w) else ((Errno 2, out), w)),
      fs_Lsdir := (\<lambda>ctx path w. (([\<lparr>de_Mode = 0x4000, de_Name = ''d'', de_Ino = 2\<rparr>], OK), w))\<rparr>"

definition exhdr :: InHeader where
  "exhdr = \<lparr>ih_NodeId = 1, ih_Caller = Caller_zero\<rparr>"

definition exout :: EntryOut where
  "exout = \<lparr>eo_NodeId = 0, eo_Generation = 0, eo_EntryValid = 0, eo_AttrValid = 0, eo_EntryValidNsec = 0,
     eo_AttrValidNsec = 0,
     eo_Attr = \<lparr>at_Ino = 0, at_Size = 0, at_Blocks = 0, at_Mode = 0, at_Uid = 0, at_Gid = 0, at_Blksize = 0\<rparr>\<rparr>"

definition exopen :: OpenOut where
  "exopen = \<lparr>oo_Fh = 0, oo_OpenFlags = 0\<rparr>"

definition exsys :: "rawBridge \<Rightarrow> unit sys" where
  "exsys b = \<lparr>sy_bridge = b, sy_world = (), sy_pool = []\<rparr>"

lemma pathOf_root: "pathOf (root b) b = Inr ('''', b)"
  by (simp add: pathOf_def monad_simps)

lemma exfs_lookup_legal: "legal exfs ex0 () (Req_Lookup 0 exhdr ''d'' exout)"
proof -
  have p: "path = ''''" if "path_in ex0 1 path" for path
  proof -
    from that obtain b1 b2 where b: "quiet ex0 b1" "pathOf 1 b1 = Inr (path, b2)" by (auto simp: path_in_def)
    then have "root b1 = 1" using ex0_facts(8) by (simp add: quiet_def)
    with pathOf_root[of b1] b(2) show "path = ''''" by simp
  qed
  show ?thesis
    using ex0_answer
    by (auto simp: exhdr_def ex0_facts creates_ok_def answers_ok_def childPathOf_def exfs_def simp del: One_nat_def dest!: p)
qed

section \<open>A session\<close>

lemma ex_start: "session exfs exlib [] (exsys ex0) ((\<lambda>_. 0)(1 := 1)) {}"
  unfolding exsys_def by (rule session_start[OF ex0_new])

definition exlookup :: request where
  "exlookup = Req_Lookup 0 exhdr ''d'' exout"

lemma ex_lookup:
  "\<exists>s. serve exfs exlib [] exlookup (exsys ex0) = Inr (Reply [2] None, s) \<and>
    session exfs exlib [] s ((\<lambda>_. 0)(1 := 1, 2 := 1)) {}"
proof -
  have "(case serve exfs exlib [] exlookup (exsys ex0) of
      Inr (rep, s') \<Rightarrow> rep = Reply [2] None | Inl _ \<Rightarrow> False)"
    by code_simp
  then obtain s where s: "serve exfs exlib [] exlookup (exsys ex0) = Inr (Reply [2] None, s)"
    by (auto split: sum.splits prod.splits)
  have "legal exfs (sy_bridge (exsys ex0)) (sy_world (exsys ex0)) exlookup"
    using exfs_lookup_legal by (simp add: exsys_def exlookup_def)
  from session_request[OF ex_start this s]
  have "session exfs exlib [] s ((\<lambda>_. 0)(1 := 1, 2 := 1)) {}"
    by (simp add: exlookup_def handed_def counted_def count_in_def)
  with s show ?thesis by blast
qed

definition exforget :: request where
  "exforget = Req_Forget 2 1"

lemma mapM_plain: "mapM plain_of m s = Inr (rep, s') \<Longrightarrow> rep = Reply [] None"
  by (auto simp: mapM_def bindM_def ret_def plain_of_def split: sum.splits prod.splits)

lemma ex_forget: "\<exists>s s'. session exfs exlib [] s ((\<lambda>_. 0)(1 := 1, 2 := 1)) {} \<and>
  serve exfs exlib [] exforget s = Inr (Reply [] None, s') \<and>
  session exfs exlib [] s' ((\<lambda>_. 0)(1 := 1)) {}"
proof -
  obtain s :: "unit sys" where s: "session exfs exlib [] s ((\<lambda>_. 0)(1 := 1, 2 := 1)) {}" using ex_lookup by blast
  have b: "bridge_ok (sy_bridge s)" and r: "refs (sy_bridge s) 2 = 1"
    using session_inv[OF exlib_fuse s] by simp_all
  have l: "legal exfs (sy_bridge s) (sy_world s) exforget" using r by (simp add: exforget_def)
  obtain rep s' where s': "serve exfs exlib [] exforget s = Inr (rep, s')"
    using serve_ok[OF b exlib_fuse l] unfolding total_def by blast
  then have rep: "rep = Reply [] None"
    unfolding exforget_def serve.simps by (rule mapM_plain)
  have "counted exforget rep ((\<lambda>_. 0)(1 := 1, 2 := 1)) = (\<lambda>_. 0)(1 := 1)"
    by (rule ext) (simp add: rep exforget_def counted_def)
  moreover have "handed exforget rep {} = {}" by (simp add: rep exforget_def handed_def)
  ultimately have "session exfs exlib [] s' ((\<lambda>_. 0)(1 := 1)) {}"
    using session_request[OF s l s'] by simp
  with s s' rep show ?thesis by blast
qed

end
