(* ===== verification/Interleaving_Theorems.thy ===== *)
theory Interleaving_Theorems
  imports Atomic Examples
begin

text \<open>
  What is promised to calls that run at the same time, and what is not: the sections of many
  calls are the calls in steps, no section panics but by its own arguments, and a removal can be overtaken.
\<close>

section \<open>Schedules\<close>

text \<open>A move of the threads: one of them begins a call, or runs a section.\<close>

datatype move = Begin nat task | Step nat

fun play :: "move list \<Rightarrow> nat \<times> rawBridge \<times> task list list \<Rightarrow> (nat \<times> rawBridge \<times> task list list) option" where
  "play [] c = Some c"
| "play (Begin j t # ms) (k, b, ts) =
    (if j < length ts \<and> ts ! j = [] \<and> starts t \<and> valid_task b t then play ms (k, b, ts[j := [t]]) else None)"
| "play (Step j # ms) (k, b, ts) =
    (if j < length ts
     then case ts ! j of
            [] \<Rightarrow> None
          | t # rest \<Rightarrow>
              (case run_task t b of
                 Inl _ \<Rightarrow> None
               | Inr (new, b') \<Rightarrow> play ms (k + cost t, b', ts[j := new @ rest]))
     else None)"

lemma play_run: "threads_run b0 n k b ts \<Longrightarrow> play ms (k, b, ts) = Some (k', b', ts') \<Longrightarrow> threads_run b0 n k' b' ts'"
proof (induction ms "(k, b, ts)" arbitrary: k b ts rule: play.induct)
  case (2 j t ms k b ts)
  then show ?case by (auto split: if_splits intro: run_call)
next
  case (3 j ms k b ts)
  from "3.prems"(2) obtain t rest new b1 where
    j: "j < length ts" "ts ! j = t # rest" "run_task t b = Inr (new, b1)"
      "play ms (k + cost t, b1, ts[j := new @ rest]) = Some (k', b', ts')"
    by (auto split: if_splits list.splits sum.splits prod.splits)
  show ?case by (rule "3.hyps"[OF j(1,2,3) refl run_section[OF "3.prems"(1) j(1-3)] j(4)])
qed simp

text \<open>Two threads that look up \<open>d\<close> at the same time: the second finds what the first has made.\<close>

definition exlookups :: "move list" where
  "exlookups = [Begin 0 (Add 1 ''d'' 2 True nil), Begin 1 (Add 1 ''d'' 2 True nil), Step 0, Step 1, Step 1]"

lemma exlookups_run: "\<exists>b. threads_run ex0 2 9 b [[], []] \<and> lookups b 2 = 2"
proof -
  have "case play exlookups (0, ex0, [[], []]) of
      Some (k, b, ts) \<Rightarrow> k = 9 \<and> ts = [[], []] \<and> lookups b 2 = 2 | None \<Rightarrow> False"
    by code_simp
  then obtain b where b: "play exlookups (0, ex0, [[], []]) = Some (9, b, [[], []])" "lookups b 2 = 2"
    by (auto split: option.splits prod.splits)
  have "threads_run ex0 2 0 ex0 [[], []]" using run_start[of ex0 2] by (simp add: numeral_2_eq_2)
  from play_run[OF this b(1)] b(2) show ?thesis by blast
qed

section \<open>Any interleaving\<close>

lemma ex0_shared: "shared_ok ex0"
  using tree_shared[of ex0] ex0_ok by (simp add: bridge_ok_def)

text \<open>
  C14: whatever sections run between the sections of a call, the call does in its steps what it would do if each
  read and the change that relies on it were one step: the checks of the revisions miss no change, as long as no
  revision comes round its \<open>2 ^ 32\<close> values.
\<close>

theorem sections_atomic:
  assumes "shared_ok b0" "threads_run b0 n k b ts" "k < 2 ^ 32"
  shows "atomic_run b0 n b (map (map settle) ts)"
  using threads_simulated[OF assms(1,2,3)] by blast

theorem sections_atomic_witness: "\<exists>b. atomic_run ex0 2 b [[], []] \<and> lookups b 2 = 2"
  using exlookups_run sections_atomic[OF ex0_shared, of 2 9 _ "[[], []]"] by fastforce

text \<open>
  C15: in every interleaving every child knows the directory it is in, the table leads to inodes of its numbers, and
  a section panics only for what its call was asked: an entry \<open>.\<close> or \<open>..\<close>, the reserved number, a directory that is
  none, or more references than there are. In particular no reference comes to an inode that is being removed.
\<close>

theorem threads_keep:
  assumes "shared_ok b0" "threads_run b0 n k b ts" "k < 2 ^ 32"
  shows "shared_ok b \<and>
    (\<forall>j t rest e. j < length ts \<and> ts ! j = t # rest \<and> run_task t b = Inl e \<longrightarrow> asked_for b (settle t) e)"
proof (intro conjI allI impI)
  have ok: "threads_ok k b ts" using threads_simulated[OF assms] by simp
  then show "shared_ok b" by (simp add: threads_ok_def)
  fix j t rest e assume j: "j < length ts \<and> ts ! j = t # rest \<and> run_task t b = Inl e"
  then have t: "shared_ok b" "task_ok b (settle t)" "fresh k b t"
    using threads_okD[OF ok, of j t rest] by (simp_all add: task_ok_def)
  have "run_atomic (settle t) b = Inl e"
    using run_task_cases[OF t(3) assms(3)] j by (auto simp: waits_def acts_def)
  then show "asked_for b (settle t) e" using atomic_step[OF t(1,2) settle_settle] by simp
qed

text \<open>A thread that takes back two references of which there is one: its section panics.\<close>

theorem threads_keep_witness:
  "\<exists>b. threads_run ex0 2 9 b [[], [Ref 2 3]] \<and> shared_ok b \<and>
     run_task (Ref 2 3) b = Inl (Panic_lookup_underflow 2 2 3) \<and>
     asked_for b (settle (Ref 2 3)) (Panic_lookup_underflow 2 2 3)"
proof -
  have "case play (exlookups @ [Begin 1 (Ref 2 3)]) (0, ex0, [[], []]) of
      Some (k, b, ts) \<Rightarrow> k = 9 \<and> ts = [[], [Ref 2 3]] \<and>
        (case run_task (Ref 2 3) b of Inl e \<Rightarrow> e = Panic_lookup_underflow 2 2 3 | Inr _ \<Rightarrow> False)
    | None \<Rightarrow> False"
    by code_simp
  then obtain b where b: "play (exlookups @ [Begin 1 (Ref 2 3)]) (0, ex0, [[], []]) = Some (9, b, [[], [Ref 2 3]])"
    "run_task (Ref 2 3) b = Inl (Panic_lookup_underflow 2 2 3)"
    by (auto split: option.splits prod.splits sum.splits)
  have "threads_run ex0 2 0 ex0 [[], []]" using run_start[of ex0 2] by (simp add: numeral_2_eq_2)
  from play_run[OF this b(1)] have r: "threads_run ex0 2 9 b [[], [Ref 2 3]]" .
  from threads_keep[OF ex0_shared r] b(2) r show ?thesis by (intro exI[of _ b]) fastforce
qed

section \<open>A removal that is overtaken\<close>

text \<open>
  Thread 0 looks up a directory \<open>d\<close> (inode 2) and two files in it, and forgets the directory,
  which stays in the table as it has children. Then both threads forget one file each and take
  it out of \<open>d\<close>, and to both \<open>d\<close> is a parent that may have to go. Thread 0 removes it and looks
  it up anew before thread 1 comes to it.
\<close>

definition exrace :: "move list" where
  "exrace =
    [Begin 0 (Add 1 ''d'' 2 True nil), Step 0, Begin 0 (Add 2 ''x'' 3 False nil), Step 0,
     Begin 0 (Add 2 ''y'' 4 False nil), Step 0, Begin 0 (Ref 2 1), Step 0,
     Begin 0 (Ref 3 1), Begin 1 (Ref 4 1), Step 0, Step 0, Step 1, Step 1,
     Step 0, Step 0, Step 0, Begin 0 (Add 1 ''d'' 2 True nil), Step 0,
     Step 1, Step 1]"

text \<open>
  C17: two removals can come to the same parent. The second one deletes the number of the parent from the table when
  another inode has it by then: the kernel has a reference on number 2, the directory has it as \<open>d\<close>, and the next
  request on it panics, although every thread has finished and the counts of the kernel were kept.
\<close>

theorem removal_overtaken:
  "\<exists>k b d. play exrace (0, ex0, [[], []]) = Some (k, b, [[], []]) \<and> threads_run ex0 2 k b [[], []] \<and>
     inum b d = 2 \<and> lookups b d = 1 \<and> edge b 1 ''d'' = d \<and> bridge_inode 2 b = Inl (Panic_unknown_node 2)"
proof -
  have "case play exrace (0, ex0, [[], []]) of
      Some (k, b, ts) \<Rightarrow> ts = [[], []] \<and> inum b 5 = 2 \<and> lookups b 5 = 1 \<and> edge b 1 ''d'' = 5 \<and> go_get (nodes b) 2 = nil
    | None \<Rightarrow> False"
    by code_simp
  then obtain k b where b: "play exrace (0, ex0, [[], []]) = Some (k, b, [[], []])" "inum b 5 = 2" "lookups b 5 = 1"
    "edge b 1 ''d'' = 5" "go_get (nodes b) 2 = nil"
    by (auto split: option.splits prod.splits)
  have "threads_run ex0 2 0 ex0 [[], []]" using run_start[of ex0 2] by (simp add: numeral_2_eq_2)
  from play_run[OF this b(1)] b show ?thesis by (auto simp: bridge_inode_apply)
qed

end
