(* ===== verification/Walks.thy ===== *)
theory Walks
  imports Interleaving_Theorems
begin

text \<open>
  The walk of \<open>pathOf\<close> while other threads change the tree: it has the lock of one inode at a time, so
  that any sections can run between two of its reads (\<open>walk_run\<close>). A walk that nothing comes between is
  the walk of \<open>pathOf\<close>; one that is overtaken by two renames can end with the path of another inode.
\<close>

section \<open>The root stays\<close>

definition same_root :: "(rawBridge, 'a) M \<Rightarrow> bool" where
  "same_root m \<longleftrightarrow> (\<forall>b x b'. m b = Inr (x, b') \<longrightarrow> root b' = root b)"

named_theorems root_intros \<open>sections keep the root\<close>

lemma root_bind [root_intros]: "same_root m \<Longrightarrow> (\<And>x. same_root (f x)) \<Longrightarrow> same_root (bindM m f)"
  unfolding same_root_def bindM_eq_Inr by metis

lemma root_if [root_intros]: "same_root m \<Longrightarrow> same_root m' \<Longrightarrow> same_root (if c then m else m')"
  by simp

lemma root_split [root_intros]: "(\<And>x y. same_root (f x y)) \<Longrightarrow> same_root (case p of (x, y) \<Rightarrow> f x y)"
  by (cases p) simp

lemma root_simple [root_intros]: "same_root (ret x)" "same_root (getsM g)" "same_root (fail e)" "same_root now"
  by (simp_all add: same_root_def ret_def getsM_def fail_def now_def monad_simps)

lemma root_modify: "(\<And>b. root (f b) = root b) \<Longrightarrow> same_root (modifyM f)"
  by (auto simp: same_root_def modifyM_def)

lemma root_upd [root_intros]: "same_root (modifyM (upd a f))"
  by (rule root_modify) simp

lemma root_fields [root_intros]:
  "same_root (modifyM (\<lambda>b. b\<lparr>nodes := f b\<rparr>))"
  "same_root (modifyM (\<lambda>b. if P b then b\<lparr>nodeCountHigh := g b\<rparr> else b))"
  "same_root (modifyM (unlink_st n pe))"
  by (rule root_modify, simp add: unlink_st_def)+

lemma root_forM [root_intros]: "(\<And>x. same_root (f x)) \<Longrightarrow> same_root (forM xs f)"
  by (induction xs) (simp_all add: root_simple root_bind)

lemma root_parts [root_intros]:
  "same_root (bumpM c)" "same_root (del_parent c e)" "same_root (add_parent c e)" "same_root (set_child p name c)"
  "same_root (newInode i dir)"
  unfolding bumpM_def del_parent_def add_parent_def set_child_def newInode_def alloc_def Let_def
  by (auto intro!: root_intros root_modify split: option.split)

lemmas section_defs = add_section_def add_commit_def ref_section_def ref_start_def ref_read_def reflock_section_def
  ref_commit_def rm_section_def rmlock_section_def rm_commit_def mv_section_def mvlock_section_def mv_commit_def

lemma run_task_root: "same_root (run_task t)"
  by (cases t) (simp_all only: run_task.simps section_defs, (intro root_intros)+)

lemma play_root: "play ms (k, b, ts) = Some (k', b', ts') \<Longrightarrow> root b' = root b"
proof (induction ms "(k, b, ts)" arbitrary: k b ts rule: play.induct)
  case (3 j ms k b ts)
  from "3.prems" obtain t rest new b1 where
    j: "j < length ts" "ts ! j = t # rest" "run_task t b = Inr (new, b1)"
      "play ms (k + cost t, b1, ts[j := new @ rest]) = Some (k', b', ts')"
    by (auto split: if_splits list.splits sum.splits prod.splits)
  from "3.hyps"[OF j(1,2,3) refl j(4)] run_task_root[of t] j(3) show ?case by (auto simp: same_root_def)
qed (auto split: if_splits)

section \<open>A walk among threads\<close>

text \<open>
  A walk is at an inode, with what it has read so far: inodes and their most recent parents. The root is
  read once, at the start. It is over at the root or where there is no parent.
\<close>

type_synonym walker = "addr \<times> (addr \<times> parentEntry) list"

definition walk_read :: "rawBridge \<Rightarrow> walker \<Rightarrow> walker" where
  "walk_read b w =
    (let pe = parents_get (parents (heap b (fst w))) in (pe_node pe, snd w @ [(fst w, pe)]))"

definition walk_names :: "(addr \<times> parentEntry) list \<Rightarrow> string list" where
  "walk_names tr = map (pe_name \<circ> snd) (filter (\<lambda>(x, pe). pe_node pe \<noteq> nil) tr)"

definition walk_path :: "walker \<Rightarrow> string" where
  "walk_path w = (let segs = walk_names (snd w) in join ''/'' (swap_loop 0 (int (length segs) - 1) segs))"

inductive walk_run :: "rawBridge \<Rightarrow> nat \<Rightarrow> addr \<Rightarrow> addr \<Rightarrow> nat \<Rightarrow> rawBridge \<Rightarrow> task list list \<Rightarrow> walker \<Rightarrow> bool" for b0 n a r where
  walk_begin: "threads_run b0 n k b ts \<Longrightarrow> valid b a \<Longrightarrow> root b = r \<Longrightarrow> walk_run b0 n a r k b ts (a, [])"
| walk_others: "walk_run b0 n a r k b ts w \<Longrightarrow> play ms (k, b, ts) = Some (k', b', ts') \<Longrightarrow> walk_run b0 n a r k' b' ts' w"
| walk_step: "walk_run b0 n a r k b ts w \<Longrightarrow> fst w \<noteq> nil \<Longrightarrow> fst w \<noteq> r \<Longrightarrow> walk_run b0 n a r k b ts (walk_read b w)"

lemma walk_threads: "walk_run b0 n a r k b ts w \<Longrightarrow> threads_run b0 n k b ts \<and> root b = r"
  by (induction rule: walk_run.induct) (auto dest: play_run play_root)

text \<open>A walk that nothing comes between is the walk of \<open>pathOf\<close>.\<close>

inductive walk_alone :: "rawBridge \<Rightarrow> walker \<Rightarrow> walker \<Rightarrow> bool" for b where
  alone_end: "fst w = nil \<or> fst w = root b \<Longrightarrow> walk_alone b w w"
| alone_read: "fst w \<noteq> nil \<Longrightarrow> fst w \<noteq> root b \<Longrightarrow> walk_alone b (walk_read b w) w' \<Longrightarrow> walk_alone b w w'"

lemma walk_alone_path:
  "walk_alone b w w' \<Longrightarrow> path_walk b (fst w) (walk_names (snd w)) = Some (fst w', walk_names (snd w'))"
proof (induction rule: walk_alone.induct)
  case (alone_end w)
  then show ?case by (subst path_walk.simps) auto
next
  case (alone_read w w')
  then show ?case
    by (subst path_walk.simps) (auto simp: walk_read_def walk_names_def Let_def)
qed

section \<open>A walk that is overtaken\<close>

text \<open>
  A second directory, \<open>b\<close> (inode 4), in the third state, and then, while a walk from the file \<open>x\<close> (inode 3) of the
  directory \<open>d\<close> has read that it is in \<open>d\<close>: the file is moved to \<open>b\<close>, the directory is renamed to \<open>c\<close>,
  and a new file \<open>x\<close> (inode 5) is made in it.
\<close>

definition exbefore :: "move list" where
  "exbefore = [Begin 0 (Add 1 ''b'' 4 True nil), Step 0]"

definition exduring :: "move list" where
  "exduring = [Begin 0 (Mv 2 ''x'' 4 ''x'' True), Step 0, Step 0, Begin 0 (Mv 1 ''d'' 1 ''c'' True), Step 0, Step 0,
     Begin 0 (Add 2 ''x'' 5 False nil), Step 0]"

text \<open>The paths an inode has, by \<open>pathOf\<close>, at the start of a schedule and after each of its moves.\<close>

definition path_now :: "addr \<Rightarrow> rawBridge \<Rightarrow> string option" where
  "path_now a b = (case pathOf a b of Inr (path, _) \<Rightarrow> Some path | Inl _ \<Rightarrow> None)"

definition path_history :: "addr \<Rightarrow> move list \<Rightarrow> nat \<times> rawBridge \<times> task list list \<Rightarrow> string option list" where
  "path_history a ms c =
    map (\<lambda>j. case play (take j ms) c of Some (_, b, _) \<Rightarrow> path_now a b | None \<Rightarrow> None) [0..<Suc (length ms)]"

lemma ex_history: "path_history 3 (exbefore @ exduring) (0, ex2, [[]]) = replicate 5 (Some ''d/x'') @ replicate 6 (Some ''b/x'')"
  by code_simp

lemma exbefore_run:
  obtains b1 where "play exbefore (0, ex2, [[]]) = Some (3, b1, [[]])" "root b1 = 1" "valid b1 3"
    "fst (walk_read b1 (3, [])) = 2"
proof -
  have "case play exbefore (0, ex2, [[]]) of Some (k, b, ts) \<Rightarrow> k = 3 \<and> ts = [[]] | None \<Rightarrow> False" by code_simp
  then obtain b1 where b1: "play exbefore (0, ex2, [[]]) = Some (3, b1, [[]])"
    by (auto split: option.splits prod.splits)
  have "case play exbefore (0, ex2, [[]]) of
      Some (k, b, ts) \<Rightarrow> root b = 1 \<and> valid b 3 \<and> fst (walk_read b (3, [])) = 2 | None \<Rightarrow> False"
    by code_simp
  note f = this[unfolded b1 option.case prod.case]
  show ?thesis by (rule that[OF b1]) (insert f, elim conjE, assumption)+
qed

lemma exbefore_walk:
  assumes "play exbefore (0, ex2, [[]]) = Some (3, b1, [[]])" "root b1 = 1" "valid b1 3"
  shows "walk_run ex2 1 3 1 3 b1 [[]] (walk_read b1 (3, []))"
proof -
  have "threads_run ex2 1 0 ex2 [[]]" using run_start[of ex2 1] by simp
  from walk_step[OF walk_begin[OF play_run[OF this assms(1)] assms(3,2)]] show ?thesis by simp
qed

lemma exduring_run:
  assumes "play exbefore (0, ex2, [[]]) = Some (3, b1, [[]])"
  obtains k b where "play exduring (3, b1, [[]]) = Some (k, b, [[]])" "root b = 1"
    "fst (walk_read b (walk_read b1 (3, []))) = 1" "walk_path (walk_read b (walk_read b1 (3, []))) = ''c/x''"
    "inum b 3 = 3" "inum b 5 = 5" "path_now 5 b = Some ''c/x''"
proof -
  have "case play exbefore (0, ex2, [[]]) of
      Some c \<Rightarrow> (case play exduring c of Some (k, b, ts) \<Rightarrow> ts = [[]] | None \<Rightarrow> False)
    | None \<Rightarrow> False"
    by code_simp
  then obtain k b where b: "play exduring (3, b1, [[]]) = Some (k, b, [[]])"
    unfolding assms option.case by (auto split: option.splits prod.splits)
  have "case play exbefore (0, ex2, [[]]) of
      Some c \<Rightarrow> (case play exduring c of
        Some (k, b, ts) \<Rightarrow>
          root b = 1 \<and> (let w = walk_read b (walk_read (fst (snd c)) (3, [])) in fst w = 1 \<and> walk_path w = ''c/x'') \<and>
          inum b 3 = 3 \<and> inum b 5 = 5 \<and> path_now 5 b = Some ''c/x''
      | None \<Rightarrow> False)
    | None \<Rightarrow> False"
    by code_simp
  note f = this[unfolded assms option.case b prod.case Let_def snd_conv fst_conv]
  show ?thesis by (rule that[OF b]) (insert f, elim conjE, assumption)+
qed

text \<open>
  C19: \<open>pathOf\<close> gives up the lock of an inode before it takes that of the next. There is a schedule in which
  two renames and a new file come between its two reads, and a walk from the file \<open>x\<close> that answers \<open>c/x\<close>: at
  no time of the schedule is this a path of the file, which is \<open>d/x\<close> and then \<open>b/x\<close>, and in the end it is the
  path of the new file, on which the file system then carries out the request.
\<close>

theorem walk_torn:
  "\<exists>k b1 b w. play exbefore (0, ex2, [[]]) = Some (3, b1, [[]]) \<and> play exduring (3, b1, [[]]) = Some (k, b, [[]]) \<and>
     w = walk_read b (walk_read b1 (3, [])) \<and> walk_run ex2 1 3 1 k b [[]] w \<and> fst w = root b \<and> walk_path w = ''c/x'' \<and>
     set (path_history 3 (exbefore @ exduring) (0, ex2, [[]])) = {Some ''d/x'', Some ''b/x''} \<and>
     path_now 5 b = Some ''c/x'' \<and> inum b 3 = 3 \<and> inum b 5 = 5"
proof -
  obtain b1 where b1: "play exbefore (0, ex2, [[]]) = Some (3, b1, [[]])" "root b1 = 1" "valid b1 3"
    "fst (walk_read b1 (3, [])) = 2"
    by (rule exbefore_run)
  obtain k b where b: "play exduring (3, b1, [[]]) = Some (k, b, [[]])" "root b = 1"
    "fst (walk_read b (walk_read b1 (3, []))) = 1" "walk_path (walk_read b (walk_read b1 (3, []))) = ''c/x''"
    "inum b 3 = 3" "inum b 5 = 5" "path_now 5 b = Some ''c/x''"
    by (rule exduring_run[OF b1(1)])
  have "walk_run ex2 1 3 1 k b [[]] (walk_read b (walk_read b1 (3, [])))"
    using walk_step[OF walk_others[OF exbefore_walk[OF b1(1-3)] b(1)]] b1(4) by simp
  moreover have "fst (walk_read b (walk_read b1 (3, []))) = root b" using b(2,3) by simp
  moreover have "set (path_history 3 (exbefore @ exduring) (0, ex2, [[]])) = {Some ''d/x'', Some ''b/x''}"
    unfolding ex_history by auto
  ultimately show ?thesis using b1(1) b(1,4-7) by blast
qed

end
