(* ===== verification/Locks.thy ===== *)
theory Locks
  imports Prelude "HOL-Library.Multiset"
begin

text \<open>
  The locks of inodes (the second half of \<open>inode.go\<close>): which mutexes \<open>lockNodes\<close>,
  \<open>lockNode2\<close> and their counterparts take and give back, in which order. A call is the
  list of the lock events it makes.
\<close>

section \<open>The functions\<close>

datatype lock_event = Lock addr | Unlock addr

definition nodeLess :: "addr \<Rightarrow> addr \<Rightarrow> bool" where
  "nodeLess a b \<longleftrightarrow> a < b"

text \<open>\<open>sort.Slice\<close> by \<open>nodeLess\<close>: pointers that are not less than each other are equal.\<close>

primrec sort_insert :: "('a \<Rightarrow> 'a \<Rightarrow> bool) \<Rightarrow> 'a \<Rightarrow> 'a list \<Rightarrow> 'a list" where
  "sort_insert lt x [] = [x]"
| "sort_insert lt x (y # ys) = (if lt y x then y # sort_insert lt x ys else x # y # ys)"

definition sortNodes :: "addr list \<Rightarrow> addr list" where
  "sortNodes ns = foldr (sort_insert nodeLess) ns []"

primrec each_once :: "(addr \<Rightarrow> lock_event) \<Rightarrow> addr \<Rightarrow> addr list \<Rightarrow> lock_event list" where
  "each_once ev nprev [] = []"
| "each_once ev nprev (n # ns) = (if n \<noteq> nprev then ev n # each_once ev n ns else each_once ev nprev ns)"

definition lockNodes :: "addr list \<Rightarrow> lock_event list" where
  "lockNodes ns = each_once Lock nil (sortNodes ns)"

definition unlockNodes :: "addr list \<Rightarrow> lock_event list" where
  "unlockNodes ns = each_once Unlock nil (sortNodes ns)"

definition lockNode2 :: "addr \<Rightarrow> addr \<Rightarrow> lock_event list" where
  "lockNode2 n1 n2 =
    (if n1 = n2 then (if n1 \<noteq> nil then [Lock n1] else [])
     else if nodeLess n1 n2 then (if n1 \<noteq> nil then [Lock n1] else []) @ (if n2 \<noteq> nil then [Lock n2] else [])
     else (if n2 \<noteq> nil then [Lock n2] else []) @ (if n1 \<noteq> nil then [Lock n1] else []))"

definition unlockNode2 :: "addr \<Rightarrow> addr \<Rightarrow> lock_event list" where
  "unlockNode2 n1 n2 =
    (if n1 = n2 then (if n1 \<noteq> nil then [Unlock n1] else [])
     else (if n1 \<noteq> nil then [Unlock n1] else []) @ (if n2 \<noteq> nil then [Unlock n2] else []))"

section \<open>What is locked, and in which order\<close>

lemma sort_insert_insort: "sort_insert nodeLess x ys = insort x ys"
  by (induction ys) (auto simp: nodeLess_def)

lemma sortNodes_sort: "sortNodes ns = sort ns"
  by (induction ns) (simp_all add: sortNodes_def sort_insert_insort)

text \<open>The mutexes of a group: each of its inodes once, by address.\<close>

definition group :: "addr list \<Rightarrow> addr list" where
  "group ns = sorted_list_of_set (set ns - {nil})"

lemma each_once_spec:
  "sorted ns \<Longrightarrow> \<forall>n \<in> set ns. nprev \<le> n \<Longrightarrow>
    each_once ev nprev ns = map ev (sorted_list_of_set (set ns - {nprev}))"
proof (induction ns arbitrary: nprev)
  case (Cons n ns)
  have s: "sorted ns" "\<forall>m \<in> set ns. n \<le> m" using Cons.prems(1) by simp_all
  show ?case
  proof (cases "n = nprev")
    case True
    then show ?thesis using Cons.IH[OF s] by simp
  next
    case False
    then have "nprev \<notin> set ns" using Cons.prems s(2) by force
    then have "set (n # ns) - {nprev} = insert n (set ns - {n})" using False by auto
    moreover have "sorted_list_of_set (insert n (set ns - {n})) = n # sorted_list_of_set (set ns - {n})"
      using s(2) by (simp add: insort_is_Cons)
    ultimately show ?thesis using Cons.IH[OF s] False by simp
  qed
qed simp

lemma lockNodes_group: "lockNodes ns = map Lock (group ns)"
  by (simp add: lockNodes_def sortNodes_sort each_once_spec group_def)

lemma unlockNodes_group: "unlockNodes ns = map Unlock (group ns)"
  by (simp add: unlockNodes_def sortNodes_sort each_once_spec group_def)

lemma group_props: "sorted_wrt (<) (group ns)" "set (group ns) = set ns - {nil}" "distinct (group ns)"
  by (simp_all add: group_def)

lemma group2:
  "group [a, b] = (if a = b then (if a \<noteq> nil then [a] else [])
     else if a < b then (if a \<noteq> nil then [a] else []) @ (if b \<noteq> nil then [b] else [])
     else (if b \<noteq> nil then [b] else []) @ (if a \<noteq> nil then [a] else []))"
proof -
  have "sorted_list_of_set {a, b} = (if a = b then [a] else if a < b then [a, b] else [b, a])"
    by (auto simp: insort_is_Cons)
  moreover have "set [a, b] - {nil} = (if a = nil then (if b = nil then {} else {b}) else if b = nil then {a} else {a, b})"
    by auto
  ultimately show ?thesis by (auto simp: group_def)
qed

lemma lockNode2_group: "lockNode2 a b = map Lock (group [a, b])"
  by (simp add: lockNode2_def nodeLess_def group2)

lemma unlockNode2_group: "mset (unlockNode2 a b) = mset (map Unlock (group [a, b]))"
  by (simp add: unlockNode2_def group2)

section \<open>Theorems on locks\<close>

text \<open>
  \<open>lockNodes\<close> takes the lock of every inode of its list once, in ascending order whatever the order of
  the list and however often an inode occurs in it, and \<open>unlockNodes\<close> gives back the same locks.
\<close>

theorem lockNodes_ascending:
  "\<exists>g. lockNodes ns = map Lock g \<and> unlockNodes ns = map Unlock g \<and> sorted_wrt (<) g \<and> set g = set ns - {nil}"
  using group_props[of ns] lockNodes_group unlockNodes_group by blast

text \<open>For two inodes \<open>lockNode2\<close> takes the locks \<open>lockNodes\<close> would, in the same order, and \<open>unlockNode2\<close> gives them back.\<close>

theorem lockNode2_lockNodes:
  "lockNode2 a b = lockNodes [a, b] \<and> mset (unlockNode2 a b) = mset (unlockNodes [a, b])"
  by (simp add: lockNode2_group lockNodes_group unlockNode2_group unlockNodes_group)

text \<open>
  C29: Calls of \<open>lockNodes\<close> that run at the same time do not block each other for good. However far each has
  come, one of them has all its locks, or the next lock of one of them is not held by another.
\<close>

theorem lockNodes_no_deadlock:
  assumes "finite T" "T \<noteq> {}" "\<And>t. t \<in> T \<Longrightarrow> k t \<le> length (lockNodes (ns t))"
  shows "(\<exists>t \<in> T. k t = length (lockNodes (ns t))) \<or>
    (\<exists>t \<in> T. \<forall>u \<in> T. u \<noteq> t \<longrightarrow> lockNodes (ns t) ! k t \<notin> set (take (k u) (lockNodes (ns u))))"
proof (rule disjCI)
  let ?g = "\<lambda>t. group (ns t)"
  define held where "held = (\<Union>u \<in> T. set (take (k u) (?g u)))"
  assume "\<not> (\<exists>t \<in> T. \<forall>u \<in> T. u \<noteq> t \<longrightarrow> lockNodes (ns t) ! k t \<notin> set (take (k u) (lockNodes (ns u))))"
  then have blocked: "\<exists>u \<in> T. lockNodes (ns t) ! k t \<in> set (take (k u) (lockNodes (ns u)))" if "t \<in> T" for t
    using that by blast
  show "\<exists>t \<in> T. k t = length (lockNodes (ns t))"
  proof (rule ccontr)
    assume "\<not> ?thesis"
    with assms(3) have lt: "k t < length (?g t)" if "t \<in> T" for t
      using that by (metis le_neq_implies_less length_map lockNodes_group)
    have next_held: "?g t ! k t \<in> held" if "t \<in> T" for t
      using blocked[OF that] lt[OF that] by (auto simp: held_def lockNodes_group take_map)
    have fin: "finite held" using assms(1) by (simp add: held_def)
    have ne: "held \<noteq> {}" using assms(2) next_held by blast
    then obtain t where t: "t \<in> T" "Max held \<in> set (take (k t) (?g t))"
      using Max_in[OF fin] by (auto simp: held_def)
    obtain i where i: "i < k t" "?g t ! i = Max held" using t(2) by (auto simp: in_set_conv_nth)
    have "Max held < ?g t ! k t"
      using sorted_wrt_nth_less[OF group_props(1) i(1) lt[OF t(1)]] i(2) by simp
    with Max_ge[OF fin next_held[OF t(1)]] show False by simp
  qed
qed

theorem lockNodes_no_deadlock_witness:
  "(\<exists>t \<in> {0, 1}. (1 :: nat) = length (lockNodes ([[3, 5], [5, 3, 5]] ! t))) \<or>
    (\<exists>t \<in> {0, 1}. \<forall>u \<in> {0, 1 :: nat}. u \<noteq> t \<longrightarrow>
      lockNodes ([[3, 5], [5, 3, 5]] ! t) ! t \<notin> set (take u (lockNodes ([[3, 5], [5, 3, 5]] ! u))))"
proof -
  have "u \<in> {0, 1} \<Longrightarrow> u \<le> length (lockNodes ([[3, 5], [5, 3, 5]] ! u))" for u :: nat
    by (elim insertE) (simp_all add: lockNodes_group group_def insort_is_Cons)
  from lockNodes_no_deadlock[OF _ _ this, of "{0, 1}"] show ?thesis by auto
qed

end
