(* ===== verification/Footprints.thy ===== *)
theory Footprints
  imports Interleaving_Theorems Locks
begin

text \<open>
  Why a section can be taken to run in one step: it reads and writes only what it has the locks for. The
  locks of a section are those the code takes before it; a section that makes an inode has its lock
  as well, and \<open>b.mu\<close> is the lock of the table. Sections that hold different locks at the same time
  do not see each other.
\<close>

section \<open>The locks of a section\<close>

text \<open>
  The last \<open>lockNodes\<close>, \<open>lockNode2\<close> or \<open>Lock\<close> before the section; between the two sections that \<open>removeRef\<close> starts
  with the lock of the inode is kept.
\<close>

primrec section_locks :: "task \<Rightarrow> lock_event list" where
  "section_locks (Add parent name i dir c) = lockNode2 parent c"
| "section_locks (Ref n nlookup) = [Lock n]"
| "section_locks (RefRead n) = [Lock n]"
| "section_locks (RefLock n rv pes) = lockNodes (n # map pe_node pes)"
| "section_locks (Rm parent name) = [Lock parent]"
| "section_locks (RmLock parent name rv c) = lockNode2 parent c"
| "section_locks (Mv parent name newParent newName ow) = lockNode2 parent newParent"
| "section_locks (MvLock parent name newParent newName ow rv nRev c destChild) =
     lockNodes [parent, newParent, c, destChild]"

definition locked :: "task \<Rightarrow> addr set" where
  "locked t = {a. Lock a \<in> set (section_locks t)}"

text \<open>The sections that take \<open>b.mu\<close>, the second one only for an inode that is not live.\<close>

primrec takes_mu :: "task \<Rightarrow> bool" where
  "takes_mu (Add parent name i dir c) \<longleftrightarrow> True"
| "takes_mu (Ref n nlookup) \<longleftrightarrow> True"
| "takes_mu (RefRead n) \<longleftrightarrow> False"
| "takes_mu (RefLock n rv pes) \<longleftrightarrow> False"
| "takes_mu (Rm parent name) \<longleftrightarrow> False"
| "takes_mu (RmLock parent name rv c) \<longleftrightarrow> False"
| "takes_mu (Mv parent name newParent newName ow) \<longleftrightarrow> False"
| "takes_mu (MvLock parent name newParent newName ow rv nRev c destChild) \<longleftrightarrow> False"

text \<open>No pointer the section follows is nil.\<close>

primrec no_nil :: "task \<Rightarrow> bool" where
  "no_nil (Add parent name i dir c) \<longleftrightarrow> parent \<noteq> nil"
| "no_nil (Ref n nlookup) \<longleftrightarrow> n \<noteq> nil"
| "no_nil (RefRead n) \<longleftrightarrow> n \<noteq> nil"
| "no_nil (RefLock n rv pes) \<longleftrightarrow> n \<noteq> nil \<and> nil \<notin> pe_node ` set pes"
| "no_nil (Rm parent name) \<longleftrightarrow> parent \<noteq> nil"
| "no_nil (RmLock parent name rv c) \<longleftrightarrow> parent \<noteq> nil \<and> c \<noteq> nil"
| "no_nil (Mv parent name newParent newName ow) \<longleftrightarrow> parent \<noteq> nil \<and> newParent \<noteq> nil"
| "no_nil (MvLock parent name newParent newName ow rv nRev c destChild) \<longleftrightarrow> parent \<noteq> nil \<and> newParent \<noteq> nil"

lemma lock_sets:
  "{a. Lock a \<in> set (lockNodes ns)} = set ns - {nil}" "{a. Lock a \<in> set (lockNode2 m n)} = {m, n} - {nil}"
  by (auto simp: lockNodes_group lockNode2_group group_props(2))

lemma locked_simps [simp]:
  "locked (Add parent name i dir c) = {parent, c} - {nil}"
  "locked (Ref n nlookup) = {n}"
  "locked (RefRead n) = {n}"
  "locked (RefLock n rv pes) = insert n (pe_node ` set pes) - {nil}"
  "locked (Rm parent name) = {parent}"
  "locked (RmLock parent name rv c) = {parent, c} - {nil}"
  "locked (Mv parent name newParent newName ow) = {parent, newParent} - {nil}"
  "locked (MvLock parent name newParent newName ow rv nRev c destChild) = {parent, newParent, c, destChild} - {nil}"
  by (simp_all add: locked_def lock_sets)

section \<open>States that agree on what is locked\<close>

text \<open>
  The clock and the next address stand for \<open>time.Now\<close> and the allocator.
\<close>

definition agree :: "addr set \<Rightarrow> bool \<Rightarrow> rawBridge \<Rightarrow> rawBridge \<Rightarrow> bool" where
  "agree A mu b1 b2 \<longleftrightarrow> (\<forall>a \<in> A. heap b1 a = heap b2 a) \<and>
     (mu \<longrightarrow> nodes b1 = nodes b2 \<and> nodeCountHigh b1 = nodeCountHigh b2) \<and>
     hnext b1 = hnext b2 \<and> clock b1 = clock b2"

definition untouched :: "addr set \<Rightarrow> bool \<Rightarrow> rawBridge \<Rightarrow> rawBridge \<Rightarrow> bool" where
  "untouched A mu b c \<longleftrightarrow> (\<forall>a. a \<notin> A \<longrightarrow> heap c a = heap b a) \<and>
     (\<not> mu \<longrightarrow> nodes c = nodes b \<and> nodeCountHigh c = nodeCountHigh b) \<and>
     root c = root b \<and> options c = options b \<and> files c = files b \<and> freeFiles c = freeFiles b \<and>
     rands c = rands b \<and> randpos c = randpos b \<and> logs c = logs b"

lemma untouched_trans: "untouched A mu b c \<Longrightarrow> untouched A mu c d \<Longrightarrow> untouched A mu b d"
  by (simp add: untouched_def)

lemma untouched_refl: "untouched A mu b b"
  by (simp add: untouched_def)

text \<open>What runs on the inodes of \<open>A\<close>, and makes none.\<close>

definition runs_on :: "addr set \<Rightarrow> bool \<Rightarrow> (rawBridge, 'a) M \<Rightarrow> bool" where
  "runs_on A mu m \<longleftrightarrow> (\<forall>b1 b2. agree A mu b1 b2 \<longrightarrow>
     (case m b1 of
        Inl e \<Rightarrow> m b2 = Inl e
      | Inr (x, c1) \<Rightarrow> hnext c1 = hnext b1 \<and> untouched A mu b1 c1 \<and> (\<exists>c2. m b2 = Inr (x, c2) \<and> agree A mu c1 c2)))"

named_theorems footprint \<open>sections run on the inodes they have locked\<close>

lemma on_ret [footprint]: "runs_on A mu (ret x)"
  by (simp add: runs_on_def ret_def untouched_refl)

lemma on_fail [footprint]: "runs_on A mu (fail e)"
  by (simp add: runs_on_def fail_def)

lemma on_gets: "(\<And>b1 b2. agree A mu b1 b2 \<Longrightarrow> g b1 = g b2) \<Longrightarrow> runs_on A mu (getsM g)"
  by (simp add: runs_on_def getsM_def untouched_refl)

lemma on_modify:
  "(\<And>b. hnext (f b) = hnext b \<and> untouched A mu b (f b)) \<Longrightarrow> (\<And>b1 b2. agree A mu b1 b2 \<Longrightarrow> agree A mu (f b1) (f b2)) \<Longrightarrow>
    runs_on A mu (modifyM f)"
  by (simp add: runs_on_def modifyM_def)

lemma runs_onD:
  assumes "runs_on A mu m" "agree A mu b1 b2"
  shows "m b1 = Inl e \<Longrightarrow> m b2 = Inl e"
    and "m b1 = Inr (x, c1) \<Longrightarrow> hnext c1 = hnext b1 \<and> untouched A mu b1 c1 \<and> (\<exists>c2. m b2 = Inr (x, c2) \<and> agree A mu c1 c2)"
  using assms unfolding runs_on_def by fastforce+

lemma runs_onI:
  assumes "\<And>b1 b2 e. agree A mu b1 b2 \<Longrightarrow> m b1 = Inl e \<Longrightarrow> m b2 = Inl e"
    and "\<And>b1 b2 x c1. agree A mu b1 b2 \<Longrightarrow> m b1 = Inr (x, c1) \<Longrightarrow>
      hnext c1 = hnext b1 \<and> untouched A mu b1 c1 \<and> (\<exists>c2. m b2 = Inr (x, c2) \<and> agree A mu c1 c2)"
  shows "runs_on A mu m"
  unfolding runs_on_def using assms by (simp split: sum.split prod.split)

lemma on_bind [footprint]:
  assumes "runs_on A mu m" "\<And>x. runs_on A mu (f x)"
  shows "runs_on A mu (bindM m f)"
proof (rule runs_onI)
  fix b1 b2 e assume a: "agree A mu b1 b2" "bindM m f b1 = Inl e"
  from a(2) consider (first) "m b1 = Inl e" | (second) x c1 where "m b1 = Inr (x, c1)" "f x c1 = Inl e"
    unfolding bindM_eq_Inl by blast
  then show "bindM m f b2 = Inl e"
  proof cases
    case first
    then show ?thesis using runs_onD(1)[OF assms(1) a(1)] by (simp add: bindM_Inl)
  next
    case second
    then obtain c2 where "m b2 = Inr (x, c2)" "agree A mu c1 c2" using runs_onD(2)[OF assms(1) a(1)] by blast
    then show ?thesis using runs_onD(1)[OF assms(2)] second(2) by (simp add: bindM_Inr)
  qed
next
  fix b1 b2 y d1 assume a: "agree A mu b1 b2" "bindM m f b1 = Inr (y, d1)"
  then obtain x c1 where x: "m b1 = Inr (x, c1)" "f x c1 = Inr (y, d1)" unfolding bindM_eq_Inr by blast
  from runs_onD(2)[OF assms(1) a(1) x(1)] obtain c2 where
    c: "hnext c1 = hnext b1" "untouched A mu b1 c1" "m b2 = Inr (x, c2)" "agree A mu c1 c2" by blast
  from runs_onD(2)[OF assms(2) c(4) x(2)] obtain d2 where
    d: "hnext d1 = hnext c1" "untouched A mu c1 d1" "f x c2 = Inr (y, d2)" "agree A mu d1 d2" by blast
  then show "hnext d1 = hnext b1 \<and> untouched A mu b1 d1 \<and> (\<exists>d2. bindM m f b2 = Inr (y, d2) \<and> agree A mu d1 d2)"
    using c untouched_trans by (auto simp: bindM_Inr)
qed

lemma on_if [footprint]: "runs_on A mu m \<Longrightarrow> runs_on A mu m' \<Longrightarrow> runs_on A mu (if c then m else m')"
  by simp

lemma on_split [footprint]: "(\<And>x y. runs_on A mu (f x y)) \<Longrightarrow> runs_on A mu (case p of (x, y) \<Rightarrow> f x y)"
  by (cases p) simp

lemma on_forM: "(\<And>x. x \<in> set xs \<Longrightarrow> runs_on A mu (f x)) \<Longrightarrow> runs_on A mu (forM xs f)"
  by (induction xs) (simp_all add: on_ret on_bind)

lemma on_heap [footprint]: "a \<in> A \<Longrightarrow> runs_on A mu (getsM (\<lambda>b. F (heap b a)))"
  by (rule on_gets) (simp add: agree_def)

lemma on_upd [footprint]: "a \<in> A \<Longrightarrow> runs_on A mu (modifyM (upd a f))"
  by (rule on_modify) (auto simp: agree_def untouched_def)

lemma on_now [footprint]: "runs_on A mu now"
  unfolding now_def by (intro on_bind on_ret on_gets on_modify) (auto simp: agree_def untouched_def)

lemma on_unlink: "pe_node pe \<in> A \<Longrightarrow> runs_on A mu (modifyM (unlink_st n pe))"
  by (rule on_modify) (auto simp: agree_def untouched_def unlink_st_def)

lemma on_parts [footprint]:
  "c \<in> A \<Longrightarrow> runs_on A mu (bumpM c)" "c \<in> A \<Longrightarrow> runs_on A mu (del_parent c e)"
  "c \<in> A \<Longrightarrow> runs_on A mu (add_parent c e)" "p \<in> A \<Longrightarrow> runs_on A mu (set_child p name c)"
  unfolding bumpM_def del_parent_def add_parent_def set_child_def
  by (auto intro!: footprint split: option.split)

section \<open>Every section\<close>

lemma ref_sections_on:
  "n \<in> A \<Longrightarrow> runs_on A True (ref_section n nlookup)" "n \<in> A \<Longrightarrow> runs_on A mu (ref_read n)"
proof -
  show r: "runs_on A mu (ref_read n)" if "n \<in> A" for mu
    unfolding ref_read_def by (intro footprint that)
  have "runs_on A True (modifyM (\<lambda>b. b\<lparr>nodes := AList.delete (ino (heap b n)) (nodes b)\<rparr>))" if "n \<in> A"
    using that by (intro on_modify) (auto simp: agree_def untouched_def)
  then show "runs_on A True (ref_section n nlookup)" if "n \<in> A"
    unfolding ref_section_def ref_start_def using that by (intro footprint r)
qed

lemma reflock_section_on:
  assumes "n \<in> A" "pe_node ` set pes \<subseteq> A"
  shows "runs_on A mu (reflock_section n rv pes)"
proof -
  have "runs_on A mu (forM pes (\<lambda>pe. modifyM (unlink_st n pe)))"
    by (intro on_forM on_unlink) (use assms(2) in blast)
  then show ?thesis
    unfolding reflock_section_def ref_commit_def using assms(1) by (intro footprint)
qed

lemma rm_sections_on:
  "p \<in> A \<Longrightarrow> runs_on A mu (rm_section p name)"
  "p \<in> A \<Longrightarrow> c \<in> A \<Longrightarrow> runs_on A mu (rmlock_section p name rv c)"
  unfolding rm_section_def rmlock_section_def rm_commit_def by (intro footprint; assumption)+

lemma mv_sections_on:
  assumes "p \<in> A" "q \<in> A"
  shows "runs_on A mu (mv_section p name q name' ow)"
    and "c \<in> insert nil A \<Longrightarrow> d \<in> insert nil A \<Longrightarrow> runs_on A mu (mvlock_section p name q name' ow rv nRev c d)"
proof -
  have r: "runs_on A mu (getsM (\<lambda>b. (revision (heap b p), revision (heap b q))))"
    by (rule on_gets) (use assms in \<open>simp add: agree_def\<close>)
  then show "runs_on A mu (mv_section p name q name' ow)"
    unfolding mv_section_def using assms by (intro footprint)
  have i: "runs_on A mu (if c \<noteq> nil then m else ret ())" if "c \<in> A \<Longrightarrow> runs_on A mu m" "c \<in> insert nil A"
    for c and m :: "(rawBridge, unit) M"
    using that by (auto intro: on_ret)
  show "runs_on A mu (mvlock_section p name q name' ow rv nRev c d)" if "c \<in> insert nil A" "d \<in> insert nil A"
    unfolding mvlock_section_def mv_commit_def using assms that by (intro footprint r i)
qed

lemma section_on:
  assumes "no_nil t" "\<And>p name i dir c. t \<noteq> Add p name i dir c"
  shows "runs_on (locked t) (takes_mu t) (run_task t)"
proof (cases t)
  case (Add p name i dir c)
  with assms(2) show ?thesis by blast
qed (use assms(1) in \<open>auto intro!: ref_sections_on reflock_section_on rm_sections_on mv_sections_on\<close>)

text \<open>\<open>addChild\<close>: what it does with the inode it has found or made.\<close>

definition add_enter :: "addr \<Rightarrow> string \<Rightarrow> u64 \<Rightarrow> addr \<Rightarrow> (rawBridge, addr) M" where
  "add_enter p name i c =
    bindM (modifyM (upd c (\<lambda>n. n\<lparr>lookupCount := lookupCount n + 1\<rparr>))) (\<lambda>_.
    bindM (bumpM c) (\<lambda>_.
    bindM (modifyM (\<lambda>b. b\<lparr>nodes := AList.update i c (nodes b)\<rparr>)) (\<lambda>_.
    bindM (modifyM (\<lambda>b. if nodeCountHigh b < length (nodes b)
                        then b\<lparr>nodeCountHigh := length (nodes b)\<rparr> else b)) (\<lambda>_.
    bindM (set_child p name c) (\<lambda>_.
    bindM (add_parent c (pent name p)) (\<lambda>_.
    bindM (bumpM p) (\<lambda>_.
    bindM (bumpM c) (\<lambda>_.
    ret c))))))))"

lemma add_enter_on: "p \<in> A \<Longrightarrow> c \<in> A \<Longrightarrow> runs_on A True (add_enter p name i c)"
proof -
  have "runs_on A True (modifyM (\<lambda>b. b\<lparr>nodes := AList.update i c (nodes b)\<rparr>))"
    by (rule on_modify) (auto simp: agree_def untouched_def)
  moreover have "runs_on A True (modifyM (\<lambda>b. if nodeCountHigh b < length (nodes b)
      then b\<lparr>nodeCountHigh := length (nodes b)\<rparr> else b))"
    by (rule on_modify) (auto simp: agree_def untouched_def)
  ultimately show "runs_on A True (add_enter p name i c)" if "p \<in> A" "c \<in> A"
    unfolding add_enter_def using that by (intro footprint)
qed

lemma add_section_enter:
  "add_section p name i dir c =
    (if name = ''.'' \<or> name = ''..'' then fail (Panic_virtual_entry name)
     else bindM (getsM (\<lambda>b. go_get (nodes b) i)) (\<lambda>old.
       if old \<noteq> c then ret [Add p name i dir old]
       else bindM (if c = nil then newInode i dir else ret c) (\<lambda>c. bindM (add_enter p name i c) (\<lambda>_. ret []))))"
  by (rule ext) (simp add: add_section_def add_commit_def add_enter_def bindM_assoc monad_simps)

lemma known_section_on:
  assumes "p \<noteq> nil" "c \<noteq> nil"
  shows "runs_on ({p, c} - {nil}) True (add_section p name i dir c)"
proof -
  have "runs_on ({p, c} - {nil}) True (getsM (\<lambda>b. go_get (nodes b) i))"
    by (rule on_gets) (simp add: agree_def)
  moreover have "add_section p name i dir c =
    (if name = ''.'' \<or> name = ''..'' then fail (Panic_virtual_entry name)
     else bindM (getsM (\<lambda>b. go_get (nodes b) i)) (\<lambda>old.
       if old \<noteq> c then ret [Add p name i dir old] else bindM (add_enter p name i c) (\<lambda>_. ret [])))"
    using assms(2) by (simp add: add_section_enter bindM_ret cong: if_cong)
  ultimately show ?thesis
    using assms by (simp only:) (intro footprint add_enter_on; simp)
qed

text \<open>What a section makes is its own as well: the addresses from the next one before it to the next one after it.\<close>

definition stays_within :: "addr set \<Rightarrow> bool \<Rightarrow> (rawBridge, 'a) M \<Rightarrow> rawBridge \<Rightarrow> rawBridge \<Rightarrow> bool" where
  "stays_within A mu m b1 b2 \<longleftrightarrow>
     (case m b1 of
        Inl e \<Rightarrow> m b2 = Inl e
      | Inr (x, c1) \<Rightarrow> untouched (A \<union> {hnext b1..<hnext c1}) mu b1 c1 \<and>
          (\<exists>c2. m b2 = Inr (x, c2) \<and> agree (A \<union> {hnext b1..<hnext c1}) mu c1 c2))"

lemma runs_on_stays: "runs_on A mu m \<Longrightarrow> agree A mu b1 b2 \<Longrightarrow> stays_within A mu m b1 b2"
  unfolding runs_on_def stays_within_def by (fastforce split: sum.splits)

lemma new_section_stays:
  assumes "p \<noteq> nil" "agree {p} True b1 b2"
  shows "stays_within {p} True (add_section p name i dir nil) b1 b2"
proof -
  let ?n = "fresh_inode i dir" and ?a = "hnext b1"
  have h: "hnext b2 = ?a" "nodes b2 = nodes b1" using assms(2) by (simp_all add: agree_def)
  have a: "agree {p, ?a} True (alloc_st ?n b1) (alloc_st ?n b2)"
    using assms(2) by (auto simp: agree_def alloc_st_def)
  have on: "runs_on {p, ?a} True (bindM (add_enter p name i ?a) (\<lambda>_. ret ([] :: task list)))"
    by (intro footprint add_enter_on) simp_all
  have u: "untouched {p, ?a} True b1 (alloc_st ?n b1)" by (auto simp: untouched_def alloc_st_def)
  have e: "add_section p name i dir nil b =
      (if name = ''.'' \<or> name = ''..'' then Inl (Panic_virtual_entry name)
       else if go_get (nodes b) i \<noteq> nil then Inr ([Add p name i dir (go_get (nodes b) i)], b)
       else if i = NOT 0 then Inl Panic_reserved_ino
       else bindM (add_enter p name i (hnext b)) (\<lambda>_. ret []) (alloc_st ?n b))" for b
    by (simp add: add_section_enter newInode_def alloc_st_def fresh_inode_def inode_zero_def Let_def monad_simps)
  consider (virtual) "name = ''.'' \<or> name = ''..''" | (known) "go_get (nodes b1) i \<noteq> nil" | (reserved) "i = NOT 0"
    | (new) "\<not> (name = ''.'' \<or> name = ''..'')" "go_get (nodes b1) i = nil" "i \<noteq> NOT 0" by blast
  then show ?thesis
  proof cases
    case new
    let ?m = "bindM (add_enter p name i ?a) (\<lambda>_. ret ([] :: task list))"
    have r: "add_section p name i dir nil b1 = ?m (alloc_st ?n b1)" "add_section p name i dir nil b2 = ?m (alloc_st ?n b2)"
      using new h by (simp_all add: e)
    show ?thesis
    proof (cases "?m (alloc_st ?n b1)")
      case (Inl x)
      with runs_onD(1)[OF on a] r show ?thesis by (simp add: stays_within_def)
    next
      case (Inr xc)
      then obtain x c1 where m: "?m (alloc_st ?n b1) = Inr (x, c1)" by (cases xc) simp
      note d = runs_onD(2)[OF on a m]
      then have "hnext c1 = Suc ?a" by (simp add: alloc_st_def)
      then have "{p} \<union> {?a..<hnext c1} = {p, ?a}" by auto
      moreover have "untouched {p, ?a} True b1 c1" using d untouched_trans[OF u] by blast
      ultimately show ?thesis using d m r by (simp add: stays_within_def)
    qed
  qed (unfold stays_within_def e, use assms(2) h in \<open>auto simp: untouched_refl\<close>)
qed

text \<open>
  C16: A section of a call reads and writes the inodes it has locked, and those it makes, and nothing else of the
  heap; the table only when it takes \<open>b.mu\<close>. In two states that agree there, and differ in any way
  elsewhere, it does the same: it panics in both, or goes on with the same sections and leaves states that agree there.
\<close>

theorem sections_local:
  assumes "no_nil t" "agree (locked t) (takes_mu t) b1 b2"
  shows "case run_task t b1 of
      Inl e \<Rightarrow> run_task t b2 = Inl e
    | Inr (new, c1) \<Rightarrow> untouched (locked t \<union> {hnext b1..<hnext c1}) (takes_mu t) b1 c1 \<and>
        (\<exists>c2. run_task t b2 = Inr (new, c2) \<and> agree (locked t \<union> {hnext b1..<hnext c1}) (takes_mu t) c1 c2)"
proof -
  have "stays_within (locked t) (takes_mu t) (run_task t) b1 b2"
  proof (cases "\<exists>p name i dir. t = Add p name i dir nil")
    case True
    then obtain p name i dir where t: "t = Add p name i dir nil" by blast
    with assms new_section_stays[of p b1 b2 name i dir] show ?thesis by (simp add: insert_Diff_if)
  next
    case False
    have "runs_on (locked t) (takes_mu t) (run_task t)"
    proof (cases "\<exists>p name i dir c. t = Add p name i dir c")
      case True
      with False assms(1) show ?thesis using known_section_on by auto
    qed (use section_on[OF assms(1)] in blast)
    then show ?thesis by (rule runs_on_stays[OF _ assms(2)])
  qed
  then show ?thesis by (simp add: stays_within_def)
qed

text \<open>
  The entry \<open>x\<close> is taken out of the directory \<open>d\<close> (inode 2), with the locks of both, in the third state and in one in which the
  root has another revision and the table is empty.
\<close>

theorem sections_local_witness:
  "\<exists>new c2. run_task (RmLock 2 ''x'' 3 3) ((upd 1 bump ex2)\<lparr>nodes := []\<rparr>) = Inr (new, c2) \<and> edge c2 2 ''x'' = nil"
proof -
  let ?t = "RmLock 2 ''x'' 3 3" and ?b = "(upd 1 bump ex2)\<lparr>nodes := []\<rparr>"
  have "case run_task ?t ex2 of Inr (new, c1) \<Rightarrow> edge c1 2 ''x'' = nil | Inl _ \<Rightarrow> False" by code_simp
  then obtain new c1 where c1: "run_task ?t ex2 = Inr (new, c1)" "edge c1 2 ''x'' = nil"
    by (auto split: sum.splits prod.splits)
  have n: "no_nil ?t" by simp
  have a: "agree (locked ?t) (takes_mu ?t) ex2 ?b" by (simp add: agree_def)
  obtain c2 where c2: "run_task ?t ?b = Inr (new, c2)" "agree (locked ?t \<union> {hnext ex2..<hnext c1}) (takes_mu ?t) c1 c2"
    using sections_local[OF n a, unfolded c1(1) sum.case prod.case] by blast
  then have "heap c2 2 = heap c1 2" by (auto simp: agree_def)
  with c1(2) c2(1) show ?thesis by (auto simp: edge_def)
qed

end
