(* ===== verification/Syscalls.thy ===== *)
theory Syscalls
  imports Bridge
begin

text \<open>
  Extended attributes and times by system calls (\<open>syscall.go\<close>, \<open>syscall_linux.go\<close>,
  \<open>syscall_darwin.go\<close>). The kernel is a parameter: a record of functions over its state.
  A raw call that fails answers an error number that is not 0. The functions of the Go
  package \<open>syscall\<close> that the Linux file calls are modelled too: they check their strings
  for zero bytes and make the raw call.
\<close>

section \<open>The kernel\<close>

text \<open>\<open>Timeval\<close>; its fields are 64 bits wide on Linux, \<open>tv_Usec\<close> has 32 bits on Darwin.\<close>

record Timeval =
  tv_Sec :: int
  tv_Usec :: int

type_synonym errno = nat

abbreviation EINVAL :: errno where "EINVAL \<equiv> 22"
abbreviation E_RANGE :: errno where "E_RANGE \<equiv> 34"

text \<open>
  The calls that read take the size of the buffer, and answer a size, what they put at the
  start of the buffer, and an error number.
\<close>

record 'k kernel =
  sys_getxattr :: "bytes \<Rightarrow> bytes \<Rightarrow> nat \<Rightarrow> 'k \<Rightarrow> (int \<times> bytes \<times> errno) \<times> 'k"
  sys_listxattr :: "bytes \<Rightarrow> nat \<Rightarrow> 'k \<Rightarrow> (int \<times> bytes \<times> errno) \<times> 'k"
  sys_setxattr :: "bytes \<Rightarrow> bytes \<Rightarrow> bytes \<Rightarrow> int \<Rightarrow> 'k \<Rightarrow> errno \<times> 'k"
  sys_removexattr :: "bytes \<Rightarrow> bytes \<Rightarrow> 'k \<Rightarrow> errno \<times> 'k"
  sys_utimes :: "string \<Rightarrow> Timeval list \<Rightarrow> 'k \<Rightarrow> errno \<times> 'k"
  sys_futimes :: "int \<Rightarrow> Timeval list \<Rightarrow> 'k \<Rightarrow> errno \<times> 'k"

definition sysM :: "('k \<Rightarrow> 'a \<times> 'k) \<Rightarrow> ('k, 'a) M" where
  "sysM f k = Inr (f k)"

text \<open>An error is nil (None) or an error number.\<close>

definition err_of :: "errno \<Rightarrow> errno option" where
  "err_of e = (if e \<noteq> 0 then Some e else None)"

definition BytePtrFromString :: "string \<Rightarrow> errno + bytes" where
  "BytePtrFromString s = (if CHR 0x00 \<in> set s then Inl EINVAL else Inr s)"

section \<open>The package syscall\<close>

definition Getxattr :: "'k kernel \<Rightarrow> string \<Rightarrow> string \<Rightarrow> bytes \<Rightarrow> ('k, int \<times> errno option \<times> bytes) M" where
  "Getxattr K path attr dest =
    (case BytePtrFromString path of
       Inl e \<Rightarrow> ret (0, Some e, dest)
     | Inr p0 \<Rightarrow>
         case BytePtrFromString attr of
           Inl e \<Rightarrow> ret (0, Some e, dest)
         | Inr p1 \<Rightarrow>
             bindM (sysM (sys_getxattr K p0 p1 (length dest))) (\<lambda>(r0, w, e1).
             ret (r0, err_of e1, copy_into dest w)))"

definition Listxattr :: "'k kernel \<Rightarrow> string \<Rightarrow> bytes \<Rightarrow> ('k, int \<times> errno option \<times> bytes) M" where
  "Listxattr K path dest =
    (case BytePtrFromString path of
       Inl e \<Rightarrow> ret (0, Some e, dest)
     | Inr p0 \<Rightarrow>
         bindM (sysM (sys_listxattr K p0 (length dest))) (\<lambda>(r0, w, e1).
         ret (r0, err_of e1, copy_into dest w)))"

definition Setxattr :: "'k kernel \<Rightarrow> string \<Rightarrow> string \<Rightarrow> bytes \<Rightarrow> int \<Rightarrow> ('k, errno option) M" where
  "Setxattr K path attr data flags =
    (case BytePtrFromString path of
       Inl e \<Rightarrow> ret (Some e)
     | Inr p0 \<Rightarrow>
         case BytePtrFromString attr of
           Inl e \<Rightarrow> ret (Some e)
         | Inr p1 \<Rightarrow> bindM (sysM (sys_setxattr K p0 p1 data flags)) (\<lambda>e1. ret (err_of e1)))"

definition Removexattr :: "'k kernel \<Rightarrow> string \<Rightarrow> string \<Rightarrow> ('k, errno option) M" where
  "Removexattr K path attr =
    (case BytePtrFromString path of
       Inl e \<Rightarrow> ret (Some e)
     | Inr p0 \<Rightarrow>
         case BytePtrFromString attr of
           Inl e \<Rightarrow> ret (Some e)
         | Inr p1 \<Rightarrow> bindM (sysM (sys_removexattr K p0 p1)) (\<lambda>e1. ret (err_of e1)))"

section \<open>Linux\<close>

definition linux_getXAttrSyscall ::
  "'k kernel \<Rightarrow> string \<Rightarrow> string \<Rightarrow> bytes \<Rightarrow> ('k, int \<times> errno option \<times> bytes) M" where
  "linux_getXAttrSyscall K path attr dest = Getxattr K path attr dest"

definition linux_listXAttrSyscall ::
  "'k kernel \<Rightarrow> string \<Rightarrow> bytes \<Rightarrow> ('k, int \<times> errno option \<times> bytes) M" where
  "linux_listXAttrSyscall K path dest = Listxattr K path dest"

definition linux_setXAttr :: "'k kernel \<Rightarrow> string \<Rightarrow> string \<Rightarrow> bytes \<Rightarrow> int \<Rightarrow> ('k, errno option) M" where
  "linux_setXAttr K path attr data flags = Setxattr K path attr data flags"

definition linux_removeXAttr :: "'k kernel \<Rightarrow> string \<Rightarrow> string \<Rightarrow> ('k, errno option) M" where
  "linux_removeXAttr K path attr = Removexattr K path attr"

section \<open>Darwin\<close>

text \<open>
  \<open>getXAttrSyscall\<close> gives the raw call a nil pointer for an empty buffer, \<open>listXAttrSyscall\<close>
  a pointer to a zero; the kernel is told size 0 in both cases and writes nothing.
\<close>

definition darwin_getXAttrSyscall ::
  "'k kernel \<Rightarrow> string \<Rightarrow> string \<Rightarrow> bytes \<Rightarrow> ('k, int \<times> errno option \<times> bytes) M" where
  "darwin_getXAttrSyscall K path attr dest =
    (case BytePtrFromString path of
       Inl e \<Rightarrow> ret (0, Some e, dest)
     | Inr pathBs \<Rightarrow>
         case BytePtrFromString attr of
           Inl e \<Rightarrow> ret (0, Some e, dest)
         | Inr attrBs \<Rightarrow>
             bindM (sysM (sys_getxattr K pathBs attrBs (length dest))) (\<lambda>(size, w, errNo).
             ret (size, if errNo \<noteq> 0 then Some errNo else None, copy_into dest w)))"

definition darwin_listXAttrSyscall ::
  "'k kernel \<Rightarrow> string \<Rightarrow> bytes \<Rightarrow> ('k, int \<times> errno option \<times> bytes) M" where
  "darwin_listXAttrSyscall K path dest =
    (case BytePtrFromString path of
       Inl e \<Rightarrow> ret (0, Some e, dest)
     | Inr pathbs \<Rightarrow>
         bindM (sysM (sys_listxattr K pathbs (length dest))) (\<lambda>(size, w, errNo).
         ret (size, if errNo \<noteq> 0 then Some errNo else None, copy_into dest w)))"

text \<open>\<open>&data[0]\<close> panics for a value of no bytes.\<close>

definition darwin_setXAttr :: "'k kernel \<Rightarrow> string \<Rightarrow> string \<Rightarrow> bytes \<Rightarrow> int \<Rightarrow> ('k, errno option) M" where
  "darwin_setXAttr K path attr data flags =
    (case BytePtrFromString path of
       Inl e \<Rightarrow> ret (Some e)
     | Inr pathbs \<Rightarrow>
         case BytePtrFromString attr of
           Inl e \<Rightarrow> ret (Some e)
         | Inr attrbs \<Rightarrow>
             if data = [] then fail Panic_index
             else bindM (sysM (sys_setxattr K pathbs attrbs data flags)) (\<lambda>errNo.
               ret (if errNo \<noteq> 0 then Some errNo else None)))"

definition darwin_removeXAttr :: "'k kernel \<Rightarrow> string \<Rightarrow> string \<Rightarrow> ('k, errno option) M" where
  "darwin_removeXAttr K path attr =
    (case BytePtrFromString path of
       Inl e \<Rightarrow> ret (Some e)
     | Inr pathbs \<Rightarrow>
         case BytePtrFromString attr of
           Inl e \<Rightarrow> ret (Some e)
         | Inr attrbs \<Rightarrow>
             bindM (sysM (sys_removexattr K pathbs attrbs)) (\<lambda>errNo.
             ret (if errNo \<noteq> 0 then Some errNo else None)))"

section \<open>Both platforms\<close>

definition getXAttrSyscall ::
  "goos \<Rightarrow> 'k kernel \<Rightarrow> string \<Rightarrow> string \<Rightarrow> bytes \<Rightarrow> ('k, int \<times> errno option \<times> bytes) M" where
  "getXAttrSyscall os = (case os of Linux \<Rightarrow> linux_getXAttrSyscall | Darwin \<Rightarrow> darwin_getXAttrSyscall)"

definition listXAttrSyscall ::
  "goos \<Rightarrow> 'k kernel \<Rightarrow> string \<Rightarrow> bytes \<Rightarrow> ('k, int \<times> errno option \<times> bytes) M" where
  "listXAttrSyscall os = (case os of Linux \<Rightarrow> linux_listXAttrSyscall | Darwin \<Rightarrow> darwin_listXAttrSyscall)"

text \<open>
  The loop that both functions have: as long as the value does not fit the buffer, another
  call with a buffer of the size the last call answered. It gets its rounds as fuel; two
  are enough (\<open>fetch_loop_ends\<close>).
\<close>

fun fetch_loop ::
  "nat \<Rightarrow> (bytes \<Rightarrow> ('k, int \<times> errno option \<times> bytes) M) \<Rightarrow> int \<Rightarrow> errno option \<Rightarrow> bytes
    \<Rightarrow> ('k, int \<times> errno option \<times> bytes) M" where
  "fetch_loop 0 call sz err dest = fail Diverges"
| "fetch_loop (Suc k) call sz err dest =
     (if int (length dest) < sz \<and> err = None then
        bindM (call (replicate (nat sz) (CHR 0x00))) (\<lambda>(sz, err, dest). fetch_loop k call sz err dest)
      else ret (sz, err, dest))"

text \<open>\<open>bytes.Split\<close> at one byte: an empty slice is split into one empty slice.\<close>

fun bytes_Split :: "char \<Rightarrow> bytes \<Rightarrow> bytes list" where
  "bytes_Split c [] = [[]]"
| "bytes_Split c (x # xs) =
     (if x = c then [] # bytes_Split c xs
      else case bytes_Split c xs of [] \<Rightarrow> [[x]] | p # ps \<Rightarrow> (x # p) # ps)"

text \<open>\<open>dest[:n]\<close>, a panic when \<open>n\<close> is negative or beyond the capacity.\<close>

definition slice_to :: "bytes \<Rightarrow> int \<Rightarrow> ('k, bytes) M" where
  "slice_to dest n = (if n < 0 \<or> int (length dest) < n then fail Panic_slice else ret (take (nat n) dest))"

definition listXAttr :: "nat \<Rightarrow> goos \<Rightarrow> 'k kernel \<Rightarrow> string \<Rightarrow> ('k, string list \<times> errno option) M" where
  "listXAttr rounds os K path =
    bindM (listXAttrSyscall os K path []) (\<lambda>(sz, err, dest).
      if err \<noteq> None then ret ([], err)
      else
        bindM (fetch_loop rounds (listXAttrSyscall os K path) sz err dest) (\<lambda>(sz, err, dest).
          if sz = 0 then ret ([], err)
          else
            bindM (slice_to dest (sz - 1)) (\<lambda>dest.
            ret (bytes_Split (CHR 0x00) dest, None))))"

definition getXAttr :: "nat \<Rightarrow> goos \<Rightarrow> 'k kernel \<Rightarrow> string \<Rightarrow> string \<Rightarrow> ('k, bytes \<times> errno option) M" where
  "getXAttr rounds os K path attr =
    bindM (getXAttrSyscall os K path attr []) (\<lambda>(sz, err, dest).
    bindM (fetch_loop rounds (getXAttrSyscall os K path attr) sz err dest) (\<lambda>(sz, err, dest).
      if err \<noteq> None then ret ([], err)
      else bindM (slice_to dest sz) (\<lambda>value. ret (value, None))))"

section \<open>Times\<close>

text \<open>A \<open>time.Time\<close> by its \<open>Unix\<close> and \<open>Nanosecond\<close>; a pointer to one may be nil.\<close>

record GoTime =
  tm_Unix :: int
  tm_Nanosecond :: int

definition deref :: "GoTime option \<Rightarrow> ('k, GoTime) M" where
  "deref p = (case p of None \<Rightarrow> fail Panic_nil_pointer | Some t \<Rightarrow> ret t)"

definition linux_timevals :: "GoTime option \<Rightarrow> GoTime option \<Rightarrow> ('k, Timeval list) M" where
  "linux_timevals atime mtime =
    bindM (deref atime) (\<lambda>a. bindM (deref mtime) (\<lambda>m.
      ret [\<lparr>tv_Sec = tm_Unix a, tv_Usec = sint (word_of_int (tm_Nanosecond a) :: 64 word)\<rparr>,
           \<lparr>tv_Sec = tm_Unix m, tv_Usec = sint (word_of_int (tm_Nanosecond m) :: 64 word)\<rparr>]))"

definition darwin_timevals :: "GoTime option \<Rightarrow> GoTime option \<Rightarrow> ('k, Timeval list) M" where
  "darwin_timevals atime mtime =
    bindM (deref atime) (\<lambda>a. bindM (deref mtime) (\<lambda>m.
      ret [\<lparr>tv_Sec = tm_Unix a, tv_Usec = sint (word_of_int (tm_Nanosecond a) :: 32 word)\<rparr>,
           \<lparr>tv_Sec = tm_Unix m, tv_Usec = sint (word_of_int (tm_Nanosecond m) :: 32 word)\<rparr>]))"

definition linux_utimes :: "'k kernel \<Rightarrow> string \<Rightarrow> GoTime option \<Rightarrow> GoTime option \<Rightarrow> ('k, errno option) M" where
  "linux_utimes K path atime mtime =
    bindM (linux_timevals atime mtime) (\<lambda>tv. bindM (sysM (sys_utimes K path tv)) (\<lambda>e. ret (err_of e)))"

definition linux_fUtimes :: "'k kernel \<Rightarrow> int \<Rightarrow> GoTime option \<Rightarrow> GoTime option \<Rightarrow> ('k, errno option) M" where
  "linux_fUtimes K fd atime mtime =
    bindM (linux_timevals atime mtime) (\<lambda>tv. bindM (sysM (sys_futimes K fd tv)) (\<lambda>e. ret (err_of e)))"

definition darwin_utimes :: "'k kernel \<Rightarrow> string \<Rightarrow> GoTime option \<Rightarrow> GoTime option \<Rightarrow> ('k, errno option) M" where
  "darwin_utimes K path atime mtime =
    bindM (darwin_timevals atime mtime) (\<lambda>tv. bindM (sysM (sys_utimes K path tv)) (\<lambda>e. ret (err_of e)))"

definition darwin_fUtimes :: "'k kernel \<Rightarrow> int \<Rightarrow> GoTime option \<Rightarrow> GoTime option \<Rightarrow> ('k, errno option) M" where
  "darwin_fUtimes K fd atime mtime =
    bindM (darwin_timevals atime mtime) (\<lambda>tv. bindM (sysM (sys_futimes K fd tv)) (\<lambda>e. ret (err_of e)))"

end
