(* ===== verification/Tree_Theorems.thy ===== *)
theory Tree_Theorems
  imports Examples
begin

text \<open>
  What the operations on the tree and the paths promise: one theorem for each of
  \<open>removeRef\<close>, \<open>addChild\<close>, \<open>rmChild\<close> and \<open>mvChild\<close> over all its branches, and the
  theorems on paths. The proofs rest on the lemmas of \<open>Tree_Inv\<close>, \<open>Tree_Ops\<close> and \<open>Paths\<close>.
\<close>

section \<open>The tree\<close>

lemma unregistered_gone:
  assumes "tree_ok b'" "shrinks b0 b'" "valid b0 a" "registered b0 a" "\<not> registered b' a"
  shows "go_get (nodes b') (inum b0 a) = nil" "pset b' a = {}" "valid b0 p \<Longrightarrow> edge b' p m \<noteq> a"
proof -
  have i: "inum b' a = inum b0 a" using assms(2) by (simp add: shrinks_def same_env_def)
  have n: "go_get (nodes b') (inum b0 a) \<noteq> nil \<longrightarrow> go_get (nodes b') (inum b0 a) = go_get (nodes b0) (inum b0 a)"
    using assms(2) unfolding shrinks_def by blast
  show "go_get (nodes b') (inum b0 a) = nil"
  proof (rule ccontr)
    assume "go_get (nodes b') (inum b0 a) \<noteq> nil"
    with n assms(4) have "go_get (nodes b') (inum b0 a) = a" by (simp add: registered_def)
    with assms(5) i show False by (simp add: registered_def)
  qed
  have v: "valid b' x = valid b0 x" for x using shrinks_valid[OF assms(2)] .
  show p: "pset b' a = {}"
    using tree_okD(5)[OF assms(1)] assms(3,5) v unfolding live_ok_def by blast
  show "edge b' p m \<noteq> a" if "valid b0 p"
  proof
    assume "edge b' p m = a"
    then have "pent m p \<in> pset b' a"
      using edges_okD(1)[OF tree_okD(3)[OF assms(1)], of p a m] that assms(3) v by blast
    with p show False by simp
  qed
qed

text \<open>
  C4: \<open>removeRef\<close> returns from a well-formed tree: the fuel that \<open>links\<close> gives it is enough, and no
  panic happens when the kernel takes back no more references than it has. The inode goes, from the table
  and from its directories, exactly when no reference and no child is left; what else goes is not live.
\<close>

theorem removeRef_total:
  assumes "tree_ok b" "valid b a" "registered b a" "k \<le> lookups b a"
  shows "\<exists>removed b'. remove_ref a k b = Inr (removed, b') \<and> tree_ok b' \<and>
    removed = (lookups b a = k \<and> (\<forall>m. edge b a m = nil)) \<and>
    (\<forall>x. lookups b' x = (if x = a then lookups b a - k else lookups b x)) \<and>
    (if removed
     then go_get (nodes b') (inum b a) = nil \<and> pset b' a = {} \<and> (\<forall>p m. valid b p \<longrightarrow> edge b' p m \<noteq> a)
     else nodes b' = nodes b \<and> (\<forall>p m. edge b' p m = edge b p m)) \<and>
    (\<forall>x. valid b x \<longrightarrow> registered b x \<longrightarrow> \<not> registered b' x \<longrightarrow>
       lookups b' x = 0 \<and> (\<forall>m. edge b' x m = nil)) \<and>
    (\<forall>p m. valid b p \<longrightarrow> edge b' p m \<noteq> edge b p m \<longrightarrow> edge b' p m = nil \<and> \<not> registered b' (edge b p m))"
proof -
  let ?u = "unref_st a k b"
  obtain r b' where b': "remove_ref a k b = Inr (r, b')" "tree_ok b'" "shrinks ?u b'"
    "r = (lookups b a = k \<and> (\<forall>m. edge b a m = nil))" "r \<longrightarrow> \<not> registered b' a" "\<not> r \<longrightarrow> b' = ?u"
    using remove_ref_spec[OF assms] by blast
  have "lookups b' x = (if x = a then lookups b a - k else lookups b x)" for x
    using b'(3) by (simp add: shrinks_def same_env_def)
  moreover have "if r
     then go_get (nodes b') (inum b a) = nil \<and> pset b' a = {} \<and> (\<forall>p m. valid b p \<longrightarrow> edge b' p m \<noteq> a)
     else nodes b' = nodes b \<and> (\<forall>p m. edge b' p m = edge b p m)"
    using unregistered_gone[OF b'(2,3), of a] assms(2,3) b'(5,6) by auto
  moreover have "lookups b' x = 0 \<and> (\<forall>m. edge b' x m = nil)"
    if "valid b x" "registered b x" "\<not> registered b' x" for x
  proof -
    have "\<not> live b' x" using b'(3) that unfolding shrinks_def by auto
    with that show ?thesis
      using live_iff[OF tree_okD(2)[OF b'(2)], of x] shrinks_valid[OF b'(3)] by auto
  qed
  moreover have "edge b' p m = nil \<and> \<not> registered b' (edge b p m)"
    if "valid b p" "edge b' p m \<noteq> edge b p m" for p m
  proof -
    have "edge b' p m = nil" using b'(3) that(2) unfolding shrinks_def by auto
    moreover have "edge b p m \<noteq> nil \<longrightarrow> edge b' p m \<noteq> nil \<or> \<not> registered b' (edge b p m)"
      using b'(3) that(1) unfolding shrinks_def unref_views by blast
    ultimately show ?thesis using that(2) by metis
  qed
  ultimately show ?thesis using b'(1,2,4) by (intro exI[of _ r] exI[of _ b'] conjI) blast+
qed

theorem removeRef_total_witness:
  "\<exists>b'. remove_ref 3 1 ex2 = Inr (True, b') \<and> tree_ok b' \<and> edge b' 2 ''x'' = nil"
proof -
  have "childmap (heap ex2 3) = []" by code_simp
  then have "\<forall>m. edge ex2 3 m = nil" by (simp add: edge_def child_def go_get_def)
  moreover have "inum ex2 3 = 3" "valid ex2 2" using ex2_facts by simp_all
  moreover have "lookups ex2 3 = 1" "(1 :: u32) \<le> lookups ex2 3" using ex2_facts by simp_all
  ultimately obtain b' where "remove_ref 3 1 ex2 = Inr (True, b')" "tree_ok b'" "\<forall>p m. valid ex2 p \<longrightarrow> edge b' p m \<noteq> 3"
      "\<forall>p m. valid ex2 p \<longrightarrow> edge b' p m \<noteq> edge ex2 p m \<longrightarrow> edge b' p m = nil"
    using removeRef_total[OF ex2_tree(1) ex2_facts(3,6), of 1] by auto
  then show ?thesis using ex2_facts(2,10) by (metis)
qed


text \<open>
  C5: \<open>addChild\<close> enters a name that is not a dot entry: the table, the directory and the newest parent
  of the inode agree, a known inode is reused with one reference more, a new one starts with one, and
  every other entry and count stays.
\<close>

theorem addChild_entry:
  assumes "tree_ok b" "addable b p name i"
  shows "\<exists>c b'. addChild p name i dir b = Inr (c, b') \<and> tree_ok b' \<and>
    go_get (nodes b') i = c \<and> inum b' c = i \<and> edge b' p name = c \<and>
    parents_get (parents (heap b' c)) = pent name p \<and>
    (if go_get (nodes b) i = nil
     then lookups b' c = 1 \<and> isDir (heap b' c) = dir \<and> (\<forall>m. edge b' c m = nil)
     else c = go_get (nodes b) i \<and> lookups b' c = lookups b c + 1 \<and> isDir (heap b' c) = isDir (heap b c)) \<and>
    (\<forall>j. j \<noteq> i \<longrightarrow> go_get (nodes b') j = go_get (nodes b) j) \<and>
    (\<forall>a. valid b a \<longrightarrow> a \<noteq> c \<longrightarrow> lookups b' a = lookups b a \<and> pset b' a = pset b a) \<and>
    (\<forall>q m. valid b q \<longrightarrow> (q, m) \<noteq> (p, name) \<longrightarrow> edge b' q m = edge b q m)"
proof -
  obtain c b' where a: "addChild p name i dir b = Inr (c, b')" "tree_ok b'" "added b p name i dir c b'"
    using addChild_spec[OF assms] by blast
  have p: "valid b p" using assms(2) by (simp add: addable_def)
  note f = added_frame[OF a(3)]
  have "parents_get (parents (heap b' c)) = pent name p"
    and ps: "\<forall>x. valid b x \<longrightarrow> pset b' x = (if x = c then insert (pent name p) (pset b x) else pset b x)"
    using a(3) unfolding added_def by blast+
  moreover have "\<forall>x. valid b x \<longrightarrow> x \<noteq> c \<longrightarrow> pset b' x = pset b x"
    by (intro allI impI) (simp only: ps[rule_format] if_False)
  moreover have "if go_get (nodes b) i = nil
     then lookups b' c = 1 \<and> isDir (heap b' c) = dir \<and> (\<forall>m. edge b' c m = nil)
     else c = go_get (nodes b) i \<and> lookups b' c = lookups b c + 1 \<and> isDir (heap b' c) = isDir (heap b c)"
  proof (cases "go_get (nodes b) i = nil")
    case True
    then show ?thesis using added_new[OF a(3) True] by simp
  next
    case False
    note o = added_old[OF a(3) False]
    show ?thesis unfolding if_not_P[OF False] by (intro conjI o)
  qed
  moreover have "go_get (nodes b') i = c" "\<forall>j. j \<noteq> i \<longrightarrow> go_get (nodes b') j = go_get (nodes b) j"
    unfolding f(3) by simp_all
  moreover have "edge b' p name = c" unfolding f(12)[OF p] by simp
  moreover have "\<forall>x. valid b x \<longrightarrow> x \<noteq> c \<longrightarrow> lookups b' x = lookups b x" using f(11) by blast
  moreover have "\<forall>q m. valid b q \<longrightarrow> (q, m) \<noteq> (p, name) \<longrightarrow> edge b' q m = edge b q m"
  proof (intro allI impI)
    fix q m assume "valid b q" "(q, m) \<noteq> (p, name)"
    then show "edge b' q m = edge b q m" unfolding f(12)[OF \<open>valid b q\<close>] by (intro if_not_P) auto
  qed
  ultimately show ?thesis using a(1,2) f(2) by blast
qed

theorem addChild_entry_witness:
  "\<exists>c b'. addChild 2 ''x'' 3 True ex1 = Inr (c, b') \<and> lookups b' c = 1 \<and> edge b' 2 ''x'' = c"
proof -
  have a: "addable ex1 2 ''x'' 3" using ex1_facts by (simp add: addable_def)
  have "tree_ok ex1" using ex1_ok by (simp add: bridge_ok_def)
  from addChild_entry[OF this a, of True] show ?thesis
    unfolding if_P[OF ex1_facts(3)] by (elim exE conjE) (intro exI conjI)
qed

text \<open>
  C7: \<open>rmChild\<close> answers whether the name was there and takes it out; no count changes, and what goes
  with it are directories that are not live any more.
\<close>

theorem rmChild_entry:
  assumes "tree_ok b" "valid b p"
  shows "\<exists>b'. rmChild p name b = Inr (edge b p name \<noteq> nil, b') \<and> tree_ok b' \<and> edge b' p name = nil \<and>
    (edge b p name = nil \<longrightarrow> b' = b) \<and>
    (\<forall>a. lookups b' a = lookups b a) \<and>
    (\<forall>a. valid b a \<longrightarrow> registered b a \<longrightarrow> \<not> registered b' a \<longrightarrow> lookups b a = 0 \<and> (\<forall>m. edge b' a m = nil)) \<and>
    (\<forall>q m. valid b q \<longrightarrow> edge b' q m \<noteq> edge b q m \<longrightarrow>
       edge b' q m = nil \<and> ((q, m) = (p, name) \<or> \<not> registered b' (edge b q m)))"
proof (cases "edge b p name = nil")
  case True
  then show ?thesis using assms(1) by (simp add: rmChild_eq)
next
  case False
  let ?c = "cut_st p name (edge b p name) b"
  obtain b' where b': "rmChild p name b = Inr (True, b')" "tree_ok b'" "shrinks ?c b'"
    using rmChild_spec[OF assms False] by blast
  have l: "lookups b' a = lookups b a" for a using b'(3) by (simp add: shrinks_def same_env_def)
  have "valid ?c a = valid b a" for a using cut_env[of b p name] by (rule same_env_valid)
  note v = this shrinks_valid[OF b'(3)]
  have e: "edge b' q m = nil \<or> edge b' q m = edge ?c q m" for q m using b'(3) unfolding shrinks_def by blast
  have r: "edge ?c q m \<noteq> nil \<longrightarrow> edge b' q m \<noteq> nil \<or> \<not> registered b' (edge ?c q m)" if "valid b q" for q m
    using b'(3) that v(1) unfolding shrinks_def by blast
  have "lookups b a = 0 \<and> (\<forall>m. edge b' a m = nil)" if "valid b a" "registered b a" "\<not> registered b' a" for a
  proof -
    have "\<not> live b' a" using b'(3) that v(1) unfolding shrinks_def by auto
    with that l[of a] show ?thesis
      using live_iff[OF tree_okD(2)[OF b'(2)], of a] v by auto
  qed
  moreover have "edge b' q m = nil \<and> ((q, m) = (p, name) \<or> \<not> registered b' (edge b q m))"
    if "valid b q" "edge b' q m \<noteq> edge b q m" for q m
    using e[of q m] r[OF that(1), of m] that(2) by (auto simp: cut_edge split: if_splits)
  moreover have "edge b' p name = nil" using e[of p name] by (simp add: cut_edge)
  ultimately show ?thesis using b'(1,2) l False by (intro exI[of _ b']) auto
qed

theorem rmChild_entry_witness:
  "\<exists>b'. rmChild 2 ''x'' ex2 = Inr (True, b') \<and> tree_ok b' \<and> edge b' 2 ''x'' = nil"
  using rmChild_entry[OF ex2_tree(1) ex2_facts(2), of "''x''"] ex2_facts(10) by fastforce

text \<open>
  C6: \<open>mvChild\<close> with overwriting, between directories the kernel knows: the inode is under its new
  name and not under its old one, all other names stay, and the new name is its newest parent.
\<close>

theorem mvChild_entry:
  assumes "tree_ok b" "valid b p" "valid b q" "registered b q" "isDir (heap b q)"
    and "lookups b p \<noteq> 0" "lookups b q \<noteq> 0" "edge b p name \<noteq> nil"
  shows "\<exists>b'. mvChild p name q newName True b = Inr (True, b') \<and> tree_ok b' \<and> nodes b' = nodes b \<and>
    edge b' q newName = edge b p name \<and>
    ((p, name) \<noteq> (q, newName) \<longrightarrow> edge b' p name = nil) \<and>
    (\<forall>r m. (r, m) \<noteq> (q, newName) \<longrightarrow> (r, m) \<noteq> (p, name) \<longrightarrow> edge b' r m = edge b r m) \<and>
    (\<forall>a. lookups b' a = lookups b a) \<and>
    parents_get (parents (heap b' (edge b p name))) = pent newName q"
proof -
  let ?b = "move_st p name q newName b"
  have w: "wf_upto {} b" using assms(1) by (simp add: tree_ok_def)
  have m: "mvChild p name q newName True b = Inr (True, ?b)" using mvChild_move[OF assms(1-7)] .
  note mw = move_wf[OF w assms(2,3,4,5), of name newName]
  have "registered b p" using live_registered[OF w assms(2,8)] .
  then obtain r b' where "mvChild p name q newName True b = Inr (r, b')" "tree_ok b'"
    using mvChild_spec[OF assms(1,2,3) _ assms(4,5)] by blast
  with m have t: "tree_ok ?b" by simp
  have "parents_get (parents (heap ?b (edge b p name))) = pent newName q"
    using assms(8) by (simp add: move_st_def Let_def link_opt_def link_newest)
  moreover have "lookups ?b a = lookups b a" for a using mw(2) by (simp add: same_env_def view_simps)
  ultimately show ?thesis using m t assms(8) mw by (intro exI[of _ ?b]) (auto simp: move_edge)
qed

theorem mvChild_entry_witness:
  "\<exists>b'. mvChild 2 ''x'' 1 ''y'' True ex2 = Inr (True, b') \<and> edge b' 1 ''y'' = 3 \<and> edge b' 2 ''x'' = nil"
  using mvChild_entry[OF ex2_tree(1) ex2_facts(2,1,4,7), of "''x''" "''y''"] ex2_facts(10,12,13)
  by (auto simp del: One_nat_def)


section \<open>Paths\<close>

text \<open>
  C8: In a tree without cycles \<open>pathOf\<close> returns, and changes neither the table nor an inode. Its answer
  leads from the root back to the inode it was asked for, or is the placeholder for orphans.
\<close>

theorem pathOf_leads_back:
  assumes "tree_ok b" "acyclic (down b)" "valid b n"
  shows "\<exists>path b'. pathOf n b = Inr (path, b') \<and> nodes b' = nodes b \<and> heap b' = heap b \<and>
    (if \<exists>ns. named b n ns
     then \<exists>ns. path = join ''/'' ns \<and> descend b (root b) ns = n
     else path = orphan_placeholder (inum b n) (rands b (randpos b)))"
proof -
  have r: "root b \<noteq> nil" using root_ne[OF assms(1)] .
  show ?thesis
  proof (cases "\<exists>ns. named b n ns")
    case True
    then obtain ns where ns: "named b n ns" by blast
    with True pathOf_named[OF ns] named_descend[OF assms(1) ns assms(3)] show ?thesis by auto
  next
    case False
    then obtain it segs where w: "path_walk b n [] = Some (it, segs)" "it \<noteq> root b"
      using path_walk_cases[OF r, of n] walk_acyclic[OF assms] by blast
    from False pathOf_orphan[OF w] show ?thesis by (auto simp: orphaned_st_def Let_def)
  qed
qed

theorem pathOf_leads_back_witness:
  "\<exists>path b'. pathOf 3 ex2 = Inr (path, b') \<and> (\<exists>ns. path = join ''/'' ns \<and> descend ex2 (root ex2) ns = 3)"
proof -
  have "\<exists>ns. named ex2 3 ns" using ex2_named(3) by blast
  with pathOf_leads_back[OF ex2_tree ex2_facts(3)] show ?thesis by auto
qed

text \<open>
  C24: inodes that have a path have different paths.
\<close>

theorem pathOf_injective:
  assumes "tree_ok b" "names_plain b" "valid b n" "valid b n'" "named b n ns" "named b n' ns'"
    and "pathOf n b = Inr (path, b1)" "pathOf n' b = Inr (path, b2)"
  shows "n = n'"
proof -
  have "join ''/'' ns = path" "join ''/'' ns' = path"
    using assms(7,8) pathOf_named[OF assms(5)] pathOf_named[OF assms(6)] by simp_all
  then have "ns = ns'"
    using join_inj named_plain[OF assms(1,2,5,3)] named_plain[OF assms(1,2,6,4)] by metis
  then show ?thesis using named_descend[OF assms(1,5,3)] named_descend[OF assms(1,6,4)] by simp
qed

lemma childmap_edge: "edge b p m \<noteq> nil \<Longrightarrow> m \<in> fst ` set (childmap (heap b p))"
  using go_get_in_set[of "childmap (heap b p)" m] by (force simp: edge_def child_def)

lemma ex2_plain: "names_plain ex2"
proof -
  have p: "plain m" if "edge ex2 p m \<noteq> nil" "p \<in> {1, 2, 3}" for p m
  proof -
    have "\<forall>p \<in> {1, 2, 3}. \<forall>m \<in> fst ` set (childmap (heap ex2 p)). plain m" by code_simp
    with that(2) childmap_edge[OF that(1)] show ?thesis by blast
  qed
  have "p \<in> {1, 2, 3}" if "valid ex2 p" for p
    using that ex2_facts(16) by (auto simp: valid_def simp del: One_nat_def)
  with p show ?thesis unfolding names_plain_def by blast
qed

theorem pathOf_injective_witness:
  "\<exists>path. pathOf 3 ex2 = Inr (path, ex2) \<and> (\<forall>n ns. valid ex2 n \<longrightarrow> named ex2 n ns \<longrightarrow>
     pathOf n ex2 = Inr (path, ex2) \<longrightarrow> n = 3)"
  using pathOf_injective[OF ex2_tree(1) ex2_plain ex2_facts(3) _ ex2_named(3)] pathOf_named[OF ex2_named(3)]
  by metis

lemma added_above:
  assumes "valid b p" "answer_ok b p name i" "added b p name i dir c b'"
  shows "(c, p) \<notin> (down b)\<^sup>*"
proof (cases "go_get (nodes b) i = nil")
  case True
  then have "c = hnext b" using added_new(2)[OF assms(3)] by simp
  moreover have "(hnext b, x) \<notin> down b" for x by (simp add: down_def valid_def)
  moreover have "p \<noteq> hnext b" using assms(1) by (simp add: valid_def)
  ultimately show ?thesis by (metis converse_rtranclE)
next
  case False
  then have "c = go_get (nodes b) i" using added_old(1)[OF assms(3)] by simp
  with assms(2) show ?thesis by (simp add: answer_ok_def)
qed

lemma childPathOf_named:
  assumes "tree_ok b" "names_plain b" "valid b p" "named b p ns"
  shows "join ''/'' (ns @ [name]) = childPathOf (join ''/'' ns) name"
proof -
  have "ns = [] \<or> join ''/'' ns \<noteq> ''''"
    using join_eq_Nil[OF named_plain[OF assms(1,2,4,3)]] by blast
  then show ?thesis by (simp add: childPathOf_join)
qed

text \<open>
  C25: A new entry has the path of its directory with its name added, the path the bridge has asked the
  file system for.
\<close>

theorem addChild_path:
  assumes "bridge_ok b" "names_plain b" "valid b p" "registered b p" "answer_ok b p name i" "named b p ns"
  shows "\<exists>path c b'. pathOf p b = Inr (path, b) \<and> addChild p name i dir b = Inr (c, b') \<and>
    pathOf c b' = Inr (childPathOf path name, b')"
proof -
  have t: "tree_ok b" using assms(1) by (simp add: bridge_ok_def)
  obtain c b' where b': "addChild p name i dir b = Inr (c, b')" "added b p name i dir c b'"
    using addChild_ok[OF assms(1,3,4,5)] by blast
  note n = added_named[OF t assms(3,6) b'(2) added_above[OF assms(3,5) b'(2)]]
  from b'(1) pathOf_named[OF n] pathOf_named[OF assms(6)] childPathOf_named[OF t assms(2,3,6)]
  show ?thesis by simp
qed

lemma ex1_named: "named ex1 1 []" "named ex1 2 [''d'']" "names_plain ex1"
proof -
  show 1: "named ex1 1 []" using named_root[of ex1] by (simp add: ex1_facts)
  have "parents_get (parents (heap ex1 2)) = pent ''d'' 1" by code_simp
  with named_child[OF 1, of 2 "''d''"] show "named ex1 2 [''d'']" by (simp add: ex1_facts)
  have p: "plain m" if "edge ex1 p m \<noteq> nil" "p \<in> {1, 2}" for p m
  proof -
    have "\<forall>p \<in> {1, 2}. \<forall>m \<in> fst ` set (childmap (heap ex1 p)). plain m" by code_simp
    with that(2) childmap_edge[OF that(1)] show ?thesis by blast
  qed
  have "hnext ex1 = 3" by code_simp
  then have "p \<in> {1, 2}" if "valid ex1 p" for p
    using that by (auto simp: valid_def simp del: One_nat_def)
  with p show "names_plain ex1" unfolding names_plain_def by blast
qed

theorem addChild_path_witness:
  "\<exists>c b'. addChild 2 ''x'' 3 False ex1 = Inr (c, b') \<and> pathOf c b' = Inr (''d/x'', b')"
proof -
  have "pathOf 2 ex1 = Inr (''d'', ex1)" using pathOf_named[OF ex1_named(2)] by simp
  moreover have "childPathOf ''d'' ''x'' = ''d/x''" by (simp add: childPathOf_def)
  ultimately show ?thesis
    using addChild_path[OF ex1_ok ex1_named(3) ex1_facts(1,2) ex1_answer ex1_named(2), of False] by auto
qed

text \<open>
  after a rename the inode has the path that the bridge has given to the file system as the new one.
\<close>

theorem mvChild_path:
  assumes "tree_ok b" "acyclic (down b)" "names_plain b" "valid b p" "valid b q" "registered b q" "isDir (heap b q)"
    and "lookups b p \<noteq> 0" "lookups b q \<noteq> 0" "edge b p name \<noteq> nil" "(edge b p name, q) \<notin> (down b)\<^sup>*" "named b q ns"
  shows "\<exists>path b'. pathOf q b = Inr (path, b) \<and> mvChild p name q newName True b = Inr (True, b') \<and>
    pathOf (edge b p name) b' = Inr (childPathOf path newName, b')"
proof -
  note n = move_named[OF assms(1,4-7,10,12,2,11), of newName]
  from mvChild_move[OF assms(1,4-6,7-9)] pathOf_named[OF n] pathOf_named[OF assms(12)]
    childPathOf_named[OF assms(1,3,5,12)]
  show ?thesis by simp
qed

lemma ex2_no_down: "(edge ex2 2 ''x'', 1) \<notin> (down ex2)\<^sup>*"
proof
  assume "(edge ex2 2 ''x'', 1) \<in> (down ex2)\<^sup>*"
  then have "(3, 1) \<in> (down ex2)\<^sup>*" by (simp add: ex2_facts)
  moreover have "childmap (heap ex2 3) = []" by code_simp
  then have "(3, y) \<notin> down ex2" for y by (auto simp: down_def edge_def child_def)
  ultimately show False by (auto elim: converse_rtranclE)
qed

theorem mvChild_path_witness:
  "\<exists>b'. mvChild 2 ''x'' 1 ''y'' True ex2 = Inr (True, b') \<and> pathOf 3 b' = Inr (''y'', b')"
proof -
  have "pathOf 1 ex2 = Inr ('''', ex2)" using pathOf_named[OF ex2_named(1)] by simp
  moreover have "childPathOf '''' ''y'' = ''y''" by (simp add: childPathOf_def)
  moreover have "lookups ex2 2 \<noteq> 0" "lookups ex2 1 \<noteq> 0" "edge ex2 2 ''x'' \<noteq> nil"
    using ex2_facts(10,12,13) by simp_all
  note mvChild_path[OF ex2_tree ex2_plain ex2_facts(2,1,4,7) this ex2_no_down ex2_named(1), of "''y''"]
  ultimately show ?thesis using ex2_facts(10) by (auto simp del: One_nat_def)
qed

text \<open>
  Without the check that the kernel makes, a directory moved into itself: \<open>pathOf\<close> of it never
  returns.
\<close>

theorem pathOf_cycle:
  "\<exists>b'. mvChild 1 ''d'' 2 ''e'' True ex1 = Inr (True, b') \<and> pathOf 2 b' = Inl Diverges"
proof -
  let ?b = "move_st 1 ''d'' 2 ''e'' ex1"
  have t: "tree_ok ex1" using ex1_ok by (simp add: bridge_ok_def)
  have "mvChild 1 ''d'' 2 ''e'' True ex1 = Inr (True, ?b)"
    using mvChild_move[OF t ex1_facts(12,1,2,7)] ex1_facts(14,15) by (simp del: One_nat_def)
  moreover have "pathOf 2 ?b = Inl Diverges"
  proof (rule pathOf_diverges)
    have r: "root ?b = 1" "parents_get (parents (heap ?b 2)) = pent ''e'' 2" by code_simp+
    have "b' = ?b \<longrightarrow> a \<noteq> 2" if "path_walk b' a segs = Some y" for b' a segs y
    proof (rule path_walk.raw_induct[where P = "\<lambda>b' a segs y. b' = ?b \<longrightarrow> a \<noteq> 2", OF _ that], goal_cases)
      case (1 walk b' it segs y)
      show ?case
      proof (intro impI notI)
        assume "b' = ?b" "it = 2"
        with 1(2) r have "walk ?b 2 (segs @ [''e'']) = Some y" by (simp add: Let_def)
        from 1(1)[OF this] show False by simp
      qed
    qed
    then show "path_walk ?b 2 [] = None" by (metis option.exhaust)
  qed
  ultimately show ?thesis by blast
qed


end
