(* ===== verification/Bridge_Theorems.thy ===== *)
theory Bridge_Theorems
  imports Tree_Theorems Default_FS
begin

text \<open>
  What the requests promise, one by one: their replies, what they make of the tree and
  of the open files, and what they pass on of the file system's answers. Each theorem is
  about the whole handler, run on a state of the invariant; \<open>with_node\<close> and \<open>with_child\<close>
  reduce a handler to its body, on the path \<open>pathOf\<close> answers.
\<close>

section \<open>Paths of requests\<close>

lemma node_path_at:
  assumes "node_of (sy_bridge s) i \<noteq> nil" "pathOf (node_of (sy_bridge s) i) (sy_bridge s) = Inr (path, b)"
  shows "node_path i s = Inr ((node_of (sy_bridge s) i, path), s\<lparr>sy_bridge := b\<rparr>)"
  unfolding node_path_def
  by (rule onBridge_eq) (simp add: bindM_def bridge_inode_apply assms ret_def)

lemma child_path_at:
  assumes "node_of (sy_bridge s) i \<noteq> nil" "pathOf (node_of (sy_bridge s) i) (sy_bridge s) = Inr (path, b)"
  shows "child_path i name s = Inr ((node_of (sy_bridge s) i, childPathOf path name), s\<lparr>sy_bridge := b\<rparr>)"
  using node_path_at[OF assms] by (simp add: child_path_def bindM_def ret_def)

lemma pathOf_quiet:
  assumes "bridge_ok b" "node_of b i \<noteq> nil" "pathOf (node_of b i) b = Inr (path, b')"
  shows "quiet b b'"
proof -
  have t: "tree_ok b" "acyclic (down b)" using assms(1) by (simp_all add: bridge_ok_def)
  from pathOf_total[OF t table_valid(1)[OF t(1) assms(2)]] assms(3) show ?thesis by auto
qed

text \<open>A request on an inode: what \<open>withContext\<close> and the walk to the path come to.\<close>

lemma with_node:
  assumes "node_of (sy_bridge s) (ih_NodeId h) \<noteq> nil"
    and "pathOf (node_of (sy_bridge s) (ih_NodeId h)) (sy_bridge s) = Inr (path, b)"
    and "\<And>pool. body (ctx_of c h) (node_of (sy_bridge s) (ih_NodeId h), path) (s\<lparr>sy_bridge := b, sy_pool := pool\<rparr>) =
      Inr (r, s'\<lparr>sy_pool := pool\<rparr>)"
  shows "\<exists>pool. withContext c (ih_Caller h) (\<lambda>ctx. bindM (node_path (ih_NodeId h)) (body ctx)) s =
    Inr (r, s'\<lparr>sy_pool := pool\<rparr>)"
proof -
  let ?s = "s\<lparr>sy_pool := snd (contextPool_Get (sy_pool s))\<rparr>"
  have "node_path (ih_NodeId h) ?s =
      Inr ((node_of (sy_bridge s) (ih_NodeId h), path), s\<lparr>sy_bridge := b, sy_pool := snd (contextPool_Get (sy_pool s))\<rparr>)"
    using node_path_at[of ?s "ih_NodeId h" path b] assms(1,2) by simp
  then have "bindM (node_path (ih_NodeId h)) (body (ctx_of c h)) ?s = Inr (r, s'\<lparr>sy_pool := snd (contextPool_Get (sy_pool s))\<rparr>)"
    using assms(3) by (simp add: bindM_Inr)
  then show ?thesis by (auto simp: withContext_eq ctx_of_def)
qed

lemma with_child:
  assumes "node_of (sy_bridge s) (ih_NodeId h) \<noteq> nil"
    and "pathOf (node_of (sy_bridge s) (ih_NodeId h)) (sy_bridge s) = Inr (path, b)"
    and "\<And>pool. body (ctx_of c h) (node_of (sy_bridge s) (ih_NodeId h), childPathOf path name)
        (s\<lparr>sy_bridge := b, sy_pool := pool\<rparr>) = Inr (r, s'\<lparr>sy_pool := pool\<rparr>)"
  shows "\<exists>pool. withContext c (ih_Caller h) (\<lambda>ctx. bindM (child_path (ih_NodeId h) name) (body ctx)) s =
    Inr (r, s'\<lparr>sy_pool := pool\<rparr>)"
  using with_node[OF assms(1,2), of "\<lambda>ctx (p, path). body ctx (p, childPathOf path name)" c r s'] assms(3)
  by (simp add: child_path_def bindM_assoc bindM_ret case_prod_unfold)

section \<open>Extended attributes\<close>

lemma copy_into_props:
  assumes "length data \<le> length dest"
  shows "take (length data) (copy_into dest data) = data" "length (copy_into dest data) = length dest"
    "drop (length data) (copy_into dest data) = drop (length data) dest"
  using assms by (simp_all add: copy_into_def)

text \<open>
  C18: \<open>GetXAttr\<close> answers the size of the value whether it fits into the buffer of the reply or not. It writes
  the value to the start of the buffer and leaves the rest, or answers ERANGE and leaves all of it; an error
  of the file system is passed on.
\<close>

theorem GetXAttr_reply:
  assumes "node_of (sy_bridge s) (ih_NodeId h) \<noteq> nil"
    and "pathOf (node_of (sy_bridge s) (ih_NodeId h)) (sy_bridge s) = Inr (path, b)"
    and "fs_GetXAttr fs (ctx_of c h) path attr (sy_world s) = ((data, code), w)"
  shows "\<exists>sz code' dest' pool. GetXAttr fs c h attr dest s =
      Inr ((sz, code', dest'), s\<lparr>sy_bridge := b, sy_world := w, sy_pool := pool\<rparr>) \<and> length dest' = length dest \<and>
    (if code \<noteq> OK then (sz, code', dest') = (0, code, dest)
     else sz = word_of_nat (length data) \<and>
       (if length data \<le> length dest
        then code' = OK \<and> take (length data) dest' = data \<and> drop (length data) dest' = drop (length data) dest
        else code' = ERANGE \<and> dest' = dest))"
proof -
  define r :: "u32 \<times> Status \<times> bytes" where "r = (if code \<noteq> OK then (0, code, dest)
    else if length data \<le> length dest then (word_of_nat (length data), OK, copy_into dest data)
    else (word_of_nat (length data), ERANGE, dest))"
  have "\<exists>pool. GetXAttr fs c h attr dest s = Inr (r, (s\<lparr>sy_bridge := b, sy_world := w\<rparr>)\<lparr>sy_pool := pool\<rparr>)"
    unfolding GetXAttr_def
    by (rule with_node[OF assms(1,2)]) (simp add: bindM_def onFS_def assms(3) ret_def r_def Let_def)
  then obtain pool where "GetXAttr fs c h attr dest s = Inr (r, s\<lparr>sy_bridge := b, sy_world := w, sy_pool := pool\<rparr>)"
    by auto
  then show ?thesis
    by (intro exI[of _ "fst r"] exI[of _ "fst (snd r)"] exI[of _ "snd (snd r)"] exI[of _ pool])
      (simp add: r_def copy_into_props)
qed

definition exxattr :: "unit FileSystem" where
  "exxattr = exfs\<lparr>fs_GetXAttr := (\<lambda>ctx path attr w. ((''abc'', OK), w)),
     fs_ListXAttr := (\<lambda>ctx path w. (([''u.a'', ''u.b''], OK), w))\<rparr>"

lemma exsys_simps [simp]: "sy_bridge (exsys b) = b" "sy_world (exsys b) = ()"
  by (simp_all add: exsys_def)

lemma ex0_root: "node_of ex0 (ih_NodeId exhdr) \<noteq> nil" "pathOf (node_of ex0 (ih_NodeId exhdr)) ex0 = Inr ('''', ex0)"
proof -
  have "node_of ex0 (ih_NodeId exhdr) = root ex0" using ex0_facts(8,9) by (simp add: exhdr_def)
  then show "node_of ex0 (ih_NodeId exhdr) \<noteq> nil" "pathOf (node_of ex0 (ih_NodeId exhdr)) ex0 = Inr ('''', ex0)"
    using ex0_facts(8) pathOf_root[of ex0] by simp_all
qed

theorem GetXAttr_reply_witness:
  "\<exists>s'. GetXAttr exxattr 0 exhdr ''u.a'' ''....'' (exsys ex0) = Inr ((3, OK, ''abc.''), s')"
proof -
  have "fs_GetXAttr exxattr (ctx_of 0 exhdr) '''' ''u.a'' () = ((''abc'', OK), ())" by (simp add: exxattr_def)
  with GetXAttr_reply[of "exsys ex0" exhdr "''''" ex0 exxattr 0 "''u.a''" "''abc''" OK "()" "''....''"] ex0_root
  obtain sz dest' s' where r: "GetXAttr exxattr 0 exhdr ''u.a'' ''....'' (exsys ex0) = Inr ((sz, OK, dest'), s')"
    "sz = 3" "take 3 dest' = ''abc''" "drop 3 dest' = ''.''"
    by (auto simp: numeral_3_eq_3)
  then have "dest' = ''abc.''" using append_take_drop_id[of 3 dest'] by simp
  with r show ?thesis by blast
qed

text \<open>The two loops of \<open>ListXAttr\<close>: the size they compute is that of what they write.\<close>

lemma xattr_append_concat: "xattr_append d attrs = d @ concat (map (\<lambda>v. v @ [CHR 0x00]) attrs)"
  by (induction d attrs rule: xattr_append.induct) simp_all

lemma xattr_size_length: "xattr_size k attrs = k + length (concat (map (\<lambda>v. v @ [CHR 0x00]) attrs))"
  by (induction k attrs rule: xattr_size.induct) simp_all

text \<open>
  C30: \<open>ListXAttr\<close> answers the size of the list of names, each closed by a zero byte, and writes that list to
  the start of the buffer of the reply when it fits; otherwise it answers ERANGE and leaves the buffer alone.
\<close>

theorem ListXAttr_reply:
  assumes "node_of (sy_bridge s) (ih_NodeId h) \<noteq> nil"
    and "pathOf (node_of (sy_bridge s) (ih_NodeId h)) (sy_bridge s) = Inr (path, b)"
    and "fs_ListXAttr fs (ctx_of c h) path (sy_world s) = ((attrs, OK), w)"
    and "list = concat (map (\<lambda>v. v @ [CHR 0x00]) attrs)"
  shows "\<exists>code' dest' pool. ListXAttr fs c h dest s =
      Inr ((word_of_nat (length list), code', dest'), s\<lparr>sy_bridge := b, sy_world := w, sy_pool := pool\<rparr>) \<and>
    length dest' = length dest \<and>
    (if length list \<le> length dest
     then code' = OK \<and> take (length list) dest' = list \<and> drop (length list) dest' = drop (length list) dest
     else code' = ERANGE \<and> dest' = dest)"
proof -
  define r where "r = (if length list \<le> length dest then (OK, copy_into dest list) else (ERANGE, dest))"
  have "\<exists>pool. ListXAttr fs c h dest s =
      Inr ((word_of_nat (length list), r), (s\<lparr>sy_bridge := b, sy_world := w\<rparr>)\<lparr>sy_pool := pool\<rparr>)"
    unfolding ListXAttr_def
    by (rule with_node[OF assms(1,2)])
      (simp add: bindM_def onFS_def assms(3) ret_def r_def Let_def xattr_append_concat xattr_size_length
        flip: assms(4))
  then obtain pool where "ListXAttr fs c h dest s =
      Inr ((word_of_nat (length list), r), s\<lparr>sy_bridge := b, sy_world := w, sy_pool := pool\<rparr>)"
    by auto
  then show ?thesis
    by (intro exI[of _ "fst r"] exI[of _ "snd r"] exI[of _ pool]) (simp add: r_def copy_into_props)
qed

theorem ListXAttr_reply_witness:
  "\<exists>dest s'. ListXAttr exxattr 0 exhdr ''..........'' (exsys ex0) = Inr ((8, OK, dest), s') \<and>
     take 8 dest = ''u.a'' @ [CHR 0x00] @ ''u.b'' @ [CHR 0x00]"
proof -
  have "fs_ListXAttr exxattr (ctx_of 0 exhdr) '''' () = (([''u.a'', ''u.b''], OK), ())" by (simp add: exxattr_def)
  with ListXAttr_reply[of "exsys ex0" exhdr "''''" ex0 exxattr 0 "[''u.a'', ''u.b'']" "()"
      "''u.a'' @ [CHR 0x00] @ ''u.b'' @ [CHR 0x00]" "''..........''"] ex0_root
  show ?thesis by (fastforce simp: eval_nat_numeral)
qed

section \<open>Look-ups\<close>

text \<open>
  C11: When the file system does not find a name, \<open>Lookup\<close> passes its error on, the name is no longer in the
  directory of the bridge, no reference count changes, and the reply has the negative timeout of the options.
\<close>

theorem Lookup_missing:
  assumes "bridge_ok (sy_bridge s)" "0 < refs (sy_bridge s) (ih_NodeId h)"
    and "pathOf (node_of (sy_bridge s) (ih_NodeId h)) (sy_bridge s) = Inr (path, b)"
    and "fs_GetAttr fs (ctx_of c h) (childPathOf path name) 0 (eo_Attr out) (sy_world s) = ((code, attr), w)"
    and "code \<noteq> OK"
  shows "\<exists>s'. Lookup fs lib c h name out s =
      Inr ((code, case op_NegativeTimeout (options (sy_bridge s)) of
                    Some t \<Rightarrow> lib_EntryOut_SetEntryTimeout lib t (out\<lparr>eo_Attr := attr\<rparr>)
                  | None \<Rightarrow> out\<lparr>eo_Attr := attr\<rparr>), s') \<and>
    sy_world s' = w \<and> bridge_ok (sy_bridge s') \<and> refs (sy_bridge s') = refs (sy_bridge s) \<and>
    edge (sy_bridge s') (node_of (sy_bridge s) (ih_NodeId h)) name = nil"
proof -
  let ?p = "node_of (sy_bridge s) (ih_NodeId h)"
  let ?out = "out\<lparr>eo_Attr := attr\<rparr>"
  note n = refs_pos[OF assms(2)]
  have q: "quiet (sy_bridge s) b" using pathOf_quiet[OF assms(1) n(1) assms(3)] .
  note v = quiet_views[OF q]
  have "valid b ?p" "lookups b ?p \<noteq> 0"
    using table_valid(1)[of "sy_bridge s" "ih_NodeId h"] assms(1) n v by (simp_all add: bridge_ok_def)
  then obtain b' where b': "rmChild ?p name b = Inr (edge b ?p name \<noteq> nil, b')" "bridge_ok b'" "refs b' = refs b"
      "\<forall>q m. edge b' q m = (if q = ?p \<and> m = name then nil else edge b q m)"
    using rmChild_ok[OF quiet_ok[OF q assms(1)]] by blast
  have o: "options b' = options (sy_bridge s)"
  proof -
    have "tree_ok b" using quiet_ok[OF q assms(1)] by (simp add: bridge_ok_def)
    with b'(1) rmChild_cut[of b ?p name] \<open>valid b ?p\<close> \<open>lookups b ?p \<noteq> 0\<close>
    have "b' = b \<or> b' = cut_st ?p name (edge b ?p name) b" by (auto split: if_splits)
    then have "options b' = options b" using cut_env[of b ?p name] by (auto simp: same_env_def)
    with q show ?thesis by (simp add: quiet_frame)
  qed
  have l: "lookup fs lib (ctx_of c h) (childPathOf path name) ?p name out (s\<lparr>sy_bridge := b, sy_pool := pool\<rparr>) =
      Inr ((code, ?out), s\<lparr>sy_bridge := b, sy_pool := pool, sy_world := w\<rparr>)" for pool
    using lookup_error[of fs _ _ out "s\<lparr>sy_bridge := b, sy_pool := pool\<rparr>" code attr w] assms(4,5) by simp
  have "\<exists>pool. Lookup fs lib c h name out s =
      Inr ((code, case op_NegativeTimeout (options (sy_bridge s)) of
        Some t \<Rightarrow> lib_EntryOut_SetEntryTimeout lib t ?out | None \<Rightarrow> ?out),
        (s\<lparr>sy_bridge := b', sy_world := w\<rparr>)\<lparr>sy_pool := pool\<rparr>)"
    unfolding Lookup_def
    by (rule with_child[OF n(1) assms(3)])
      (simp add: bindM_def l assms(5) onBridge_def b'(1) getsM_def ret_def o)
  then show ?thesis using b' v(8) by fastforce
qed

theorem Lookup_missing_witness:
  "\<exists>r s'. Lookup exfs exlib 0 exhdr ''x'' exout (exsys ex1) = Inr ((Errno 2, r), s') \<and>
     edge (sy_bridge s') (node_of ex1 (ih_NodeId exhdr)) ''x'' = nil"
proof -
  have r: "node_of ex1 (ih_NodeId exhdr) = root ex1" using ex1_facts(9,10) by (simp add: exhdr_def)
  have 1: "pathOf (node_of (sy_bridge (exsys ex1)) (ih_NodeId exhdr)) (sy_bridge (exsys ex1)) = Inr ('''', ex1)"
    using r pathOf_root[of ex1] by simp
  have 2: "fs_GetAttr exfs (ctx_of 0 exhdr) (childPathOf '''' ''x'') 0 (eo_Attr exout) (sy_world (exsys ex1)) =
      ((Errno 2, eo_Attr exout), ())"
    by (simp add: exfs_def childPathOf_def)
  have "bridge_ok (sy_bridge (exsys ex1))" "0 < refs (sy_bridge (exsys ex1)) (ih_NodeId exhdr)"
    using ex1_ok ex1_facts(6) by (simp_all add: exhdr_def)
  from Lookup_missing[OF this 1 2, where lib = exlib] show ?thesis by auto
qed

text \<open>
  C10: When the file system finds the name, \<open>Lookup\<close> hands out the number it answers with one reference more,
  the directory of the bridge has the inode under the name, and the reply is completed from the options.
\<close>

theorem Lookup_found:
  assumes "bridge_ok (sy_bridge s)" "0 < refs (sy_bridge s) (ih_NodeId h)"
    and "pathOf (node_of (sy_bridge s) (ih_NodeId h)) (sy_bridge s) = Inr (path, b)"
    and "fs_GetAttr fs (ctx_of c h) (childPathOf path name) 0 (eo_Attr out) (sy_world s) = ((OK, attr), w)"
    and "answer_ok (sy_bridge s) (node_of (sy_bridge s) (ih_NodeId h)) name (at_Ino attr)"
  shows "\<exists>s'. Lookup fs lib c h name out s =
      Inr ((OK, entry_reply lib (options (sy_bridge s)) (at_Ino attr) attr out), s') \<and>
    sy_world s' = w \<and> bridge_ok (sy_bridge s') \<and>
    refs (sy_bridge s') = (refs (sy_bridge s))(at_Ino attr := Suc (refs (sy_bridge s) (at_Ino attr))) \<and>
    node_of (sy_bridge s') (at_Ino attr) \<noteq> nil \<and>
    edge (sy_bridge s') (node_of (sy_bridge s) (ih_NodeId h)) name = node_of (sy_bridge s') (at_Ino attr)"
proof -
  let ?p = "node_of (sy_bridge s) (ih_NodeId h)"
  note n = refs_pos[OF assms(2)]
  have q: "quiet (sy_bridge s) b" using pathOf_quiet[OF assms(1) n(1) assms(3)] .
  note v = quiet_views[OF q]
  have t: "tree_ok (sy_bridge s)" using assms(1) by (simp add: bridge_ok_def)
  have p: "valid b ?p" "registered b ?p"
    using table_valid[OF t n(1)] v by simp_all
  have "answer_ok b ?p name (at_Ino attr)" using quiet_answer[OF q] assms(5) by simp
  then obtain c' b' where a: "addChild ?p name (at_Ino attr) (lib_IsDir lib attr) b = Inr (c', b')"
    and b': "bridge_ok b'" "added b ?p name (at_Ino attr) (lib_IsDir lib attr) c' b'"
    "refs b' = (refs b)(at_Ino attr := Suc (refs b (at_Ino attr)))"
    using addChild_ok[OF quiet_ok[OF q assms(1)] p] by blast
  have l: "lookup fs lib (ctx_of c h) (childPathOf path name) ?p name out (s\<lparr>sy_bridge := b, sy_pool := pool\<rparr>) =
      Inr ((OK, entry_reply lib (options b) (at_Ino attr) attr out), s\<lparr>sy_world := w, sy_bridge := b', sy_pool := pool\<rparr>)" for pool
    using lookup_added[of fs _ _ out "s\<lparr>sy_bridge := b, sy_pool := pool\<rparr>" attr w ?p name lib c' b'] assms(4) a b'(2) by simp
  note f = added_frame[OF b'(2)]
  have "\<exists>pool. Lookup fs lib c h name out s =
      Inr ((OK, entry_reply lib (options b) (at_Ino attr) attr out),
        (s\<lparr>sy_world := w, sy_bridge := b'\<rparr>)\<lparr>sy_pool := pool\<rparr>)"
    unfolding Lookup_def
    by (rule with_child[OF n(1) assms(3)]) (simp add: bindM_def l ret_def)
  moreover have "options b = options (sy_bridge s)" using q by (simp add: quiet_frame)
  moreover have "node_of b' (at_Ino attr) = c'" unfolding f(3) by simp
  moreover have "c' \<noteq> nil" using f(1) by (simp add: valid_def)
  moreover have "edge b' ?p name = c'" unfolding f(12)[OF p(1)] by simp
  ultimately show ?thesis using b'(1,3) v(8) by fastforce
qed

theorem Lookup_found_witness:
  "\<exists>r s'. Lookup exfs exlib 0 exhdr ''d'' exout (exsys ex0) = Inr ((OK, r), s') \<and> refs (sy_bridge s') 2 = 1"
proof -
  have "fs_GetAttr exfs (ctx_of 0 exhdr) (childPathOf '''' ''d'') 0 (eo_Attr exout) (sy_world (exsys ex0)) =
      ((OK, (eo_Attr exout)\<lparr>at_Ino := 2, at_Mode := 0x4000\<rparr>), ())"
    by (simp add: exfs_def childPathOf_def)
  moreover have "answer_ok ex0 (node_of ex0 (ih_NodeId exhdr)) ''d'' 2"
    using ex0_answer ex0_facts(9) by (simp add: exhdr_def)
  moreover have "0 < refs ex0 (ih_NodeId exhdr)" using ex0_facts(5) by (simp add: exhdr_def)
  ultimately show ?thesis
    using Lookup_found[of "exsys ex0" exhdr "''''" ex0 exfs 0 "''d''" exout
        "(eo_Attr exout)\<lparr>at_Ino := 2, at_Mode := 0x4000\<rparr>" "()" exlib] ex0_ok ex0_root(2) ex0_facts(4)
    by auto
qed

section \<open>Removing and moving entries\<close>

text \<open>
  C12: \<open>Unlink\<close> answers what the file system answers. On success the name is gone from the directory of the
  bridge and nothing else is; on an error the bridge keeps its inodes as they are.
\<close>

theorem Unlink_follows:
  assumes "bridge_ok (sy_bridge s)" "0 < refs (sy_bridge s) (ih_NodeId h)"
    and "pathOf (node_of (sy_bridge s) (ih_NodeId h)) (sy_bridge s) = Inr (path, b)"
    and "fs_Unlink fs (ctx_of c h) (childPathOf path name) (sy_world s) = (code, w)"
  shows "\<exists>s'. Unlink fs c h name s = Inr (code, s') \<and> sy_world s' = w \<and> bridge_ok (sy_bridge s') \<and>
    (\<forall>p m. edge (sy_bridge s') p m =
       (if code = OK \<and> p = node_of (sy_bridge s) (ih_NodeId h) \<and> m = name then nil else edge (sy_bridge s) p m)) \<and>
    refs (sy_bridge s') = refs (sy_bridge s)"
proof -
  let ?p = "node_of (sy_bridge s) (ih_NodeId h)"
  note n = refs_pos[OF assms(2)]
  have q: "quiet (sy_bridge s) b" using pathOf_quiet[OF assms(1) n(1) assms(3)] .
  note v = quiet_views[OF q]
  show ?thesis
  proof (cases "code = OK")
    case False
    have "\<exists>pool. Unlink fs c h name s = Inr (code, (s\<lparr>sy_bridge := b, sy_world := w\<rparr>)\<lparr>sy_pool := pool\<rparr>)"
      unfolding Unlink_def
      by (rule with_child[OF n(1) assms(3)]) (simp add: bindM_def onFS_def assms(4) ret_def False)
    with False v quiet_ok[OF q assms(1)] show ?thesis by fastforce
  next
    case True
    have "valid b ?p" "lookups b ?p \<noteq> 0"
      using table_valid(1)[of "sy_bridge s" "ih_NodeId h"] assms(1) n v by (simp_all add: bridge_ok_def)
    then obtain b' where b': "rmChild ?p name b = Inr (edge b ?p name \<noteq> nil, b')" "bridge_ok b'" "refs b' = refs b"
        "\<forall>q m. edge b' q m = (if q = ?p \<and> m = name then nil else edge b q m)"
      using rmChild_ok[OF quiet_ok[OF q assms(1)]] by blast
    have "\<exists>pool. Unlink fs c h name s = Inr (code, (s\<lparr>sy_bridge := b', sy_world := w\<rparr>)\<lparr>sy_pool := pool\<rparr>)"
      unfolding Unlink_def
      by (rule with_child[OF n(1) assms(3)]) (simp add: bindM_def onFS_def onBridge_def assms(4) ret_def True b'(1))
    with True v b' show ?thesis by fastforce
  qed
qed

definition exunlink :: "unit FileSystem" where
  "exunlink = exfs\<lparr>fs_Unlink := (\<lambda>ctx path w. (OK, w)), fs_Rename := (\<lambda>ctx path newPath w. (OK, w))\<rparr>"

theorem Unlink_follows_witness:
  "\<exists>s'. Unlink exunlink 0 exhdr ''d'' (exsys ex1) = Inr (OK, s') \<and>
     edge (sy_bridge s') (node_of ex1 (ih_NodeId exhdr)) ''d'' = nil"
proof -
  have "node_of ex1 (ih_NodeId exhdr) = root ex1" using ex1_facts(9,10) by (simp add: exhdr_def)
  then have 1: "pathOf (node_of (sy_bridge (exsys ex1)) (ih_NodeId exhdr)) (sy_bridge (exsys ex1)) = Inr ('''', ex1)"
    using pathOf_root[of ex1] by simp
  have 2: "fs_Unlink exunlink (ctx_of 0 exhdr) (childPathOf '''' ''d'') (sy_world (exsys ex1)) = (OK, ())"
    by (simp add: exunlink_def)
  have "bridge_ok (sy_bridge (exsys ex1))" "0 < refs (sy_bridge (exsys ex1)) (ih_NodeId exhdr)"
    using ex1_ok ex1_facts(6) by (simp_all add: exhdr_def)
  from Unlink_follows[OF this 1 2] show ?thesis by auto
qed

section \<open>Renames, forgets and created files\<close>

text \<open>
  C9: When the file system carries out a rename, it was given the paths of the two names, and afterwards the
  inode has the second one as its path: \<open>pathOf\<close> answers what the file system was told. What is below the inode
  moves along, and all else keeps its path, but for what was below the entry that the move has replaced. No
  count changes.
\<close>

theorem Rename_path:
  fixes s :: "'w sys"
  assumes "bridge_ok (sy_bridge s)" "names_plain (sy_bridge s)" "rn_Flags h = 0"
    and "0 < refs (sy_bridge s) (ih_NodeId h)" "0 < refs (sy_bridge s) (rn_Newdir h)"
    and "p = node_of (sy_bridge s) (ih_NodeId h)" "q = node_of (sy_bridge s) (rn_Newdir h)"
    and "named (sy_bridge s) p ns" "named (sy_bridge s) q ms"
    and "a = edge (sy_bridge s) p name" "d = edge (sy_bridge s) q newName" "a \<noteq> nil" "move_ok (sy_bridge s) p name q"
    and "fs_Rename fs (ctx_of c h) (join ''/'' (ns @ [name])) (join ''/'' (ms @ [newName])) (sy_world s) = (OK, w)"
  shows "\<exists>s'. Rename fs c h name newName s = Inr (OK, s') \<and> sy_world s' = w \<and> bridge_ok (sy_bridge s') \<and>
    refs (sy_bridge s') = refs (sy_bridge s) \<and>
    pathOf a (sy_bridge s') = Inr (join ''/'' (ms @ [newName]), sy_bridge s') \<and>
    (\<forall>x ks. led (sy_bridge s) a x ks \<and> (\<forall>ts. \<not> led (sy_bridge s) d x ts) \<longrightarrow>
       pathOf x (sy_bridge s') = Inr (join ''/'' (ms @ newName # ks), sy_bridge s')) \<and>
    (\<forall>x ks. named (sy_bridge s) x ks \<and> (\<forall>ts. \<not> led (sy_bridge s) a x ts) \<and> (\<forall>ts. \<not> led (sy_bridge s) d x ts) \<longrightarrow>
       pathOf x (sy_bridge s') = Inr (join ''/'' ks, sy_bridge s'))"
proof -
  let ?b = "sy_bridge s"
  have t: "tree_ok ?b" "acyclic (down ?b)" using assms(1) by (simp_all add: bridge_ok_def)
  note n = refs_pos[OF assms(4)] and n' = refs_pos[OF assms(5)]
  have p: "valid ?b p" "lookups ?b p \<noteq> 0" and q: "valid ?b q" "registered ?b q" "lookups ?b q \<noteq> 0"
    using table_valid[OF t(1) n(1)] table_valid[OF t(1) n'(1)] n n' by (simp_all add: assms(6,7))
  obtain b' where b': "mvChild p name q newName True ?b = Inr (True, b')" "bridge_ok b'" "refs b' = refs ?b"
      "b' = move_st p name q newName ?b"
    using mvChild_ok[OF assms(1) p(1) q(1,2) p(2) q(3) assms(13)] by blast
  have d: "isDir (heap ?b q)" "(edge ?b p name, q) \<notin> (down ?b)\<^sup>*" using assms(13) by (simp_all add: move_ok_def)
  have r: "root (move_st p name q newName ?b) = root ?b" by (rule move_views(4)[OF t(1) p(1) q(1,2) d(1)])
  have m: "named b' a (ms @ [newName])"
    unfolding b'(4) assms(10)
    by (rule move_named[OF t(1) p(1) q(1,2) d(1) assms(12)[unfolded assms(10)] assms(9) t(2) d(2)])
  note path = pathOf_named[OF m]
  have below: "pathOf x b' = Inr (join ''/'' (ms @ newName # ks), b')"
    if "led ?b a x ks" "\<forall>ts. \<not> led ?b d x ts" for x ks
  proof -
    from move_below[OF r m[unfolded b'(4) assms(10)] that(1)[unfolded assms(10)]] that(2)
    have "named b' x ((ms @ [newName]) @ ks)" unfolding b'(4) assms(11) by blast
    from pathOf_named[OF this] show ?thesis by simp
  qed
  have beside: "pathOf x b' = Inr (join ''/'' ks, b')"
    if "named ?b x ks" "\<forall>ts. \<not> led ?b a x ts" "\<forall>ts. \<not> led ?b d x ts" for x ks
  proof -
    from move_beside[OF r that(1)] that(2,3) have "named b' x ks" unfolding b'(4) assms(10,11) by blast
    then show ?thesis by (rule pathOf_named)
  qed
  have c1: "pathOf (node_of ?b (ih_NodeId h)) ?b = Inr (join ''/'' ns, ?b)"
    and c2: "pathOf (node_of ?b (rn_Newdir h)) ?b = Inr (join ''/'' ms, ?b)"
    using pathOf_named[OF assms(8)] pathOf_named[OF assms(9)] assms(6,7) by simp_all
  have j: "childPathOf (join ''/'' ns) name = join ''/'' (ns @ [name])"
    "childPathOf (join ''/'' ms) newName = join ''/'' (ms @ [newName])"
    using childPathOf_named[OF t(1) assms(2) p(1) assms(8)] childPathOf_named[OF t(1) assms(2) q(1) assms(9)] by simp_all
  have second: "child_path (rn_Newdir h) newName (s\<lparr>sy_pool := pool\<rparr>) =
      Inr ((q, join ''/'' (ms @ [newName])), s\<lparr>sy_pool := pool\<rparr>)" for pool
    using child_path_at[of "s\<lparr>sy_pool := pool\<rparr>" "rn_Newdir h" "join ''/'' ms" ?b newName] n'(1) c2 j(2)
    by (simp add: assms(7))
  have "\<exists>pool. Rename fs c h name newName s = Inr (OK, (s\<lparr>sy_bridge := b', sy_world := w\<rparr>)\<lparr>sy_pool := pool\<rparr>)"
    unfolding Rename_def assms(3) simp_thms if_False
    by (rule with_child[OF n(1) c1])
      (use b'(1) assms(6) in \<open>simp add: bindM_def second j(1) onFS_def assms(14) onBridge_def ret_def\<close>)
  then obtain pool where
    "Rename fs c h name newName s = Inr (OK, s\<lparr>sy_bridge := b', sy_world := w, sy_pool := pool\<rparr>)" by auto
  then show ?thesis using b'(2,3) path below beside
    by (intro exI[of _ "s\<lparr>sy_bridge := b', sy_world := w, sy_pool := pool\<rparr>"]) simp
qed

text \<open>
  \<open>Forget\<close> keeps only the low 32 bits of the count it is given: of a multiple of 2 ^ 32 it takes back
  nothing.
\<close>

theorem Forget_truncates:
  assumes "bridge_ok (sy_bridge s)" "0 < refs (sy_bridge s) i" "(ucast n :: u32) = 0"
  shows "Forget i n s = Inr ((), s)"
proof -
  note r = refs_pos[OF assms(2)]
  have t: "tree_ok (sy_bridge s)" using assms(1) by (simp add: bridge_ok_def)
  have v: "valid (sy_bridge s) (node_of (sy_bridge s) i)" "registered (sy_bridge s) (node_of (sy_bridge s) i)"
    using table_valid[OF t r(1)] by simp_all
  from remove_ref_spec[OF t v, of 0] r(2)
  have "remove_ref (node_of (sy_bridge s) i) 0 (sy_bridge s) = Inr (False, sy_bridge s)" by auto
  with r(1) assms(3) show ?thesis
    by (simp add: Forget_def onBridge_def bindM_def inodeSafe_apply ret_def)
qed

theorem Forget_truncates_witness:
  "Forget 2 0x100000000 (exsys ex2) = Inr ((), exsys ex2)"
proof -
  have "go_get (nodes ex2) 2 = 2" by code_simp
  then have "0 < refs ex2 2" using ex2_facts(13) by (simp add: refs_def)
  with Forget_truncates[of "exsys ex2" 2 "0x100000000"] ex2_ok show ?thesis by simp
qed

text \<open>
  \<open>compactMemory\<close> keeps the table and everything else but the high mark, and the high mark ends up at
  most a hundred times the size of the table.
\<close>

theorem compactMemory_keeps:
  "\<exists>b'. compactMemory b = Inr ((), b') \<and> nodes b' = nodes b \<and> b'\<lparr>nodeCountHigh := nodeCountHigh b\<rparr> = b \<and>
    nodeCountHigh b' \<le> 100 * length (nodes b') \<and> (length (nodes b) \<le> nodeCountHigh b \<longrightarrow> length (nodes b') \<le> nodeCountHigh b')"
  by (simp add: compactMemory_apply)

theorem compactMemory_keeps_witness:
  "\<exists>b'. compactMemory (ex2\<lparr>nodeCountHigh := 1000\<rparr>) = Inr ((), b') \<and> nodeCountHigh b' = 3"
proof -
  have "length (nodes ex2) = 3" by code_simp
  with compactMemory_keeps[of "ex2\<lparr>nodeCountHigh := 1000\<rparr>"] show ?thesis
    by (auto simp: compactMemory_apply)
qed

text \<open>
  C40: When the file system has created and opened a file and then fails to report its attributes, \<open>Create\<close>
  answers the error: the open file is in no entry of the table, and the file system is not told to release it.
\<close>

theorem Create_forgets_file:
  assumes "bridge_ok (sy_bridge s)" "0 < refs (sy_bridge s) (ih_NodeId h)"
    and "pathOf (node_of (sy_bridge s) (ih_NodeId h)) (sy_bridge s) = Inr (path, b)"
    and "fs_Create fs (ctx_of c h) (childPathOf path name) flags mode (sy_world s) = ((uFh, dio, OK), w1)"
    and "fs_GetAttr fs (ctx_of c h) (childPathOf path name) 0 (eo_Attr eo) w1 = ((code, attr), w2)" "code \<noteq> OK"
  shows "\<exists>s'. Create fs lib c h flags mode name eo oo s = Inr ((code, eo\<lparr>eo_Attr := attr\<rparr>, oo), s') \<and>
    sy_world s' = w2 \<and> open_files (sy_bridge s') = open_files (sy_bridge s)"
proof -
  let ?p = "node_of (sy_bridge s) (ih_NodeId h)"
  note n = refs_pos[OF assms(2)]
  have q: "quiet (sy_bridge s) b" using pathOf_quiet[OF assms(1) n(1) assms(3)] .
  have l: "lookup fs lib (ctx_of c h) (childPathOf path name) ?p name eo
      (s\<lparr>sy_bridge := b, sy_pool := pool, sy_world := w1\<rparr>) =
      Inr ((code, eo\<lparr>eo_Attr := attr\<rparr>), s\<lparr>sy_bridge := b, sy_pool := pool, sy_world := w2\<rparr>)" for pool
    using lookup_error[of fs _ _ eo "s\<lparr>sy_bridge := b, sy_pool := pool, sy_world := w1\<rparr>" code attr w2] assms(5,6) by simp
  have "\<exists>pool. Create fs lib c h flags mode name eo oo s =
      Inr ((code, eo\<lparr>eo_Attr := attr\<rparr>, oo), (s\<lparr>sy_bridge := b, sy_world := w2\<rparr>)\<lparr>sy_pool := pool\<rparr>)"
    unfolding Create_def
    by (rule with_child[OF n(1) assms(3)]) (simp add: bindM_def onFS_def assms(4) l assms(6) ret_def)
  then show ?thesis using quiet_open[OF q] by fastforce
qed

definition excreate :: "unit FileSystem" where
  "excreate = exfs\<lparr>fs_Create := (\<lambda>ctx path flags mode w. ((7, False, OK), w))\<rparr>"

theorem Create_forgets_file_witness:
  "\<exists>r s'. Create excreate exlib 0 exhdr 0 0 ''x'' exout exopen (exsys ex0) = Inr ((Errno 2, r), s') \<and>
     open_files (sy_bridge s') = open_files ex0"
proof -
  have "fs_Create excreate (ctx_of 0 exhdr) (childPathOf '''' ''x'') 0 0 (sy_world (exsys ex0)) = ((7, False, OK), ())"
    "fs_GetAttr excreate (ctx_of 0 exhdr) (childPathOf '''' ''x'') 0 (eo_Attr exout) () = ((Errno 2, eo_Attr exout), ())"
    by (simp_all add: excreate_def exfs_def childPathOf_def)
  moreover have "bridge_ok (sy_bridge (exsys ex0))" "0 < refs (sy_bridge (exsys ex0)) (ih_NodeId exhdr)"
    using ex0_ok ex0_facts(5) by (simp_all add: exhdr_def)
  moreover have "pathOf (node_of (sy_bridge (exsys ex0)) (ih_NodeId exhdr)) (sy_bridge (exsys ex0)) = Inr ('''', ex0)"
    using ex0_root(2) by simp
  ultimately show ?thesis
    using Create_forgets_file[of "exsys ex0" exhdr "''''" ex0 excreate 0 "''x''" 0 0 7 False "()" exout "Errno 2" "eo_Attr exout" "()" exlib exopen]
    by auto
qed


definition exrename :: RenameIn where
  "exrename = \<lparr>ih_NodeId = 1, ih_Caller = Caller_zero, rn_Newdir = 1, rn_Flags = 0\<rparr>"

lemma ex2_refs: "refs ex2 2 = 1" "refs ex2 1 = 1" "node_of ex2 2 = 2" "node_of ex2 1 = 1"
  by code_simp+

theorem Rename_path_witness:
  "\<exists>s'. Rename exunlink 0 exrename ''d'' ''y'' (exsys ex2) = Inr (OK, s') \<and>
     pathOf 2 (sy_bridge s') = Inr (''y'', sy_bridge s') \<and> pathOf 3 (sy_bridge s') = Inr (''y/x'', sy_bridge s')"
proof -
  have "(2, 1) \<notin> (down ex2)\<^sup>*"
  proof
    assume "(2, 1) \<in> (down ex2)\<^sup>*"
    moreover have "(1, 2) \<in> down ex2" using ex2_facts(1,9) by (auto simp: down_def)
    ultimately have "(1, 1) \<in> (down ex2)\<^sup>+" by (rule rtrancl_into_trancl2[rotated])
    with ex2_tree(2) show False by (simp add: acyclic_def)
  qed
  then have m: "move_ok ex2 1 ''d'' 1" using ex2_facts(7,9) by (simp add: move_ok_def)
  have f: "fs_Rename exunlink (ctx_of 0 exrename) (join ''/'' ([] @ [''d''])) (join ''/'' ([] @ [''y''])) () = (OK, ())"
    by (simp add: exunlink_def)
  have r: "rn_Flags exrename = 0" "0 < refs ex2 (ih_NodeId exrename)" "0 < refs ex2 (rn_Newdir exrename)"
    "1 = node_of ex2 (ih_NodeId exrename)" "1 = node_of ex2 (rn_Newdir exrename)"
    using ex2_refs by (simp_all add: exrename_def)
  have "parents_get (parents (heap ex2 3)) = pent ''x'' 2" by code_simp
  then have l: "led ex2 2 3 [''x'']"
    using led_step[of 3 2 ex2 "pent ''x'' 2" "[]"] led_refl[of ex2 2] ex2_facts(15) by simp
  have n: "\<not> led ex2 nil 3 ts" for ts using led_nil[of ex2 3 ts] by auto
  from Rename_path[of "exsys ex2" exrename 1 1 "[]" "[]" 2 "''d''" nil "''y''" exunlink 0 "()"]
    ex2_ok ex2_plain r ex2_named(1) ex2_facts(9,11) m f
  obtain s' where s': "Rename exunlink 0 exrename ''d'' ''y'' (exsys ex2) = Inr (OK, s')"
    "pathOf 2 (sy_bridge s') = Inr (''y'', sy_bridge s')"
    "\<forall>x ks. led ex2 2 x ks \<and> (\<forall>ts. \<not> led ex2 nil x ts) \<longrightarrow>
       pathOf x (sy_bridge s') = Inr (join ''/'' (''y'' # ks), sy_bridge s')"
    by (auto simp del: One_nat_def)
  from s'(3) l n have "pathOf 3 (sy_bridge s') = Inr (join ''/'' [''y'', ''x''], sy_bridge s')" by blast
  with s'(1,2) show ?thesis by auto
qed

section \<open>The default file system\<close>

text \<open>\<open>yields m P\<close>: whatever \<open>m\<close> returns has the property \<open>P\<close>.\<close>

definition yields :: "('s, 'a) M \<Rightarrow> ('a \<Rightarrow> bool) \<Rightarrow> bool" where
  "yields m P \<longleftrightarrow> (\<forall>s r s'. m s = Inr (r, s') \<longrightarrow> P r)"

lemma yields_weaken: "yields m Q \<Longrightarrow> (\<And>r. Q r \<Longrightarrow> P r) \<Longrightarrow> yields m P"
  by (auto simp: yields_def)

lemma yieldsD: "yields m P \<Longrightarrow> m s = Inr (r, s') \<Longrightarrow> P r"
  by (auto simp: yields_def)

lemma yields_ret: "P r \<Longrightarrow> yields (ret r) P"
  by (simp add: yields_def ret_def)

lemma yields_bind: "(\<And>x. yields (k x) P) \<Longrightarrow> yields (bindM m k) P"
  by (auto simp: yields_def bindM_def split: sum.splits)

lemma yields_FS: "(\<And>w. \<exists>w'. f w = (x, w')) \<Longrightarrow> yields (k x) P \<Longrightarrow> yields (bindM (onFS f) k) P"
  unfolding yields_def bindM_def onFS_def by (auto split: sum.splits prod.splits simp: Let_def) (metis Pair_inject)

lemma yields_Context: "(\<And>ctx. yields (body ctx) P) \<Longrightarrow> yields (withContext c caller body) P"
  by (auto simp: yields_def withContext_eq split: sum.splits)

lemma yields_mapM: "yields m (\<lambda>r. P (f r)) \<Longrightarrow> yields (mapM f m) P"
  by (auto simp: yields_def mapM_def bindM_def ret_def split: sum.splits)

lemma lookup_default:
  "yields (lookup DefaultFileSystem lib ctx path p name out) (\<lambda>r. fst r \<noteq> OK \<and> eo_NodeId (snd r) = eo_NodeId out)"
  unfolding lookup_def
  by (rule yields_FS[where x = "(ENOSYS, eo_Attr out)"])
    (auto simp: DefaultFileSystem_def defaultFileSystem_def Let_def intro: yields_ret)

lemma yields_lookup:
  "(\<And>code eo. code \<noteq> OK \<Longrightarrow> eo_NodeId eo = eo_NodeId out \<Longrightarrow> yields (k (code, eo)) P) \<Longrightarrow>
    yields (bindM (lookup DefaultFileSystem lib ctx path p name out) k) P"
proof -
  assume k: "\<And>code eo. code \<noteq> OK \<Longrightarrow> eo_NodeId eo = eo_NodeId out \<Longrightarrow> yields (k (code, eo)) P"
  have "P r" if b: "bindM (lookup DefaultFileSystem lib ctx path p name out) k s = Inr (r, s')" for s r s'
  proof -
    obtain x s1 where x: "lookup DefaultFileSystem lib ctx path p name out s = Inr (x, s1)" "k x s1 = Inr (r, s')"
      using b by (auto simp: bindM_eq_Inr)
    have "fst x \<noteq> OK" "eo_NodeId (snd x) = eo_NodeId out" using yieldsD[OF lookup_default x(1)] by simp_all
    then have "yields (k (fst x, snd x)) P" by (rule k)
    then show "P r" using x(2) by (simp add: yields_def) blast
  qed
  then show ?thesis by (simp add: yields_def)
qed

lemma default_calls:
  "fs_Mknod DefaultFileSystem ctx path m d w = (ENOSYS, w)" "fs_Mkdir DefaultFileSystem ctx path m w = (ENOSYS, w)"
  "fs_Link DefaultFileSystem ctx path path' w = (ENOSYS, w)" "fs_Symlink DefaultFileSystem ctx path path' w = (ENOSYS, w)"
  "fs_Create DefaultFileSystem ctx path fl m w = ((0, False, ENOSYS), w)"
  by (simp_all add: DefaultFileSystem_def defaultFileSystem_def)

lemma entry_requests_default:
  "yields (Lookup DefaultFileSystem lib c h name eo) (\<lambda>r. fst r \<noteq> OK)"
  "yields (Mknod DefaultFileSystem lib c h mode rdev name eo) (\<lambda>r. fst r \<noteq> OK)"
  "yields (Mkdir DefaultFileSystem lib c h mode name eo) (\<lambda>r. fst r \<noteq> OK)"
  "yields (Link DefaultFileSystem lib c h old name eo) (\<lambda>r. fst r \<noteq> OK)"
  "yields (Symlink DefaultFileSystem lib c h target name eo) (\<lambda>r. fst r \<noteq> OK)"
  "yields (Create DefaultFileSystem lib c h flags mode name eo oo) (\<lambda>r. fst r \<noteq> OK)"
proof -
  note rules = yields_Context yields_bind yields_ret yields_lookup
  note fails = yields_FS[where x = ENOSYS] yields_FS[where x = "(0, False, ENOSYS)"]
  show "yields (Lookup DefaultFileSystem lib c h name eo) (\<lambda>r. fst r \<noteq> OK)"
    unfolding Lookup_def case_prod_unfold
    by (rule yields_Context, rule yields_bind, rule yields_lookup) (simp, intro yields_bind yields_ret, simp)
  show "yields (Mknod DefaultFileSystem lib c h mode rdev name eo) (\<lambda>r. fst r \<noteq> OK)"
    "yields (Mkdir DefaultFileSystem lib c h mode name eo) (\<lambda>r. fst r \<noteq> OK)"
    "yields (Link DefaultFileSystem lib c h old name eo) (\<lambda>r. fst r \<noteq> OK)"
    "yields (Symlink DefaultFileSystem lib c h target name eo) (\<lambda>r. fst r \<noteq> OK)"
    "yields (Create DefaultFileSystem lib c h flags mode name eo oo) (\<lambda>r. fst r \<noteq> OK)"
    unfolding Mknod_def Mkdir_def Link_def Symlink_def Create_def case_prod_unfold
    by (intro yields_Context yields_bind fails; simp add: default_calls yields_ret)+
qed

lemma no_entry:
  "yields (mapM plain_of m) (\<lambda>rep. reply_entries rep = [])"
  "yields (mapM handle_of n) (\<lambda>rep. reply_entries rep = [])"
  unfolding mapM_def by (intro yields_bind yields_ret; simp add: plain_of_def handle_of_def)+

lemma failed_entry:
  "yields m (\<lambda>r. fst r \<noteq> OK) \<Longrightarrow> yields (mapM entry_of m) (\<lambda>rep. reply_entries rep = [])"
  "yields n (\<lambda>r. fst r \<noteq> OK) \<Longrightarrow> yields (mapM both_of n) (\<lambda>rep. reply_entries rep = [])"
  by (rule yields_mapM, erule yields_weaken, simp add: entry_of_def both_of_def)+

text \<open>A listing gets no number: every look-up fails and leaves the entry as \<open>AddDirLookupEntry\<close> made it.\<close>

lemma ReadDirPlus_loop_default:
  "entries_ok lib \<Longrightarrow>
    yields (ReadDirPlus_loop DefaultFileSystem lib ctx path p es out :: ('w sys, 'd) M)
      (\<lambda>d. lib_NodeIds lib d = lib_NodeIds lib out)"
proof (induction es arbitrary: out)
  case (Cons e es)
  let ?P = "\<lambda>d. lib_NodeIds lib d = lib_NodeIds lib out"
  obtain r d where a: "lib_AddDirLookupEntry lib e out = (r, d)" by (metis surj_pair)
  have IH: "lib_NodeIds lib d' = lib_NodeIds lib out \<Longrightarrow>
      yields (ReadDirPlus_loop DefaultFileSystem lib ctx path p es d' :: ('w sys, 'd) M) ?P" for d'
    using Cons.IH[OF Cons.prems, of d'] by simp
  have d: "lib_NodeIds lib d = lib_NodeIds lib out" using a Cons.prems unfolding entries_ok_def by (cases r) blast+
  show ?case
  proof (cases r)
    case None
    with a d IH show ?thesis by (auto intro!: yields_bind yields_ret)
  next
    case (Some eo)
    have n: "eo_NodeId eo = 0" "eo_NodeId eo' = 0 \<Longrightarrow> lib_NodeIds lib (lib_SetLookupEntry lib eo' d) = lib_NodeIds lib out"
      for eo'
      using a Some Cons.prems unfolding entries_ok_def by auto
    show ?thesis using a Some d n IH by (auto intro!: yields_bind yields_lookup)
  qed
qed (simp add: yields_ret)

lemma listing_default:
  assumes "fuse_ok lib out"
  shows "yields (mapM (listing_of lib) (ReadDirPlus DefaultFileSystem lib c h off out)) (\<lambda>rep. reply_entries rep = [])"
proof (rule yields_mapM)
  have e: "entries_ok lib" "lib_NodeIds lib out = []" using assms by (simp_all add: fuse_ok_def)
  have l: "yields (bindM (ReadDirPlus_loop DefaultFileSystem lib ctx path p es out) (\<lambda>out'. ret (OK, out')))
      (\<lambda>r. lib_NodeIds lib (snd r) = [])" for ctx path p es
    using ReadDirPlus_loop_default[OF e(1), of ctx path p es out]
    by (auto simp: yields_def bindM_eq_Inr ret_def e(2))
  have "yields (ReadDirPlus DefaultFileSystem lib c h off out) (\<lambda>r. lib_NodeIds lib (snd r) = [])"
    unfolding ReadDirPlus_def case_prod_unfold
    by (intro yields_Context yields_bind) (auto intro: yields_ret l simp: e(2) split: sum.split)
  then show "yields (ReadDirPlus DefaultFileSystem lib c h off out) (\<lambda>r. reply_entries (listing_of lib r) = [])"
    by (simp add: listing_of_def)
qed

lemma serve_default:
  "fuse_ok lib out \<Longrightarrow> yields (serve DefaultFileSystem lib out req) (\<lambda>rep. reply_entries rep = [])"
  by (cases req) (simp_all add: no_entry failed_entry entry_requests_default listing_default)

text \<open>
  C37: over the default file system a session never gets a second inode: no request is answered with an entry,
  and the table holds the root only.
\<close>

theorem default_session:
  assumes "fuse_ok lib out" "session DefaultFileSystem lib out s K H"
  shows "NodeCount (sy_bridge s) = Inr (1, sy_bridge s) \<and> (\<forall>i. K i = (if i = 1 then 1 else 0))"
proof -
  have K: "\<forall>i. K i = (if i = 1 then 1 else 0)"
    using assms(2)
  proof (induction rule: session.induct)
    case (session_request s K H req rep s')
    have "refs (sy_bridge s) = K" using session_inv[OF assms(1) session_request.hyps(1)] by simp
    with session_request.hyps(2) session_request.IH
    have f: "req = Req_Forget i n \<Longrightarrow> n = 0" for i n by (auto split: if_splits simp: unat_eq_0)
    have "reply_entries rep = []" using yieldsD[OF serve_default[OF assms(1)] session_request.hyps(3)] .
    with f session_request.IH show ?case by (auto simp: counted_def split: request.split)
  qed simp
  have "bridge_ok (sy_bridge s)" "refs (sy_bridge s) = K" using session_inv[OF assms] by simp_all
  with K one_node[of "sy_bridge s"] show ?thesis by (simp add: NodeCount_def getsM_def)
qed

theorem default_session_witness:
  "\<exists>s. session DefaultFileSystem exlib [] (s :: unit sys) ((\<lambda>_. 0)(1 := 1)) {} \<and>
     NodeCount (sy_bridge s) = Inr (1, sy_bridge s)"
proof -
  have "session DefaultFileSystem exlib [] (exsys ex0) ((\<lambda>_. 0)(1 := 1)) {}"
    unfolding exsys_def by (rule session_start[OF ex0_new])
  with default_session[OF exlib_fuse this] show ?thesis by blast
qed

section \<open>Entries that outlive their use\<close>

text \<open>
  A file is looked up under two names, and the file system later answers another number for the first one, whose
  parent entry \<open>addChild\<close> then leaves in the file. After the directory has been forgotten and looked up anew the
  forgotten file takes the new directory out of the table.
\<close>

definition exstale :: "(rawBridge, addr \<times> bool) M" where
  "exstale =
    bindM (addChild 1 ''d'' 2 True) (\<lambda>d.
    bindM (addChild d ''x'' 3 False) (\<lambda>x.
    bindM (addChild 1 ''y'' 3 False) (\<lambda>_.
    bindM (addChild d ''x'' 4 False) (\<lambda>m.
    bindM (rmChild 1 ''y'') (\<lambda>_.
    bindM (remove_ref m 1) (\<lambda>_.
    bindM (remove_ref d 1) (\<lambda>_.
    bindM (addChild 1 ''d'' 2 True) (\<lambda>d2.
    bindM (remove_ref x 2) (\<lambda>removed. ret (d2, removed))))))))))"

text \<open>
  C39: from the first state of a bridge on, a sequence of look-ups and forgets in which the kernel keeps to its
  counts takes an inode out of the table on which a reference is left; the next request on it panics.
\<close>

theorem stale_parent:
  "\<exists>d b. exstale ex0 = Inr ((d, True), b) \<and> inum b d = 2 \<and> lookups b d = 1 \<and> edge b 1 ''d'' = d \<and>
     bridge_inode 2 b = Inl (Panic_unknown_node 2)"
proof -
  have "case exstale ex0 of
      Inr ((d, r), b) \<Rightarrow> r \<and> inum b d = 2 \<and> lookups b d = 1 \<and> edge b 1 ''d'' = d \<and> go_get (nodes b) 2 = nil
    | Inl _ \<Rightarrow> False"
    by code_simp
  then show ?thesis by (auto simp: bridge_inode_apply split: sum.splits prod.splits)
qed

end
