(* ===== verification/Syscalls_Theorems.thy ===== *)
theory Syscalls_Theorems
  imports Syscalls Bridge_Theorems
begin

text \<open>
  The loops over \<open>getxattr\<close> and \<open>listxattr\<close> end, and answer what the kernel has when it
  does not change in between: \<open>listXAttr\<close> reads back the list of names that \<open>ListXAttr\<close> of
  the bridge writes. When the list grows in between, \<open>listXAttr\<close> panics. The two platforms
  agree, but for a value of no bytes.
\<close>

section \<open>The platforms\<close>

lemma platforms:
  "darwin_getXAttrSyscall K = linux_getXAttrSyscall K" "darwin_listXAttrSyscall K = linux_listXAttrSyscall K"
  "darwin_removeXAttr K = linux_removeXAttr K"
  "data \<noteq> [] \<Longrightarrow> darwin_setXAttr K path attr data flags = linux_setXAttr K path attr data flags"
  by (simp_all add: fun_eq_iff darwin_getXAttrSyscall_def linux_getXAttrSyscall_def Getxattr_def err_of_def
      darwin_listXAttrSyscall_def linux_listXAttrSyscall_def Listxattr_def darwin_removeXAttr_def linux_removeXAttr_def
      Removexattr_def darwin_setXAttr_def linux_setXAttr_def Setxattr_def split: sum.split)

lemma calls_platform:
  "getXAttrSyscall os K = Getxattr K" "listXAttrSyscall os K = Listxattr K"
  by (cases os; simp add: getXAttrSyscall_def listXAttrSyscall_def platforms linux_getXAttrSyscall_def
      linux_listXAttrSyscall_def fun_eq_iff)+

section \<open>Calls end\<close>

text \<open>
  What the manual of \<open>getxattr(2)\<close> and \<open>listxattr(2)\<close> says of the size: with a buffer the
  answer fits it, or the call fails.
\<close>

definition kernel_sized :: "'k kernel \<Rightarrow> bool" where
  "kernel_sized K \<longleftrightarrow>
     (\<forall>p a n k sz w e k'. sys_getxattr K p a n k = ((sz, w, e), k') \<longrightarrow> e = 0 \<longrightarrow> 0 \<le> sz \<and> (0 < n \<longrightarrow> sz \<le> int n)) \<and>
     (\<forall>p n k sz w e k'. sys_listxattr K p n k = ((sz, w, e), k') \<longrightarrow> e = 0 \<longrightarrow> 0 \<le> sz \<and> (0 < n \<longrightarrow> sz \<le> int n))"

definition sized :: "(bytes \<Rightarrow> ('k, int \<times> errno option \<times> bytes) M) \<Rightarrow> bool" where
  "sized call \<longleftrightarrow>
     (\<forall>d k. \<exists>sz err d' k'. call d k = Inr ((sz, err, d'), k') \<and> length d' = length d \<and>
        (err = None \<longrightarrow> 0 \<le> sz \<and> (d \<noteq> [] \<longrightarrow> sz \<le> int (length d))))"

lemma length_copy_into [simp]: "length (copy_into dest w) = length dest"
  by (simp add: copy_into_def)

lemma calls_sized:
  assumes "kernel_sized K"
  shows "sized (getXAttrSyscall os K path attr)" "sized (listXAttrSyscall os K path)"
proof -
  show "sized (getXAttrSyscall os K path attr)"
    unfolding sized_def calls_platform
  proof (intro allI)
    fix d :: bytes and k
    obtain sz w e k' where c: "sys_getxattr K path attr (length d) k = ((sz, w, e), k')" by (metis surj_pair)
    have "e = 0 \<longrightarrow> 0 \<le> sz \<and> (0 < length d \<longrightarrow> sz \<le> int (length d))"
      using assms c unfolding kernel_sized_def by blast
    with c show "\<exists>sz err d' k'. Getxattr K path attr d k = Inr ((sz, err, d'), k') \<and> length d' = length d \<and>
        (err = None \<longrightarrow> 0 \<le> sz \<and> (d \<noteq> [] \<longrightarrow> sz \<le> int (length d)))"
      by (auto simp: Getxattr_def BytePtrFromString_def bindM_def sysM_def ret_def err_of_def)
  qed
  show "sized (listXAttrSyscall os K path)"
    unfolding sized_def calls_platform
  proof (intro allI)
    fix d :: bytes and k
    obtain sz w e k' where c: "sys_listxattr K path (length d) k = ((sz, w, e), k')" by (metis surj_pair)
    have "e = 0 \<longrightarrow> 0 \<le> sz \<and> (0 < length d \<longrightarrow> sz \<le> int (length d))"
      using assms c unfolding kernel_sized_def by blast
    with c show "\<exists>sz err d' k'. Listxattr K path d k = Inr ((sz, err, d'), k') \<and> length d' = length d \<and>
        (err = None \<longrightarrow> 0 \<le> sz \<and> (d \<noteq> [] \<longrightarrow> sz \<le> int (length d)))"
      by (auto simp: Listxattr_def BytePtrFromString_def bindM_def sysM_def ret_def err_of_def)
  qed
qed

lemma sizedE:
  assumes "sized call"
  obtains sz err d' k' where "call d k = Inr ((sz, err, d'), k')" "length d' = length d"
    "err = None \<Longrightarrow> 0 \<le> sz" "err = None \<Longrightarrow> d \<noteq> [] \<Longrightarrow> sz \<le> int (length d)"
  using assms unfolding sized_def by metis

text \<open>Two rounds are enough, whatever happens to the value between the calls.\<close>

lemma fetch_loop_ends:
  assumes "sized call" "2 \<le> rounds" "err = None \<Longrightarrow> 0 \<le> sz"
  shows "\<exists>sz' err' d' k'. fetch_loop rounds call sz err [] k = Inr ((sz', err', d'), k') \<and>
    (err' = None \<longrightarrow> 0 \<le> sz' \<and> sz' \<le> int (length d'))"
proof -
  obtain n where n: "rounds = Suc (Suc n)" using assms(2) by (metis Suc_le_D numeral_2_eq_2 Suc_le_mono)
  show ?thesis
  proof (cases "0 < sz \<and> err = None")
    case False
    then show ?thesis using assms(3) by (auto simp: n ret_def)
  next
    case True
    obtain sz' err' d' k' where c: "call (replicate (nat sz) (CHR 0x00)) k = Inr ((sz', err', d'), k')"
      "length d' = nat sz" "err' = None \<Longrightarrow> 0 \<le> sz'" "err' = None \<Longrightarrow> sz' \<le> sz"
      by (rule sizedE[OF assms(1), of "replicate (nat sz) (CHR 0x00)" k]) (use True in auto)
    then have "fetch_loop rounds call sz err [] k = Inr ((sz', err', d'), k')"
      using True by (auto simp: n bindM_def ret_def)
    with c True show ?thesis by auto
  qed
qed

text \<open>
  C34: the loops of \<open>getXAttr\<close> and \<open>listXAttr\<close> end after two rounds, however the value changes
  while they run, on both platforms. \<open>getXAttr\<close> always returns; \<open>listXAttr\<close> returns, or
  slices out of bounds.
\<close>

theorem xattr_calls_return:
  assumes "kernel_sized K" "2 \<le> rounds"
  shows "(\<exists>r k'. getXAttr rounds os K path attr k = Inr (r, k')) \<and>
    ((\<exists>r k'. listXAttr rounds os K path k = Inr (r, k')) \<or> listXAttr rounds os K path k = Inl Panic_slice)"
proof (rule conjI)
  obtain sz err d k1 where g: "getXAttrSyscall os K path attr [] k = Inr ((sz, err, d), k1)" "d = []"
    "err = None \<Longrightarrow> 0 \<le> sz"
    by (rule sizedE[OF calls_sized(1)[OF assms(1)], of os path attr "[]" k]) auto
  from fetch_loop_ends[OF calls_sized(1)[OF assms(1)] assms(2) g(3)] obtain sz' err' d' k' where
    "fetch_loop rounds (getXAttrSyscall os K path attr) sz err [] k1 = Inr ((sz', err', d'), k')"
    "err' = None \<longrightarrow> 0 \<le> sz' \<and> sz' \<le> int (length d')" by blast
  with g show "\<exists>r k'. getXAttr rounds os K path attr k = Inr (r, k')"
    by (auto simp: getXAttr_def bindM_def slice_to_def ret_def)
next
  obtain sz err d k1 where g: "listXAttrSyscall os K path [] k = Inr ((sz, err, d), k1)" "d = []"
    "err = None \<Longrightarrow> 0 \<le> sz"
    by (rule sizedE[OF calls_sized(2)[OF assms(1)], of os path "[]" k]) auto
  from fetch_loop_ends[OF calls_sized(2)[OF assms(1)] assms(2) g(3)] obtain sz' err' d' k' where
    "fetch_loop rounds (listXAttrSyscall os K path) sz err [] k1 = Inr ((sz', err', d'), k')"
    "err' = None \<longrightarrow> 0 \<le> sz' \<and> sz' \<le> int (length d')" by blast
  with g show "(\<exists>r k'. listXAttr rounds os K path k = Inr (r, k')) \<or> listXAttr rounds os K path k = Inl Panic_slice"
    by (cases "sz' = 0"; cases "err") (auto simp: listXAttr_def bindM_def slice_to_def ret_def fail_def)
qed

section \<open>What they answer\<close>

text \<open>A value that does not change: its size for an empty buffer, else the value or ERANGE.\<close>

definition answers :: "bytes \<Rightarrow> nat \<Rightarrow> int \<times> bytes \<times> errno" where
  "answers value n =
    (if n = 0 then (int (length value), [], 0)
     else if length value \<le> n then (int (length value), value, 0) else (- 1, [], E_RANGE))"

lemma fetch_value:
  assumes "\<And>d. call d k = (case answers value (length d) of (sz, w, e) \<Rightarrow> Inr ((sz, err_of e, copy_into d w), k))"
    and "2 \<le> rounds"
  shows "fetch_loop rounds call (int (length value)) None [] k = Inr ((int (length value), None, value), k)"
proof -
  obtain n where n: "rounds = Suc (Suc n)" using assms(2) by (metis Suc_le_D numeral_2_eq_2 Suc_le_mono)
  have "call (replicate (length value) (CHR 0x00)) k = Inr ((int (length value), None, value), k)" if "value \<noteq> []"
    using that by (simp add: assms(1) answers_def err_of_def copy_into_def)
  then show ?thesis by (cases "value = []") (simp_all add: n bindM_def ret_def)
qed

theorem getXAttr_value:
  assumes "\<And>n. sys_getxattr K path attr n k = (answers value n, k)" "CHR 0x00 \<notin> set path" "CHR 0x00 \<notin> set attr"
    and "2 \<le> rounds"
  shows "getXAttr rounds os K path attr k = Inr ((value, None), k)"
proof -
  have c: "getXAttrSyscall os K path attr d k =
      (case answers value (length d) of (sz, w, e) \<Rightarrow> Inr ((sz, err_of e, copy_into d w), k))" for d
    by (simp add: calls_platform Getxattr_def BytePtrFromString_def assms(1-3) bindM_def sysM_def ret_def split: prod.splits)
  have "getXAttrSyscall os K path attr [] k = Inr ((int (length value), None, []), k)"
    by (simp add: c answers_def err_of_def copy_into_def)
  then show ?thesis
    using fetch_value[of "getXAttrSyscall os K path attr", OF c assms(4)]
    by (simp add: getXAttr_def bindM_def slice_to_def ret_def)
qed

text \<open>Splitting undoes closing each name with a zero byte.\<close>

lemma split_one: "c \<notin> set v \<Longrightarrow> bytes_Split c v = [v]"
  by (induction v) auto

lemma split_cons: "c \<notin> set v \<Longrightarrow> bytes_Split c (v @ c # xs) = v # bytes_Split c xs"
  by (induction v) auto

lemma split_names:
  assumes "\<And>v. v \<in> set (names @ [v0]) \<Longrightarrow> c \<notin> set v"
  shows "bytes_Split c (butlast (concat (map (\<lambda>v. v @ [c]) (names @ [v0])))) = names @ [v0]"
  using assms
proof (induction names)
  case (Cons v names)
  let ?t = "concat (map (\<lambda>v. v @ [c]) (names @ [v0]))"
  have "butlast (concat (map (\<lambda>v. v @ [c]) ((v # names) @ [v0]))) = v @ c # butlast ?t"
    by (simp add: butlast_append)
  with Cons show ?case by (simp add: split_cons)
qed (simp add: split_one butlast_append)

text \<open>
  C33: \<open>listXAttr\<close> reads what \<open>ListXAttr\<close> of the bridge writes: for every list of names
  without zero bytes it answers those names, in their order.
\<close>

theorem listXAttr_names:
  assumes "\<And>n. sys_listxattr K path n k = (answers (xattr_append [] names) n, k)" "CHR 0x00 \<notin> set path"
    and "\<And>v. v \<in> set names \<Longrightarrow> CHR 0x00 \<notin> set v" "2 \<le> rounds"
  shows "listXAttr rounds os K path k = Inr ((names, None), k)"
proof -
  let ?list = "xattr_append [] names"
  have l: "?list = concat (map (\<lambda>v. v @ [CHR 0x00]) names)" using xattr_append_concat[of "[]" names] by simp
  have c: "listXAttrSyscall os K path d k =
      (case answers ?list (length d) of (sz, w, e) \<Rightarrow> Inr ((sz, err_of e, copy_into d w), k))" for d
    by (simp add: calls_platform Listxattr_def BytePtrFromString_def assms(1,2) bindM_def sysM_def ret_def split: prod.splits)
  have "listXAttrSyscall os K path [] k = Inr ((int (length ?list), None, []), k)"
    by (simp add: c answers_def err_of_def copy_into_def)
  then have e: "listXAttr rounds os K path k =
      (if ?list = [] then Inr (([], None), k) else Inr ((bytes_Split (CHR 0x00) (butlast ?list), None), k))"
    using fetch_value[of "listXAttrSyscall os K path", OF c assms(4)]
    by (cases "?list = []") (simp_all add: listXAttr_def bindM_def slice_to_def ret_def butlast_conv_take nat_diff_distrib Suc_leI)
  show ?thesis
  proof (cases names rule: rev_cases)
    case Nil
    then show ?thesis using e by simp
  next
    case (snoc ns v0)
    then have "?list \<noteq> []" using l by simp
    moreover have "bytes_Split (CHR 0x00) (butlast ?list) = names"
      unfolding l unfolding snoc by (rule split_names) (use assms(3) snoc in blast)
    ultimately show ?thesis using e by simp
  qed
qed

section \<open>Concrete kernels\<close>

text \<open>A kernel whose file has the names that are its state.\<close>

definition named_kernel :: "string list kernel" where
  "named_kernel = \<lparr>sys_getxattr = (\<lambda>p a n k. (answers a n, k)),
     sys_listxattr = (\<lambda>p n k. (answers (xattr_append [] k) n, k)),
     sys_setxattr = (\<lambda>p a v fl k. (0, k @ [a])), sys_removexattr = (\<lambda>p a k. (0, removeAll a k)),
     sys_utimes = (\<lambda>p tv k. (0, k)), sys_futimes = (\<lambda>fd tv k. (0, k))\<rparr>"

text \<open>The same, but that another process gives the file one more name after each call.\<close>

definition growing_kernel :: "string list kernel" where
  "growing_kernel = named_kernel\<lparr>sys_listxattr := (\<lambda>p n k. (answers (xattr_append [] k) n, k @ [''new'']))\<rparr>"

lemma kernels_sized: "kernel_sized named_kernel" "kernel_sized growing_kernel"
  by (auto simp: kernel_sized_def named_kernel_def growing_kernel_def answers_def split: if_splits)

theorem listXAttr_names_witness:
  "listXAttr 2 Darwin named_kernel ''f'' [''user.a'', ''user.b''] =
     Inr (([''user.a'', ''user.b''], None), [''user.a'', ''user.b''])"
  by (rule listXAttr_names) (auto simp: named_kernel_def)

theorem xattr_calls_return_witness:
  "\<exists>r k'. getXAttr 2 Linux growing_kernel ''f'' ''user.a'' [''b''] = Inr (r, k')"
  using xattr_calls_return[OF kernels_sized(2), of 2 Linux "''f''" "''user.a''" "[''b'']"] by simp

text \<open>
  C35: when the list of names of a file grows between the two system calls, whatever it was and is, \<open>listXAttr\<close>
  does not answer the error of the second call but panics: it slices its buffer at -2.
\<close>

theorem listXAttr_race:
  assumes "\<And>n. sys_listxattr K path n k = (answers list n, k1)" "\<And>n. sys_listxattr K path n k1 = (answers list' n, k2)"
    and "list \<noteq> []" "length list < length list'" "CHR 0x00 \<notin> set path" "2 \<le> rounds"
  shows "listXAttr rounds os K path k = Inl Panic_slice"
proof -
  have c: "listXAttrSyscall os K path d k = (case answers list (length d) of (sz, w, e) \<Rightarrow> Inr ((sz, err_of e, copy_into d w), k1))"
    "listXAttrSyscall os K path d k1 = (case answers list' (length d) of (sz, w, e) \<Rightarrow> Inr ((sz, err_of e, copy_into d w), k2))" for d
    by (simp_all add: calls_platform Listxattr_def BytePtrFromString_def assms(1,2,5) bindM_def sysM_def ret_def split: prod.splits)
  obtain r where r: "rounds = Suc (Suc r)" using assms(6) by (metis add_2_eq_Suc le_Suc_ex)
  show ?thesis
    using assms(3,4)
    by (simp add: listXAttr_def bindM_def c r answers_def err_of_def copy_into_def slice_to_def ret_def fail_def)
qed

theorem listXAttr_race_witness:
  "listXAttr 2 Darwin growing_kernel ''f'' [''user.a''] = Inl Panic_slice"
  by (rule listXAttr_race[where list = "xattr_append [] [''user.a'']" and list' = "xattr_append [] [''user.a'', ''new'']"])
    (auto simp: growing_kernel_def named_kernel_def)

section \<open>Times\<close>

text \<open>
  Both platforms hand the nanoseconds over as microseconds, and a time that is not given
  (a nil pointer) is a panic.
\<close>

lemma timevals_units:
  assumes "0 \<le> tm_Nanosecond a" "tm_Nanosecond a < 1000000000" "0 \<le> tm_Nanosecond m" "tm_Nanosecond m < 1000000000"
  shows "linux_timevals (Some a) (Some m) k =
      Inr ([\<lparr>tv_Sec = tm_Unix a, tv_Usec = tm_Nanosecond a\<rparr>, \<lparr>tv_Sec = tm_Unix m, tv_Usec = tm_Nanosecond m\<rparr>], k)"
    and "darwin_timevals (Some a) (Some m) k = linux_timevals (Some a) (Some m) k"
proof -
  have "sint (word_of_int n :: 64 word) = n" "sint (word_of_int n :: 32 word) = n" if "0 \<le> n" "n < 1000000000" for n
    using that by (simp_all add: sint_sbintrunc' signed_take_bit_int_eq_self)
  with assms show "linux_timevals (Some a) (Some m) k =
      Inr ([\<lparr>tv_Sec = tm_Unix a, tv_Usec = tm_Nanosecond a\<rparr>, \<lparr>tv_Sec = tm_Unix m, tv_Usec = tm_Nanosecond m\<rparr>], k)"
    "darwin_timevals (Some a) (Some m) k = linux_timevals (Some a) (Some m) k"
    by (simp_all add: linux_timevals_def darwin_timevals_def deref_def bindM_def ret_def)
qed

lemma utimes_nil:
  "linux_utimes K path None m k = Inl Panic_nil_pointer" "linux_utimes K path (Some a) None k = Inl Panic_nil_pointer"
  by (simp_all add: linux_utimes_def linux_timevals_def deref_def bindM_def fail_def ret_def)

end
