(* ===== verification/Dump.thy ===== *)
theory Dump
  imports Tree
begin

text \<open>
  Handing the state of a bridge over to another process (\<open>dump.go\<close>, and \<open>Dump\<close> and
  \<open>Restore\<close> of \<open>bridge.go\<close>): the open files at once, the inodes one by one, each with the
  numbers and names of its parents, oldest first.
\<close>

section \<open>The data\<close>

record DumpFileEntry =
  df_Opener :: Owner
  df_Path :: string
  df_UFh :: u32
  df_Stream :: "DirEntry list option"

record DumpRawBridge =
  db_NodeCount :: nat
  db_Files :: "DumpFileEntry list"
  db_FreeFiles :: "u32 list"

record DumpParentEntry =
  dp_Name :: string
  dp_Node :: u64

record DumpInode =
  di_Ino :: u64
  di_Revision :: u32
  di_LookupCount :: u32
  di_Parents :: "DumpParentEntry list"
  di_IsDir :: bool

record InodeDumper =
  id_inodes :: "addr list"
  id_off :: nat

record InodeRestorer =
  ir_nodeCount :: nat
  ir_addNodeCount :: nat

datatype restore_error = Root_not_found | Inodes_missing nat nat

section \<open>Dumping\<close>

definition parents_Dump :: "inodeParents \<Rightarrow> (rawBridge, DumpParentEntry list) M" where
  "parents_Dump p =
    bindM (if 0 < parents_count p then bindM now (\<lambda>t. ret (sortParents t p)) else ret []) (\<lambda>ps.
    getsM (\<lambda>b. map (\<lambda>pe. \<lparr>dp_Name = pe_name pe, dp_Node = ino (heap b (pe_node pe))\<rparr>) ps))"

definition NewInodeDumper :: "(u64 \<times> addr) list \<Rightarrow> InodeDumper" where
  "NewInodeDumper inodesMap = \<lparr>id_inodes = map snd inodesMap, id_off = 0\<rparr>"

text \<open>The end of the inodes, \<open>io.EOF\<close>, is None.\<close>

definition Next :: "InodeDumper \<Rightarrow> (rawBridge, DumpInode option \<times> InodeDumper) M" where
  "Next s =
    (if length (id_inodes s) \<le> id_off s then ret (None, s)
     else
       bindM (getsM (\<lambda>b. heap b (id_inodes s ! id_off s))) (\<lambda>node.
       bindM (parents_Dump (parents node)) (\<lambda>ps.
       ret (Some \<lparr>di_Ino = ino node, di_Revision = revision node, di_LookupCount = lookupCount node,
                  di_Parents = ps, di_IsDir = isDir node\<rparr>,
            s\<lparr>id_off := id_off s + 1\<rparr>))))"

definition bridge_Dump :: "(rawBridge, DumpRawBridge \<times> InodeDumper) M" where
  "bridge_Dump =
    bindM (getsM (\<lambda>b. map (\<lambda>f. \<lparr>df_Opener = fe_opener f, df_Path = fe_path f, df_UFh = fe_uFh f,
                               df_Stream = fe_stream f\<rparr>) (files b))) (\<lambda>fs.
    bindM NodeCount (\<lambda>n.
    bindM (getsM (\<lambda>b. (freeFiles b, nodes b))) (\<lambda>(free, ns).
    ret (\<lparr>db_NodeCount = n, db_Files = fs, db_FreeFiles = free\<rparr>, NewInodeDumper ns))))"

section \<open>Restoring\<close>

definition Restore :: "DumpRawBridge \<Rightarrow> (rawBridge, InodeRestorer) M" where
  "Restore data =
    bindM (modifyM (\<lambda>b. b\<lparr>nodes := []\<rparr>)) (\<lambda>_.
    bindM (modifyM (\<lambda>b. b\<lparr>files := map (\<lambda>v. \<lparr>fe_opener = df_Opener v, fe_path = df_Path v, fe_uFh = df_UFh v,
                                       fe_stream = df_Stream v\<rparr>) (db_Files data)\<rparr>)) (\<lambda>_.
    bindM (modifyM (\<lambda>b. b\<lparr>freeFiles := db_FreeFiles data\<rparr>)) (\<lambda>_.
    ret \<lparr>ir_nodeCount = db_NodeCount data, ir_addNodeCount = 0\<rparr>)))"

definition getDirInode :: "u64 \<Rightarrow> (rawBridge, addr) M" where
  "getDirInode i =
    bindM (getsM (\<lambda>b. go_get (nodes b) i)) (\<lambda>a.
      if a \<noteq> nil then ret a
      else
        bindM (alloc (inode_zero\<lparr>ino := i, children := Some []\<rparr>)) (\<lambda>a.
        bindM (modifyM (\<lambda>b. b\<lparr>nodes := AList.update i a (nodes b)\<rparr>)) (\<lambda>_.
        ret a)))"

definition AddInode :: "DumpInode \<Rightarrow> InodeRestorer \<Rightarrow> (rawBridge, InodeRestorer) M" where
  "AddInode d r =
    bindM (getsM (\<lambda>b. go_get (nodes b) (di_Ino d))) (\<lambda>a0.
    bindM (if a0 \<noteq> nil then ret a0
           else
             bindM (alloc (inode_zero\<lparr>ino := di_Ino d\<rparr>)) (\<lambda>a.
             bindM (modifyM (\<lambda>b. b\<lparr>nodes := AList.update (di_Ino d) a (nodes b)\<rparr>)) (\<lambda>_.
             ret a))) (\<lambda>a.
    bindM (modifyM (upd a (\<lambda>n. n\<lparr>revision := di_Revision d\<rparr>))) (\<lambda>_.
    bindM (modifyM (upd a (\<lambda>n. n\<lparr>lookupCount := di_LookupCount d\<rparr>))) (\<lambda>_.
    bindM (modifyM (upd a (\<lambda>n. if di_IsDir d \<and> children n = None then n\<lparr>children := Some []\<rparr> else n))) (\<lambda>_.
    bindM (forM (di_Parents d) (\<lambda>p.
             bindM (getDirInode (dp_Node p)) (\<lambda>parInode.
             bindM (set_child parInode (dp_Name p) a) (\<lambda>_.
             add_parent a (pent (dp_Name p) parInode))))) (\<lambda>_.
    ret (r\<lparr>ir_addNodeCount := ir_addNodeCount r + 1\<rparr>)))))))"

definition Finished :: "InodeRestorer \<Rightarrow> (rawBridge, restore_error option) M" where
  "Finished r =
    bindM (getsM (\<lambda>b. go_get (nodes b) 1)) (\<lambda>rt.
      if rt = nil then ret (Some Root_not_found)
      else
        bindM (modifyM (\<lambda>b. b\<lparr>root := rt\<rparr>)) (\<lambda>_.
        if ir_addNodeCount r < ir_nodeCount r then
          bindM (getsM nodes) (\<lambda>ns.
          bindM (forM ns (\<lambda>(i, a).
                   bindM (getsM (\<lambda>b. heap b a)) (\<lambda>n.
                   if revision n = 0 then logf (Log_lost (ino n)) else ret ()))) (\<lambda>_.
          ret (Some (Inodes_missing (ir_nodeCount r) (ir_addNodeCount r)))))
        else
          bindM (modifyM (\<lambda>b. b\<lparr>nodeCountHigh := length (nodes b)\<rparr>)) (\<lambda>_.
          ret None)))"

section \<open>The whole way\<close>

text \<open>What a sender and a receiver do with these functions.\<close>

fun dump_loop :: "nat \<Rightarrow> InodeDumper \<Rightarrow> (rawBridge, DumpInode list) M" where
  "dump_loop 0 s = fail Diverges"
| "dump_loop (Suc k) s =
     bindM (Next s) (\<lambda>(d, s').
       case d of
         None \<Rightarrow> ret []
       | Some d \<Rightarrow> bindM (dump_loop k s') (\<lambda>ds. ret (d # ds)))"

fun restore_loop :: "DumpInode list \<Rightarrow> InodeRestorer \<Rightarrow> (rawBridge, InodeRestorer) M" where
  "restore_loop [] r = ret r"
| "restore_loop (d # ds) r = bindM (AddInode d r) (restore_loop ds)"

definition send :: "(rawBridge, DumpRawBridge \<times> DumpInode list) M" where
  "send = bindM bridge_Dump (\<lambda>(data, it).
     bindM (dump_loop (Suc (length (id_inodes it))) it) (\<lambda>ds. ret (data, ds)))"

definition receive :: "DumpRawBridge \<Rightarrow> DumpInode list \<Rightarrow> (rawBridge, restore_error option) M" where
  "receive data ds = bindM (Restore data) (\<lambda>r. bindM (restore_loop ds r) Finished)"

end
