(* ===== verification/Dump_Table.thy ===== *)
theory Dump_Table
  imports Dump Session
begin

text \<open>
  The table of inodes without addresses, which a dump writes down and a restore rebuilds:
  what \<open>AddInode\<close> does to it (\<open>a_add\<close>), and that adding every inode of a consistent table
  in any order gives that table (\<open>adds_restored\<close>, \<open>restored_all\<close>).
\<close>

section \<open>The abstract table\<close>

text \<open>An inode told by the numbers of other inodes. \<open>table_of b\<close> is the table of a bridge.\<close>

datatype anode = Anode (an_rev: u32) (an_cnt: u32) (an_dir: "(string \<Rightarrow> u64 option) option") (an_par: "(string \<times> u64) list")

type_synonym atable = "u64 \<Rightarrow> anode option"

definition entry_num :: "rawBridge \<Rightarrow> parentEntry \<Rightarrow> string \<times> u64" where
  "entry_num b e = (pe_name e, inum b (pe_node e))"

definition dir_of :: "rawBridge \<Rightarrow> addr \<Rightarrow> (string \<Rightarrow> u64 option) option" where
  "dir_of b a =
    (if isDir (heap b a) then Some (\<lambda>m. if edge b a m = nil then None else Some (inum b (edge b a m))) else None)"

definition anode_of :: "rawBridge \<Rightarrow> addr \<Rightarrow> anode" where
  "anode_of b a = Anode (revision (heap b a)) (lookups b a) (dir_of b a) (map (entry_num b) (recency (parents (heap b a))))"

definition table_of :: "rawBridge \<Rightarrow> atable" where
  "table_of b i = (if node_of b i = nil then None else Some (anode_of b (node_of b i)))"

text \<open>\<open>getDirInode\<close>, the loop over the parents and \<open>AddInode\<close> on abstract tables.\<close>

abbreviation blank_dir :: anode where
  "blank_dir \<equiv> Anode 0 0 (Some Map.empty) []"

definition a_dir :: "u64 \<Rightarrow> atable \<Rightarrow> atable" where
  "a_dir i T = (if T i = None then T(i \<mapsto> blank_dir) else T)"

definition a_child :: "string \<Rightarrow> u64 \<Rightarrow> anode \<Rightarrow> anode" where
  "a_child m c n = Anode (an_rev n) (an_cnt n) (map_option (\<lambda>f. f(m \<mapsto> c)) (an_dir n)) (an_par n)"

definition a_par :: "string \<times> u64 \<Rightarrow> anode \<Rightarrow> anode" where
  "a_par e n = Anode (an_rev n) (an_cnt n) (an_dir n) (e # removeAll e (an_par n))"

definition a_link :: "u64 \<Rightarrow> string \<times> u64 \<Rightarrow> atable \<Rightarrow> atable" where
  "a_link c e T =
    (let T1 = a_dir (snd e) T;
         T2 = T1(snd e := map_option (a_child (fst e) c) (T1 (snd e)))
     in T2(c := map_option (a_par e) (T2 c)))"

definition a_fields :: "u64 \<Rightarrow> u32 \<Rightarrow> u32 \<Rightarrow> bool \<Rightarrow> atable \<Rightarrow> atable" where
  "a_fields i rv cnt dir T =
    T(i \<mapsto> (case T i of
        None \<Rightarrow> Anode rv cnt (if dir then Some Map.empty else None) []
      | Some n \<Rightarrow> Anode rv cnt (if dir \<and> an_dir n = None then Some Map.empty else an_dir n) (an_par n)))"

definition par_num :: "DumpParentEntry \<Rightarrow> string \<times> u64" where
  "par_num p = (dp_Name p, dp_Node p)"

definition a_add :: "DumpInode \<Rightarrow> atable \<Rightarrow> atable" where
  "a_add d T =
    fold (a_link (di_Ino d)) (map par_num (di_Parents d))
      (a_fields (di_Ino d) (di_Revision d) (di_LookupCount d) (di_IsDir d) T)"

text \<open>What the loop over the parents comes to.\<close>

definition recent :: "'e list \<Rightarrow> 'e list \<Rightarrow> 'e list" where
  "recent ps l = fold (\<lambda>e l. e # removeAll e l) ps l"

lemma recent_distinct: "distinct (ps @ l) \<Longrightarrow> recent ps l = rev ps @ l"
  unfolding recent_def by (induction ps arbitrary: l) (auto simp: removeAll_id)

definition glue :: "u64 \<Rightarrow> (string \<times> u64) list \<Rightarrow> atable \<Rightarrow> atable" where
  "glue c ps T i =
    map_option (\<lambda>n. Anode (an_rev n) (an_cnt n)
        (map_option (\<lambda>f m. if (m, i) \<in> set ps then Some c else f m) (an_dir n))
        (if i = c then recent ps (an_par n) else an_par n))
      (if T i = None \<and> i \<in> snd ` set ps then Some blank_dir else T i)"

lemma glue_Nil: "glue c [] T = T"
proof
  fix i
  show "glue c [] T i = T i" by (cases "T i") (simp_all add: glue_def recent_def option.map_ident)
qed

lemma glue_Cons:
  assumes "T c \<noteq> None"
  shows "glue c (e # ps) T = glue c ps (a_link c e T)"
proof
  fix i
  obtain m p where e: "e = (m, p)" by fastforce
  show "glue c (e # ps) T i = glue c ps (a_link c e T) i"
    using assms
    by (cases "T i"; cases "i = p"; cases "i = c")
      (auto simp: e glue_def a_link_def a_dir_def a_child_def a_par_def recent_def Let_def fun_eq_iff
        option.map_comp comp_def intro!: option.map_cong)
qed

lemma links_glue: "T c \<noteq> None \<Longrightarrow> fold (a_link c) ps T = glue c ps T"
proof (induction ps arbitrary: T)
  case (Cons e ps)
  have "a_link c e T c \<noteq> None"
    using Cons.prems by (auto simp: a_link_def a_dir_def Let_def)
  with Cons show ?case by (simp add: glue_Cons)
qed (simp add: glue_Nil)

section \<open>Restoring abstract tables\<close>

text \<open>Children and parents agree, and both are in the table.\<close>

definition consistent :: "atable \<Rightarrow> bool" where
  "consistent S \<longleftrightarrow>
     (\<forall>c n m i. S c = Some n \<longrightarrow>
        (m, i) \<in> set (an_par n) \<longleftrightarrow> (\<exists>n' f. S i = Some n' \<and> an_dir n' = Some f \<and> f m = Some c)) \<and>
     (\<forall>c n. S c = Some n \<longrightarrow> distinct (an_par n)) \<and>
     (\<forall>i n f m c. S i = Some n \<longrightarrow> an_dir n = Some f \<longrightarrow> f m = Some c \<longrightarrow> S c \<noteq> None)"

definition within :: "u64 set \<Rightarrow> (string \<Rightarrow> u64 option) \<Rightarrow> string \<Rightarrow> u64 option" where
  "within D f m = (case f m of Some c \<Rightarrow> if c \<in> D then Some c else None | None \<Rightarrow> None)"

lemma within_simps [simp]:
  "within D f m = Some c \<longleftrightarrow> f m = Some c \<and> c \<in> D"
  "within D f m = None \<longleftrightarrow> (\<forall>c. f m = Some c \<longrightarrow> c \<notin> D)"
  by (auto simp: within_def split: option.splits)

text \<open>The table after the inodes of \<open>D\<close> have been added: they are complete, but for children that are missing.\<close>

definition restored :: "atable \<Rightarrow> u64 set \<Rightarrow> atable" where
  "restored S D i =
    (case S i of
       None \<Rightarrow> None
     | Some n \<Rightarrow>
         if i \<in> D then Some (Anode (an_rev n) (an_cnt n) (map_option (within D) (an_dir n)) (an_par n))
         else case an_dir n of
                None \<Rightarrow> None
              | Some f \<Rightarrow> if within D f = Map.empty then None else Some (Anode 0 0 (Some (within D f)) []))"

lemma restored_empty: "restored S {} = Map.empty"
  by (rule ext) (auto simp: restored_def within_def fun_eq_iff split: option.splits)

lemma restored_all:
  assumes "consistent S" "\<And>i. S i \<noteq> None \<Longrightarrow> i \<in> D"
  shows "restored S D = S"
proof
  fix i
  show "restored S D i = S i"
  proof (cases "S i")
    case None
    then show ?thesis by (simp add: restored_def)
  next
    case (Some n)
    have "within D f = f" if "an_dir n = Some f" for f
    proof
      fix m
      have "f m = Some c \<Longrightarrow> c \<in> D" for c using assms Some that by (auto simp: consistent_def)
      then show "within D f m = f m" by (auto simp: within_def split: option.splits)
    qed
    with Some assms(2)[of i] show ?thesis by (cases "an_dir n"; cases n) (auto simp: restored_def)
  qed
qed

definition dumped :: "atable \<Rightarrow> DumpInode \<Rightarrow> bool" where
  "dumped S d \<longleftrightarrow>
     (\<exists>n. S (di_Ino d) = Some n \<and> di_Revision d = an_rev n \<and> di_LookupCount d = an_cnt n \<and>
        di_IsDir d = (an_dir n \<noteq> None) \<and> map par_num (di_Parents d) = rev (an_par n))"

lemma fields_restored:
  assumes "S c = Some n" "c \<notin> D"
  shows "a_fields c (an_rev n) (an_cnt n) (an_dir n \<noteq> None) (restored S D) =
    (restored S D)(c \<mapsto> Anode (an_rev n) (an_cnt n) (map_option (within D) (an_dir n)) [])"
proof -
  have "within D f = Map.empty \<or> restored S D c = Some (Anode 0 0 (Some (within D f)) [])" if "an_dir n = Some f" for f
    using assms that by (auto simp: restored_def)
  then show ?thesis
    using assms by (cases "an_dir n") (auto simp: a_fields_def restored_def)
qed

lemma add_restored:
  assumes S: "consistent S" and d: "dumped S d" "di_Ino d \<notin> D"
  shows "a_add d (restored S D) = restored S (insert (di_Ino d) D)"
proof -
  let ?c = "di_Ino d"
  obtain n where n: "S ?c = Some n" "di_Revision d = an_rev n" "di_LookupCount d = an_cnt n"
      "di_IsDir d = (an_dir n \<noteq> None)" "map par_num (di_Parents d) = rev (an_par n)"
    using d(1) by (auto simp: dumped_def)
  define T where "T = (restored S D)(?c \<mapsto> Anode (an_rev n) (an_cnt n) (map_option (within D) (an_dir n)) [])"
  have "a_add d (restored S D) = fold (a_link ?c) (rev (an_par n)) T"
    using fields_restored[of S ?c n D] n(1) d(2) by (simp add: a_add_def n(2-5) T_def)
  also have "\<dots> = glue ?c (rev (an_par n)) T" by (rule links_glue) (simp add: T_def)
  also have "\<dots> = restored S (insert ?c D)"
  proof
    fix i
    have par: "(m, i) \<in> set (an_par n) \<longleftrightarrow> (\<exists>n' f. S i = Some n' \<and> an_dir n' = Some f \<and> f m = Some ?c)" for m
      using S n(1) by (auto simp: consistent_def)
    have rec: "recent (rev (an_par n)) [] = an_par n"
      using S n(1) recent_distinct[of "rev (an_par n)" "[]"] by (auto simp: consistent_def)
    have w: "within (insert ?c D) f m = (if f m = Some ?c then Some ?c else within D f m)" for f m
      by (auto simp: within_def split: option.splits)
    show "glue ?c (rev (an_par n)) T i = restored S (insert ?c D) i"
    proof (cases "S i")
      case None
      then have "(m, i) \<notin> set (an_par n)" for m using par by simp
      then have "i \<notin> snd ` set (an_par n)" by auto
      with None n(1) show ?thesis by (auto simp: glue_def T_def restored_def)
    next
      case (Some n')
      show ?thesis
      proof (cases "an_dir n'")
        case N: None
        then have "(m, i) \<notin> set (an_par n)" for m using par Some by simp
        then have "i \<notin> snd ` set (an_par n)" by auto
        with Some N n(1) rec show ?thesis by (auto simp: glue_def T_def restored_def)
      next
        case F: (Some f)
        have hit: "(m, i) \<in> set (an_par n) \<longleftrightarrow> f m = Some ?c" for m using par Some F by simp
        then have hits: "i \<in> snd ` set (an_par n) \<longleftrightarrow> (\<exists>m. f m = Some ?c)" by force
        have ww: "within (insert ?c D) f = (\<lambda>m. if (m, i) \<in> set (an_par n) then Some ?c else within D f m)"
          by (rule ext) (simp add: w hit)
        show ?thesis
        proof (cases "i \<noteq> ?c \<and> i \<notin> D \<and> within D f = Map.empty")
          case True
          then have T: "T i = None" by (simp add: T_def restored_def Some F)
          have ww': "within (insert ?c D) f = (\<lambda>m. if (m, i) \<in> set (an_par n) then Some ?c else None)"
          proof -
            have "within D f m = None" for m using True fun_cong[of "within D f" Map.empty m] by blast
            then show ?thesis unfolding ww by (simp only:)
          qed
          have "within (insert ?c D) f = Map.empty \<longleftrightarrow> i \<notin> snd ` set (an_par n)"
            unfolding ww' by (force simp: fun_eq_iff)
          then show ?thesis
            using True by (auto simp: glue_def T restored_def Some F ww' simp del: within_simps)
        next
          case False
          with Some F n(1) rec hits show ?thesis
            by (cases "i = ?c"; cases "i \<in> D"; cases "within D f = Map.empty")
              (auto simp: glue_def T_def restored_def ww fun_eq_iff recent_def hit split: if_splits)
        qed
      qed
    qed
  qed
  finally show ?thesis .
qed

lemma adds_restored:
  assumes "consistent S" "\<And>d. d \<in> set ds \<Longrightarrow> dumped S d" "distinct (map di_Ino ds)"
  shows "D \<inter> di_Ino ` set ds = {} \<Longrightarrow> fold a_add ds (restored S D) = restored S (D \<union> di_Ino ` set ds)"
  using assms(2,3)
proof (induction ds arbitrary: D)
  case (Cons d ds)
  have "a_add d (restored S D) = restored S (insert (di_Ino d) D)"
    using Cons.prems by (intro add_restored[OF assms(1)]) auto
  moreover have "fold a_add ds (restored S (insert (di_Ino d) D)) = restored S (insert (di_Ino d) D \<union> di_Ino ` set ds)"
    using Cons.prems by (intro Cons.IH) auto
  ultimately show ?case by simp
qed simp

end
