(* ===== verification/Dump_Inv.thy ===== *)
theory Dump_Inv
  imports Dump_Table
begin

text \<open>
  \<open>dump.go\<close> on the heap. \<open>contained\<close> is what holds of a bridge while it is restored: the
  inodes of the table lead to inodes of the table only. \<open>AddInode\<close> does to the table of a
  contained bridge what \<open>a_add\<close> does to an abstract table (\<open>AddInode_restores\<close>), step by step
  for a new inode, its fields and each link; so receiving the inodes of a dump in any order
  rebuilds the table (\<open>receive_restores\<close>), and a bridge with the table of a well-formed
  one is well-formed (\<open>restored_tree_ok\<close>) and names its inodes alike (\<open>twin_named\<close>).
\<close>

section \<open>States that are being restored\<close>

definition tabled :: "rawBridge \<Rightarrow> addr \<Rightarrow> bool" where
  "tabled b a \<longleftrightarrow> a \<noteq> nil \<and> registered b a"

definition contained_tab :: "rawBridge \<Rightarrow> bool" where
  "contained_tab b \<longleftrightarrow>
     go_map_ok (nodes b) \<and> 0 < clock b \<and> 0 < hnext b \<and>
     (\<forall>i. node_of b i \<noteq> nil \<longrightarrow> node_of b i < hnext b \<and> inum b (node_of b i) = i)"

definition contained_node :: "rawBridge \<Rightarrow> addr \<Rightarrow> bool" where
  "contained_node b a \<longleftrightarrow>
     go_map_ok (childmap (heap b a)) \<and> parents_timed (clock b) (parents (heap b a)) \<and>
     (\<forall>m. edge b a m \<noteq> nil \<longrightarrow> tabled b (edge b a m)) \<and> (\<forall>e \<in> pset b a. tabled b (pe_node e))"

definition contained :: "rawBridge \<Rightarrow> bool" where
  "contained b \<longleftrightarrow> contained_tab b \<and> (\<forall>a. tabled b a \<longrightarrow> contained_node b a)"

definition full :: "rawBridge \<Rightarrow> bool" where
  "full b \<longleftrightarrow> (\<forall>a. valid b a \<longrightarrow> registered b a)"

text \<open>What restoring one inode leaves alone, whatever the table becomes.\<close>

definition restores :: "rawBridge \<Rightarrow> atable \<Rightarrow> rawBridge \<Rightarrow> bool" where
  "restores b T b' \<longleftrightarrow>
     contained b' \<and> table_of b' = T \<and> (full b \<longrightarrow> full b') \<and>
     (\<forall>a. tabled b a \<longrightarrow> tabled b' a \<and> inum b' a = inum b a) \<and>
     root b' = root b \<and> files b' = files b \<and> freeFiles b' = freeFiles b \<and> options b' = options b \<and>
     nodeCountHigh b' = nodeCountHigh b \<and> logs b' = logs b"

lemma restores_refl: "contained b \<Longrightarrow> restores b (table_of b) b"
  by (simp add: restores_def)

lemma restores_trans: "restores b T b' \<Longrightarrow> restores b' T' b'' \<Longrightarrow> restores b T' b''"
  by (simp add: restores_def)

lemma tabled_num: "tabled b a \<Longrightarrow> node_of b (inum b a) = a"
  by (simp add: tabled_def registered_def)

lemma tabled_node: "contained b \<Longrightarrow> node_of b i \<noteq> nil \<Longrightarrow> tabled b (node_of b i)"
  by (simp add: contained_def contained_tab_def tabled_def registered_def)

lemma num_node: "contained b \<Longrightarrow> node_of b i \<noteq> nil \<Longrightarrow> inum b (node_of b i) = i"
  by (simp add: contained_def contained_tab_def)

lemma tabled_less: "contained b \<Longrightarrow> tabled b a \<Longrightarrow> a < hnext b"
  by (metis contained_def contained_tab_def tabled_def tabled_num)

lemma tabled_inj: "tabled b a \<Longrightarrow> tabled b c \<Longrightarrow> inum b a = inum b c \<longleftrightarrow> a = c"
  using tabled_num by metis

lemma containedD: "contained b \<Longrightarrow> tabled b a \<Longrightarrow> contained_node b a"
  by (simp add: contained_def)

lemma table_node: "table_of b i = (if node_of b i = nil then None else Some (anode_of b (node_of b i)))"
  by (simp add: table_of_def)

lemma table_tabled: "tabled b a \<Longrightarrow> table_of b (inum b a) = Some (anode_of b a)"
  using tabled_num[of b a] by (simp add: table_of_def tabled_def)

section \<open>A new inode\<close>

definition new_st :: "u64 \<Rightarrow> bool \<Rightarrow> rawBridge \<Rightarrow> rawBridge" where
  "new_st i dir b = (alloc_st (fresh_inode i dir) b)\<lparr>nodes := AList.update i (hnext b) (nodes b)\<rparr>"

lemma new_frame [simp]:
  "hnext (new_st i dir b) = Suc (hnext b)" "clock (new_st i dir b) = clock b"
  "nodes (new_st i dir b) = AList.update i (hnext b) (nodes b)"
  "heap (new_st i dir b) = (heap b)(hnext b := fresh_inode i dir)"
  "root (new_st i dir b) = root b" "files (new_st i dir b) = files b" "freeFiles (new_st i dir b) = freeFiles b"
  "options (new_st i dir b) = options b" "nodeCountHigh (new_st i dir b) = nodeCountHigh b"
  "logs (new_st i dir b) = logs b"
  by (simp_all add: new_st_def) (simp add: alloc_st_def)

lemma new_views:
  "edge (new_st i dir b) p m = (if p = hnext b then nil else edge b p m)"
  "pset (new_st i dir b) a = (if a = hnext b then {} else pset b a)"
  "lookups (new_st i dir b) a = (if a = hnext b then 0 else lookups b a)"
  "inum (new_st i dir b) a = (if a = hnext b then i else inum b a)"
  by (simp_all add: edge_def pset_def lookups_def inum_def)

lemma contained_node_cong:
  assumes "heap b' a = heap b a" "clock b \<le> clock b'" "\<And>c. tabled b c \<Longrightarrow> tabled b' c"
  shows "contained_node b a \<Longrightarrow> contained_node b' a"
  using assms parents_timed_mono[OF _ assms(2)]
  by (auto simp: contained_node_def edge_def pset_def)

lemma new_restores:
  assumes "contained b" "node_of b i = nil"
  shows "restores b ((table_of b)(i \<mapsto> Anode 0 0 (if dir then Some Map.empty else None) [])) (new_st i dir b)"
    and "tabled (new_st i dir b) (hnext b)" "inum (new_st i dir b) (hnext b) = i"
proof -
  let ?b = "new_st i dir b"
  have pos: "hnext b \<noteq> nil" using assms(1) by (simp add: contained_def contained_tab_def)
  have old: "a \<noteq> hnext b" if "tabled b a" for a using tabled_less[OF assms(1) that] by simp
  have num: "inum b a \<noteq> i" if "tabled b a" for a using tabled_num[OF that] assms(2) that by (auto simp: tabled_def)
  have t: "tabled ?b a \<longleftrightarrow> tabled b a \<or> a = hnext b" for a
    using old num assms(2) pos by (auto simp: tabled_def registered_def new_views)
  have n: "node_of b j \<noteq> hnext b" for j using tabled_node[OF assms(1), of j] old pos by metis
  have tab: "contained_tab ?b"
    using assms(1) n pos unfolding contained_def contained_tab_def
    by (auto simp: new_views intro: less_SucI)
  have "contained_node ?b a" if "tabled b a" for a
    by (rule contained_node_cong[OF _ _ _ containedD[OF assms(1) that]]) (use old[OF that] t in auto)
  moreover have "contained_node ?b (hnext b)"
    by (simp add: contained_node_def new_views)
  ultimately have cl: "contained ?b" using tab t by (auto simp: contained_def)
  have an: "anode_of ?b a = anode_of b a" if "tabled b a" for a
  proof -
    have "inum ?b (edge b a m) = inum b (edge b a m)" if "edge b a m \<noteq> nil" for m
      using containedD[OF assms(1) \<open>tabled b a\<close>] that old[of "edge b a m"] by (simp add: contained_node_def new_views)
    moreover have "entry_num ?b e = entry_num b e" if "e \<in> set (recency (parents (heap b a)))" for e
      using containedD[OF assms(1) \<open>tabled b a\<close>] that old[of "pe_node e"]
      by (simp add: contained_node_def entry_num_def new_views set_recency pset_def)
    ultimately show ?thesis
      using old[OF that] by (auto simp: anode_of_def dir_of_def new_views fun_eq_iff)
  qed
  have rz: "recency inodeParents_zero = []"
    by (simp add: recency_def inodeParents_zero_def parentEntry_zero_def)
  have new: "anode_of ?b (hnext b) = Anode 0 0 (if dir then Some Map.empty else None) []"
    by (simp add: anode_of_def dir_of_def new_views rz) (simp add: fresh_inode_def)
  have "table_of ?b = (table_of b)(i \<mapsto> Anode 0 0 (if dir then Some Map.empty else None) [])"
  proof
    fix j
    show "table_of ?b j = ((table_of b)(i \<mapsto> Anode 0 0 (if dir then Some Map.empty else None) [])) j"
      using an[OF tabled_node[OF assms(1)], of j] pos new by (simp add: table_of_def del: new_frame(4))
  qed
  moreover have "full ?b" if "full b" 
    unfolding full_def
  proof (intro allI impI)
    fix a
    assume "valid ?b a"
    then have "a = hnext b \<or> valid b a" "a \<noteq> nil" by (auto simp: valid_def)
    then have "tabled ?b a" using that t by (auto simp: full_def tabled_def)
    then show "registered ?b a" by (simp add: tabled_def)
  qed
  ultimately show "restores b ((table_of b)(i \<mapsto> Anode 0 0 (if dir then Some Map.empty else None) [])) ?b"
    using cl t old by (auto simp: restores_def new_views)
  show "tabled ?b (hnext b)" "inum ?b (hnext b) = i" using t by (simp_all add: new_views)
qed

section \<open>The fields of an inode\<close>

definition fields_fun :: "DumpInode \<Rightarrow> inode \<Rightarrow> inode" where
  "fields_fun d n = n\<lparr>revision := di_Revision d, lookupCount := di_LookupCount d,
     children := (if di_IsDir d \<and> children n = None then Some [] else children n)\<rparr>"

lemma fields_simps [simp]:
  "ino (fields_fun d n) = ino n" "parents (fields_fun d n) = parents n" "child (fields_fun d n) m = child n m"
  "childmap (fields_fun d n) = childmap n" "revision (fields_fun d n) = di_Revision d"
  "lookupCount (fields_fun d n) = di_LookupCount d" "isDir (fields_fun d n) = (di_IsDir d \<or> isDir n)"
  by (auto simp: fields_fun_def childmap_def child_def isDir_def)

lemma fields_views:
  "edge (upd a (fields_fun d) b) p m = edge b p m" "pset (upd a (fields_fun d) b) c = pset b c"
  "inum (upd a (fields_fun d) b) c = inum b c" "registered (upd a (fields_fun d) b) c = registered b c"
  "tabled (upd a (fields_fun d) b) c = tabled b c"
  "lookups (upd a (fields_fun d) b) c = (if c = a then di_LookupCount d else lookups b c)"
  by (auto simp: view_simps registered_def tabled_def)

lemma fields_restores:
  assumes "contained b" "tabled b a" "inum b a = di_Ino d"
  shows "restores b (a_fields (di_Ino d) (di_Revision d) (di_LookupCount d) (di_IsDir d) (table_of b))
    (upd a (fields_fun d) b)"
proof -
  let ?b = "upd a (fields_fun d) b"
  have "contained_tab ?b" using assms(1) by (simp add: contained_def contained_tab_def fields_views)
  moreover have "contained_node ?b c" if "tabled b c" for c
    using containedD[OF assms(1) that] by (auto simp: contained_node_def fields_views)
  ultimately have cl: "contained ?b" by (simp add: contained_def fields_views)
  have e: "entry_num ?b = entry_num b" by (simp add: entry_num_def fun_eq_iff fields_views)
  have other: "anode_of ?b c = anode_of b c" if "c \<noteq> a" for c
    using that by (simp add: anode_of_def dir_of_def fields_views e cong: if_cong)
  have none: "edge b a m = nil" if "\<not> isDir (heap b a)" for m
    using that by (simp add: edge_def child_def childmap_def isDir_def)
  have dir: "dir_of ?b a = (if di_IsDir d \<and> dir_of b a = None then Some Map.empty else dir_of b a)"
  proof (cases "isDir (heap b a)")
    case True
    then show ?thesis by (simp add: dir_of_def fields_views cong: if_cong)
  next
    case False
    with none show ?thesis by (simp add: dir_of_def fields_views)
  qed
  have here: "anode_of ?b a = Anode (di_Revision d) (di_LookupCount d)
      (if di_IsDir d \<and> an_dir (anode_of b a) = None then Some Map.empty else an_dir (anode_of b a)) (an_par (anode_of b a))"
    unfolding anode_of_def dir by (simp add: e fields_views)
  have "table_of ?b = a_fields (di_Ino d) (di_Revision d) (di_LookupCount d) (di_IsDir d) (table_of b)"
  proof
    fix j
    have a: "node_of b (di_Ino d) = a" "a \<noteq> nil" using tabled_num[OF assms(2)] assms(2,3) by (simp_all add: tabled_def)
    show "table_of ?b j = a_fields (di_Ino d) (di_Revision d) (di_LookupCount d) (di_IsDir d) (table_of b) j"
    proof (cases "j = di_Ino d")
      case True
      with a here show ?thesis by (simp add: table_of_def a_fields_def)
    next
      case False
      then have "node_of b j \<noteq> a" using num_node[OF assms(1), of j] assms(3) a(2) by auto
      from other[OF this] False show ?thesis by (simp add: table_of_def a_fields_def)
    qed
  qed
  with cl show ?thesis by (auto simp: restores_def fields_views full_def view_simps)
qed

section \<open>A link\<close>

text \<open>What the loop over the parents does for one of them that is there.\<close>

definition hook_st :: "addr \<Rightarrow> string \<Rightarrow> addr \<Rightarrow> rawBridge \<Rightarrow> rawBridge" where
  "hook_st p m c b =
    upd c (\<lambda>n. n\<lparr>parents := parents_add (clock b) (pent m p) (parents n)\<rparr>)
      ((upd p (\<lambda>n. n\<lparr>children := Some (AList.update m c (childmap n))\<rparr>) b)\<lparr>clock := Suc (clock b)\<rparr>)"

lemma hookM:
  assumes "isDir (heap b p)"
  shows "bindM (set_child p m c) (\<lambda>_. add_parent c (pent m p)) b = Inr ((), hook_st p m c b)"
proof -
  obtain cs where "children (heap b p) = Some cs" using assms by (auto simp: isDir_def)
  then have "set_child p m c b = Inr ((), upd p (\<lambda>n. n\<lparr>children := Some (AList.update m c (childmap n))\<rparr>) b)"
    by (simp add: set_child_def monad_simps upd_def)
  then show ?thesis
    by (simp add: bindM_Inr[where m = "set_child p m c"] add_parent_def monad_simps hook_st_def)
qed

lemma hook_frame [simp]:
  "nodes (hook_st p m c b) = nodes b" "hnext (hook_st p m c b) = hnext b"
  "root (hook_st p m c b) = root b" "nodeCountHigh (hook_st p m c b) = nodeCountHigh b"
  "clock (hook_st p m c b) = Suc (clock b)" "options (hook_st p m c b) = options b"
  "files (hook_st p m c b) = files b" "freeFiles (hook_st p m c b) = freeFiles b" "logs (hook_st p m c b) = logs b"
  by (simp_all add: hook_st_def)

lemma hook_heap:
  "edge (hook_st p m c b) q k = (if q = p \<and> k = m then c else edge b q k)"
  "lookups (hook_st p m c b) a = lookups b a" "inum (hook_st p m c b) a = inum b a"
  "revision (heap (hook_st p m c b) a) = revision (heap b a)"
  "parents (heap (hook_st p m c b) a) =
    (if a = c then parents_add (clock b) (pent m p) (parents (heap b c)) else parents (heap b a))"
  "childmap (heap (hook_st p m c b) a) =
    (if a = p then AList.update m c (childmap (heap b p)) else childmap (heap b a))"
  by (simp_all add: hook_st_def view_simps) (simp_all add: child_def edge_def)

lemma hook_isDir: "isDir (heap b p) \<Longrightarrow> isDir (heap (hook_st p m c b) a) = isDir (heap b a)"
  by (auto simp: hook_st_def isDir_simps)

lemma hook_tabled [simp]: "tabled (hook_st p m c b) a = tabled b a"
  by (simp add: tabled_def registered_def hook_heap)

lemma hook_contained:
  assumes "contained b" "tabled b p" "tabled b c"
  shows "contained (hook_st p m c b)"
proof -
  let ?b = "hook_st p m c b"
  have nil: "p \<noteq> nil" "c \<noteq> nil" using assms(2,3) by (simp_all add: tabled_def)
  have "contained_tab ?b" using assms(1) by (simp add: contained_def contained_tab_def hook_heap)
  moreover have "contained_node ?b a" if "tabled b a" for a
  proof -
    have cn: "contained_node b a" using containedD[OF assms(1) that] .
    have clk: "0 < clock b" using assms(1) by (simp add: contained_def contained_tab_def)
    have "go_map_ok (childmap (heap ?b a))" using cn nil by (auto simp: contained_node_def hook_heap)
    moreover have t: "parents_timed (clock ?b) (parents (heap ?b a))"
      using cn nil clk parents_timed_add[of "clock b" "parents (heap b a)" "pent m p"]
        parents_timed_mono[of "clock b" "parents (heap b a)"]
      by (auto simp: contained_node_def hook_heap)
    moreover have "tabled ?b (edge ?b a k)" if "edge ?b a k \<noteq> nil" for k
      using that cn assms(3) by (auto simp: contained_node_def hook_heap split: if_splits)
    moreover have "tabled ?b (pe_node e)" if "e \<in> pset ?b a" for e
      using that cn assms(2) nil parents_set_add[of "parents (heap b a)" "pent m p" "clock b"]
      by (auto simp: contained_node_def pset_def hook_heap parents_timed_def split: if_splits)
    ultimately show ?thesis unfolding contained_node_def by blast
  qed
  ultimately show ?thesis by (simp add: contained_def)
qed

lemma map_removeAll: "inj_on f (insert x (set xs)) \<Longrightarrow> map f (removeAll x xs) = removeAll (f x) (map f xs)"
proof (induction xs)
  case (Cons y ys)
  then have "inj_on f (insert x (set ys))" by (auto simp: inj_on_def)
  moreover have "f x = f y \<longleftrightarrow> x = y" using Cons.prems by (auto simp: inj_on_def)
  ultimately show ?case using Cons.IH by auto
qed simp

lemma hook_anode:
  assumes "contained b" "tabled b p" "tabled b c" "isDir (heap b p)" "tabled b a"
  shows "anode_of (hook_st p m c b) a =
    (let n = (if a = p then a_child m (inum b c) (anode_of b a) else anode_of b a)
     in if a = c then a_par (m, inum b p) n else n)"
proof -
  let ?b = "hook_st p m c b"
  have nil: "p \<noteq> nil" "c \<noteq> nil" using assms(2,3) by (simp_all add: tabled_def)
  have e: "entry_num ?b = entry_num b" by (simp add: entry_num_def fun_eq_iff hook_heap)
  have cn: "contained_node b a" using containedD[OF assms(1,5)] .
  have "inj_on (entry_num b) (insert (pent m p) (set (recency (parents (heap b a)))))"
    using cn assms(2) tabled_inj[of b]
    by (intro inj_onI) (auto simp: entry_num_def contained_node_def pset_def set_recency)
  from map_removeAll[OF this]
  have "map (entry_num b) (recency (parents (heap ?b c))) =
      (m, inum b p) # removeAll (m, inum b p) (map (entry_num b) (recency (parents (heap b c))))" if "a = c"
    using that cn nil recency_add[of "clock b" "parents (heap b c)" "pent m p"]
    by (simp add: hook_heap contained_node_def entry_num_def)
  moreover have "dir_of ?b a = (if a = p then map_option (\<lambda>f. f(m \<mapsto> inum b c)) (dir_of b a) else dir_of b a)"
    using assms(4) nil by (auto simp: dir_of_def hook_isDir hook_heap fun_eq_iff)
  ultimately show ?thesis
    by (auto simp: anode_of_def hook_heap e Let_def a_par_def a_child_def)
qed

lemma hook_restores:
  assumes "contained b" "tabled b p" "tabled b c" "isDir (heap b p)"
  shows "restores b (a_link (inum b c) (m, inum b p) (table_of b)) (hook_st p m c b)"
proof -
  let ?b = "hook_st p m c b"
  have T: "table_of b (inum b p) = Some (anode_of b p)" "table_of b (inum b c) = Some (anode_of b c)"
    using table_tabled assms(2,3) by blast+
  have "table_of ?b = a_link (inum b c) (m, inum b p) (table_of b)"
  proof
    fix j
    show "table_of ?b j = a_link (inum b c) (m, inum b p) (table_of b) j"
    proof (cases "node_of b j = nil")
      case True
      then have "j \<noteq> inum b p" "j \<noteq> inum b c" using assms(2,3) tabled_num[of b] by (auto simp: tabled_def)
      with True T show ?thesis by (simp add: table_of_def a_link_def a_dir_def Let_def)
    next
      case False
      note t = tabled_node[OF assms(1) False]
      have "inum b (node_of b j) = j" using num_node[OF assms(1) False] .
      then have "j = inum b p \<longleftrightarrow> node_of b j = p" "j = inum b c \<longleftrightarrow> node_of b j = c"
        using tabled_num assms(2,3) by auto
      with False T hook_anode[OF assms t, of m] show ?thesis
        by (auto simp: table_of_def a_link_def a_dir_def Let_def)
    qed
  qed
  then show ?thesis
    using hook_contained[OF assms(1-3)] by (simp add: restores_def full_def hook_heap registered_def valid_def)
qed

section \<open>AddInode\<close>

definition no_file :: "atable \<Rightarrow> u64 \<Rightarrow> bool" where
  "no_file T i \<longleftrightarrow> (\<forall>n. T i = Some n \<longrightarrow> an_dir n \<noteq> None)"

lemma no_file_link: "no_file T i \<Longrightarrow> no_file (a_link c e T) i"
  by (auto simp: no_file_def a_link_def a_dir_def a_child_def a_par_def Let_def split: if_splits)

lemma link_dir: "a_link c e (a_dir (snd e) T) = a_link c e T"
  by (simp add: a_link_def a_dir_def Let_def)

lemma new_zero:
  "inode_zero\<lparr>ino := i\<rparr> = fresh_inode i False" "(fresh_inode i False)\<lparr>children := Some []\<rparr> = fresh_inode i True"
  by (simp_all add: fresh_inode_def inode_zero_def)

lemma newM:
  "bindM (alloc (fresh_inode i dir)) (\<lambda>a. bindM (modifyM (\<lambda>b. b\<lparr>nodes := AList.update i a (nodes b)\<rparr>)) (\<lambda>_. ret a)) b =
    Inr (hnext b, new_st i dir b)"
  by (simp add: monad_simps new_st_def alloc_st_def)

lemma getDirInode_restores:
  assumes "contained b" "no_file (table_of b) i"
  shows "\<exists>a b'. getDirInode i b = Inr (a, b') \<and> restores b (a_dir i (table_of b)) b' \<and> tabled b' a \<and>
    inum b' a = i \<and> isDir (heap b' a)"
proof (cases "node_of b i = nil")
  case True
  then have "getDirInode i b = Inr (hnext b, new_st i True b)"
    by (simp add: getDirInode_def bindM_gets new_zero newM)
  moreover have "a_dir i (table_of b) = (table_of b)(i \<mapsto> blank_dir)"
    using True by (simp add: a_dir_def table_of_def)
  ultimately show ?thesis using new_restores[OF assms(1) True, of True] by simp
next
  case False
  then have "getDirInode i b = Inr (node_of b i, b)" by (simp add: getDirInode_def monad_simps)
  moreover have "isDir (heap b (node_of b i))"
    using assms(2) False by (auto simp: no_file_def table_of_def anode_of_def dir_of_def split: if_splits)
  moreover have "a_dir i (table_of b) = table_of b" using False by (simp add: a_dir_def table_of_def)
  ultimately show ?thesis
    using False restores_refl[OF assms(1)] tabled_node[OF assms(1) False] num_node[OF assms(1) False] by auto
qed

lemma restoresD: "restores b T b' \<Longrightarrow> contained b' \<and> table_of b' = T"
  by (simp add: restores_def)

definition add_link :: "addr \<Rightarrow> DumpParentEntry \<Rightarrow> (rawBridge, unit) M" where
  "add_link a p = bindM (getDirInode (dp_Node p)) (\<lambda>parInode.
     bindM (set_child parInode (dp_Name p) a) (\<lambda>_. add_parent a (pent (dp_Name p) parInode)))"

lemma add_link_restores:
  assumes "contained b" "tabled b c" "no_file (table_of b) (dp_Node p)"
  shows "\<exists>b'. add_link c p b = Inr ((), b') \<and> restores b (a_link (inum b c) (par_num p) (table_of b)) b'"
proof -
  obtain a b1 where b1: "getDirInode (dp_Node p) b = Inr (a, b1)" "restores b (a_dir (dp_Node p) (table_of b)) b1"
      "tabled b1 a" "inum b1 a = dp_Node p" "isDir (heap b1 a)"
    using getDirInode_restores[OF assms(1,3)] by blast
  have c: "tabled b1 c" "inum b1 c = inum b c" "contained b1" using b1(2) assms(2) by (auto simp: restores_def)
  let ?b = "hook_st a (dp_Name p) c b1"
  have "add_link c p b = Inr ((), ?b)" by (simp add: add_link_def bindM_Inr b1(1) hookM[OF b1(5)])
  moreover have "restores b (a_link (inum b c) (par_num p) (table_of b)) ?b"
    using restores_trans[OF b1(2) hook_restores[OF c(3) b1(3) c(1) b1(5), of "dp_Name p"]] restoresD[OF b1(2)] c(2)
      b1(4) link_dir[of "inum b c" "par_num p" "table_of b"]
    by (simp add: par_num_def)
  ultimately show ?thesis by blast
qed

lemma add_links_restores:
  assumes "contained b" "tabled b c" "\<And>p. p \<in> set ps \<Longrightarrow> no_file (table_of b) (dp_Node p)"
  shows "\<exists>b'. forM ps (add_link c) b = Inr ((), b') \<and>
    restores b (fold (a_link (inum b c)) (map par_num ps) (table_of b)) b'"
  using assms
proof (induction ps arbitrary: b)
  case Nil
  then show ?case by (simp add: ret_def restores_refl)
next
  case (Cons p ps)
  obtain b1 where b1: "add_link c p b = Inr ((), b1)" "restores b (a_link (inum b c) (par_num p) (table_of b)) b1"
    using add_link_restores[OF Cons.prems(1,2), of p] Cons.prems(3) by auto
  have c: "tabled b1 c" "inum b1 c = inum b c" "contained b1" "table_of b1 = a_link (inum b c) (par_num p) (table_of b)"
    using b1(2) Cons.prems(2) by (auto simp: restores_def)
  have "no_file (table_of b1) (dp_Node q)" if "q \<in> set ps" for q
    using Cons.prems(3)[of q] that by (simp add: c(4) no_file_link)
  then obtain b2 where b2: "forM ps (add_link c) b1 = Inr ((), b2)"
      "restores b1 (fold (a_link (inum b1 c)) (map par_num ps) (table_of b1)) b2"
    using Cons.IH[OF c(3,1)] by blast
  have "forM (p # ps) (add_link c) b = Inr ((), b2)" using b1(1) b2(1) by (simp add: bindM_Inr)
  moreover have "restores b (fold (a_link (inum b c)) (map par_num (p # ps)) (table_of b)) b2"
    using restores_trans[OF b1(2) b2(2)] c(2,4) by simp
  ultimately show ?case by blast
qed

text \<open>The first two parts of \<open>AddInode\<close>: the inode, and its fields.\<close>

definition start_inode :: "DumpInode \<Rightarrow> (rawBridge, addr) M" where
  "start_inode d =
    bindM (getsM (\<lambda>b. go_get (nodes b) (di_Ino d))) (\<lambda>a0.
    bindM (if a0 \<noteq> nil then ret a0
           else
             bindM (alloc (inode_zero\<lparr>ino := di_Ino d\<rparr>)) (\<lambda>a.
             bindM (modifyM (\<lambda>b. b\<lparr>nodes := AList.update (di_Ino d) a (nodes b)\<rparr>)) (\<lambda>_.
             ret a))) (\<lambda>a.
    bindM (modifyM (upd a (fields_fun d))) (\<lambda>_. ret a)))"

lemma fields_three:
  "upd a (\<lambda>n. if di_IsDir d \<and> children n = None then n\<lparr>children := Some []\<rparr> else n)
     (upd a (\<lambda>n. n\<lparr>lookupCount := di_LookupCount d\<rparr>) (upd a (\<lambda>n. n\<lparr>revision := di_Revision d\<rparr>) b)) =
   upd a (fields_fun d) b"
  by (simp add: upd_def fields_fun_def)

lemma AddInode_eq:
  "AddInode d r = bindM (start_inode d) (\<lambda>a. bindM (forM (di_Parents d) (add_link a)) (\<lambda>_.
    ret (r\<lparr>ir_addNodeCount := ir_addNodeCount r + 1\<rparr>)))"
  unfolding AddInode_def start_inode_def add_link_def[abs_def]
  by (rule ext) (simp add: bindM_def getsM_def modifyM_def ret_def alloc_apply fields_three)

lemma start_inode_restores:
  assumes "contained b"
  shows "\<exists>a b'. start_inode d b = Inr (a, b') \<and> tabled b' a \<and> inum b' a = di_Ino d \<and>
    restores b (a_fields (di_Ino d) (di_Revision d) (di_LookupCount d) (di_IsDir d) (table_of b)) b'"
proof (cases "node_of b (di_Ino d) = nil")
  case True
  let ?b = "new_st (di_Ino d) False b"
  note n = new_restores[OF assms True, of False]
  have "contained ?b" using n(1) by (simp add: restores_def)
  note f = fields_restores[OF this n(2,3)]
  have "start_inode d b = Inr (hnext b, upd (hnext b) (fields_fun d) ?b)"
    using newM[of "di_Ino d" False b] by (simp add: start_inode_def bindM_gets True new_zero bindM_Inr bindM_modify ret_apply)
  moreover have "a_fields (di_Ino d) (di_Revision d) (di_LookupCount d) (di_IsDir d)
      ((table_of b)(di_Ino d \<mapsto> Anode 0 0 None [])) =
      a_fields (di_Ino d) (di_Revision d) (di_LookupCount d) (di_IsDir d) (table_of b)"
    using True by (simp add: a_fields_def table_of_def)
  ultimately show ?thesis
    using restores_trans[OF n(1) f] restoresD[OF n(1)] n(2,3) by (auto simp: fields_views)
next
  case False
  note t = tabled_node[OF assms False] num_node[OF assms False]
  have "start_inode d b = Inr (node_of b (di_Ino d), upd (node_of b (di_Ino d)) (fields_fun d) b)"
    by (simp add: start_inode_def bindM_gets False bindM_ret bindM_modify ret_apply)
  with t fields_restores[OF assms t] show ?thesis by (auto simp: fields_views)
qed

lemma AddInode_restores:
  assumes "contained b"
    and "\<And>p. p \<in> set (di_Parents d) \<Longrightarrow>
      no_file (a_fields (di_Ino d) (di_Revision d) (di_LookupCount d) (di_IsDir d) (table_of b)) (dp_Node p)"
  shows "\<exists>b'. AddInode d r b = Inr (r\<lparr>ir_addNodeCount := ir_addNodeCount r + 1\<rparr>, b') \<and>
    restores b (a_add d (table_of b)) b'"
proof -
  obtain a b1 where b1: "start_inode d b = Inr (a, b1)" "tabled b1 a" "inum b1 a = di_Ino d"
      "restores b (a_fields (di_Ino d) (di_Revision d) (di_LookupCount d) (di_IsDir d) (table_of b)) b1"
    using start_inode_restores[OF assms(1)] by blast
  have "contained b1" and t: "table_of b1 = a_fields (di_Ino d) (di_Revision d) (di_LookupCount d) (di_IsDir d) (table_of b)"
    using b1(4) by (simp_all add: restores_def)
  then obtain b2 where b2: "forM (di_Parents d) (add_link a) b1 = Inr ((), b2)"
      "restores b1 (fold (a_link (inum b1 a)) (map par_num (di_Parents d)) (table_of b1)) b2"
    using add_links_restores[OF \<open>contained b1\<close> b1(2), of "di_Parents d"] assms(2) by auto
  have "AddInode d r b = Inr (r\<lparr>ir_addNodeCount := ir_addNodeCount r + 1\<rparr>, b2)"
    by (simp add: AddInode_eq bindM_Inr b1(1) b2(1) ret_apply)
  moreover have "restores b (a_add d (table_of b)) b2"
    using restores_trans[OF b1(4) b2(2)] t b1(3) by (simp add: a_add_def)
  ultimately show ?thesis by blast
qed

section \<open>Restoring a dump\<close>

lemma dumped_parent:
  assumes "consistent S" "dumped S d" "p \<in> set (di_Parents d)" "di_Ino d \<notin> D"
  shows "no_file (a_fields (di_Ino d) (di_Revision d) (di_LookupCount d) (di_IsDir d) (restored S D)) (dp_Node p)"
proof -
  obtain n where n: "S (di_Ino d) = Some n" "di_Revision d = an_rev n" "di_LookupCount d = an_cnt n"
      "di_IsDir d = (an_dir n \<noteq> None)" "map par_num (di_Parents d) = rev (an_par n)"
    using assms(2) by (auto simp: dumped_def)
  have "par_num p \<in> set (map par_num (di_Parents d))" using assms(3) by simp
  then have "(dp_Name p, dp_Node p) \<in> set (an_par n)" by (simp add: n(5) par_num_def)
  then obtain n' f where p: "S (dp_Node p) = Some n'" "an_dir n' = Some f"
    using assms(1) n(1) unfolding consistent_def by blast
  have "no_file ((restored S D)(di_Ino d \<mapsto> Anode (an_rev n) (an_cnt n) (map_option (within D) (an_dir n)) [])) (dp_Node p)"
    using p n(1) by (auto simp: no_file_def restored_def split: if_splits)
  then show ?thesis using fields_restored[of S "di_Ino d" n D] n(1) assms(4) by (simp add: n(2-4))
qed

lemma restore_loop_restores:
  assumes "consistent S" "\<And>d. d \<in> set ds \<Longrightarrow> dumped S d" "distinct (map di_Ino ds)"
    and "contained b" "table_of b = restored S D" "D \<inter> di_Ino ` set ds = {}"
  shows "\<exists>b'. restore_loop ds r b = Inr (r\<lparr>ir_addNodeCount := ir_addNodeCount r + length ds\<rparr>, b') \<and>
    restores b (restored S (D \<union> di_Ino ` set ds)) b'"
  using assms(2-)
proof (induction ds arbitrary: b D r)
  case Nil
  then show ?case using restores_refl[of b] by (simp add: ret_apply)
next
  case (Cons d ds)
  let ?r = "r\<lparr>ir_addNodeCount := ir_addNodeCount r + 1\<rparr>"
  have d: "dumped S d" "di_Ino d \<notin> D" using Cons.prems(1,5) by auto
  obtain b1 where b1: "AddInode d r b = Inr (?r, b1)" "restores b (a_add d (table_of b)) b1"
    using AddInode_restores[OF Cons.prems(3), of d r] dumped_parent[OF assms(1) d(1) _ d(2)] Cons.prems(4) by auto
  have t: "contained b1" "table_of b1 = restored S (insert (di_Ino d) D)"
    using restoresD[OF b1(2)] add_restored[OF assms(1) d] Cons.prems(4) by simp_all
  have "\<exists>b'. restore_loop ds ?r b1 = Inr (?r\<lparr>ir_addNodeCount := ir_addNodeCount ?r + length ds\<rparr>, b') \<and>
      restores b1 (restored S (insert (di_Ino d) D \<union> di_Ino ` set ds)) b'"
    by (rule Cons.IH) (use Cons.prems t in auto)
  then obtain b2 where b2: "restore_loop ds ?r b1 = Inr (?r\<lparr>ir_addNodeCount := ir_addNodeCount ?r + length ds\<rparr>, b2)"
      "restores b1 (restored S (insert (di_Ino d) D \<union> di_Ino ` set ds)) b2" by blast
  have "restore_loop (d # ds) r b = Inr (r\<lparr>ir_addNodeCount := ir_addNodeCount r + length (d # ds)\<rparr>, b2)"
    using b2(1) by (simp add: bindM_def b1(1))
  moreover have "restores b (restored S (D \<union> di_Ino ` set (d # ds))) b2"
    using restores_trans[OF b1(2) b2(2)] by simp
  ultimately show ?case by blast
qed

definition cleared :: "DumpRawBridge \<Rightarrow> rawBridge \<Rightarrow> rawBridge" where
  "cleared data b = b\<lparr>nodes := [],
     files := map (\<lambda>v. \<lparr>fe_opener = df_Opener v, fe_path = df_Path v, fe_uFh = df_UFh v, fe_stream = df_Stream v\<rparr>)
       (db_Files data),
     freeFiles := db_FreeFiles data\<rparr>"

lemma Restore_eq: "Restore data b = Inr (\<lparr>ir_nodeCount = db_NodeCount data, ir_addNodeCount = 0\<rparr>, cleared data b)"
  by (simp add: Restore_def monad_simps cleared_def)

lemma cleared_contained:
  assumes "0 < clock b" "0 < hnext b"
  shows "contained (cleared data b)" "table_of (cleared data b) = Map.empty"
  using assms by (simp_all add: contained_def contained_tab_def cleared_def tabled_def registered_def table_of_def fun_eq_iff)

lemma Finished_ok:
  assumes "node_of b 1 \<noteq> nil" "ir_nodeCount r \<le> ir_addNodeCount r"
  shows "Finished r b = Inr (None, b\<lparr>root := node_of b 1, nodeCountHigh := length (nodes b)\<rparr>)"
  using assms by (simp add: Finished_def monad_simps)

text \<open>\<open>Finished\<close> when inodes are missing: the inodes that never changed are logged as lost.\<close>

definition lost_logs :: "rawBridge \<Rightarrow> (u64 \<times> addr) list \<Rightarrow> rawBridge \<Rightarrow> rawBridge" where
  "lost_logs b0 ns b = (if op_Logger (options b)
     then b\<lparr>logs := logs b @ map (\<lambda>p. Log_lost (ino (heap b0 (snd p)))) (filter (\<lambda>p. revision (heap b0 (snd p)) = 0) ns)\<rparr>
     else b)"

lemma lost_loop:
  "heap b = heap b0 \<Longrightarrow>
   forM ns (\<lambda>(i, a). bindM (getsM (\<lambda>b. heap b a)) (\<lambda>n.
     if revision n = 0 then logf (Log_lost (ino n)) else ret ())) b = Inr ((), lost_logs b0 ns b)"
  by (induction ns arbitrary: b) (auto simp: monad_simps logf_def lost_logs_def bindM_def getsM_def ret_def modifyM_def)

lemma Finished_missing:
  assumes "ir_addNodeCount r < ir_nodeCount r"
  shows "\<exists>b'. Finished r b = Inr (Some (if node_of b 1 = nil then Root_not_found
      else Inodes_missing (ir_nodeCount r) (ir_addNodeCount r)), b') \<and> nodes b' = nodes b \<and> heap b' = heap b"
proof (cases "node_of b 1 = nil")
  case False
  let ?b = "b\<lparr>root := node_of b 1\<rparr>"
  have "Finished r b = Inr (Some (Inodes_missing (ir_nodeCount r) (ir_addNodeCount r)), lost_logs ?b (nodes b) ?b)"
    using assms False lost_loop[of ?b ?b "nodes b"]
    by (simp add: Finished_def bindM_gets bindM_modify bindM_Inr ret_apply)
  with False show ?thesis by (simp add: lost_logs_def)
qed (simp add: Finished_def monad_simps)

definition finish_st :: "rawBridge \<Rightarrow> rawBridge" where
  "finish_st b = b\<lparr>root := node_of b 1, nodeCountHigh := length (nodes b)\<rparr>"

text \<open>Restoring all the inodes of a consistent table, in any order.\<close>

lemma receive_restores:
  assumes "consistent S" "\<And>d. d \<in> set ds \<Longrightarrow> dumped S d" "distinct (map di_Ino ds)"
    and "\<And>i. S i \<noteq> None \<Longrightarrow> i \<in> di_Ino ` set ds" "S 1 \<noteq> None"
    and "db_NodeCount data \<le> length ds" "0 < clock b" "0 < hnext b"
  shows "\<exists>b'. receive data ds b = Inr (None, finish_st b') \<and> restores (cleared data b) S b'"
proof -
  let ?r = "\<lparr>ir_nodeCount = db_NodeCount data, ir_addNodeCount = 0\<rparr>"
  obtain b1 where b1: "restore_loop ds ?r (cleared data b) = Inr (?r\<lparr>ir_addNodeCount := length ds\<rparr>, b1)"
      "restores (cleared data b) (restored S (di_Ino ` set ds)) b1"
    using restore_loop_restores[OF assms(1-3) cleared_contained(1)[OF assms(7,8), of data], of "{}" ?r]
      cleared_contained(2)[OF assms(7,8), of data] by (auto simp: restored_empty)
  have S: "restored S (di_Ino ` set ds) = S" using restored_all[OF assms(1,4)] .
  then have "node_of b1 1 \<noteq> nil"
    using restoresD[OF b1(2)] assms(5) by (auto simp: table_of_def fun_eq_iff split: if_splits)
  then have "receive data ds b = Inr (None, finish_st b1)"
    using b1(1) assms(6) Finished_ok[of b1 "?r\<lparr>ir_addNodeCount := length ds\<rparr>"]
    by (simp add: receive_def bindM_def Restore_eq finish_st_def)
  with b1(2) S show ?thesis by auto
qed

section \<open>Dumping a tree\<close>

definition ticked :: "rawBridge \<Rightarrow> rawBridge \<Rightarrow> bool" where
  "ticked b b' \<longleftrightarrow> clock b \<le> clock b' \<and> b' = b\<lparr>clock := clock b'\<rparr>"

definition dump_node :: "rawBridge \<Rightarrow> addr \<Rightarrow> DumpInode" where
  "dump_node b a =
    \<lparr>di_Ino = inum b a, di_Revision = revision (heap b a), di_LookupCount = lookups b a,
     di_Parents = map (\<lambda>e. \<lparr>dp_Name = pe_name e, dp_Node = inum b (pe_node e)\<rparr>) (rev (recency (parents (heap b a)))),
     di_IsDir = isDir (heap b a)\<rparr>"

lemma ticked_refl: "ticked b b"
  by (simp add: ticked_def)

lemma ticked_trans: "ticked b b' \<Longrightarrow> ticked b' b'' \<Longrightarrow> ticked b b''"
  unfolding ticked_def by (metis (no_types, lifting) le_trans rawBridge.surjective rawBridge.update_convs(9))

lemma ticked_heap: "ticked b b' \<Longrightarrow> heap b' = heap b \<and> nodes b' = nodes b \<and> clock b \<le> clock b'"
  unfolding ticked_def by (metis rawBridge.ext_inject rawBridge.surjective rawBridge.update_convs(9))

lemma parents_Dump_eq:
  assumes "parents_timed (clock b) p"
  shows "\<exists>b'. parents_Dump p b =
      Inr (map (\<lambda>e. \<lparr>dp_Name = pe_name e, dp_Node = inum b (pe_node e)\<rparr>) (rev (recency p)), b') \<and> ticked b b'"
proof (cases "parents_count p = 0")
  case True
  then have "recency p = []" using recency_count[of p] by simp
  with True ticked_refl[of b] show ?thesis by (auto simp: parents_Dump_def monad_simps)
next
  case False
  then have "parents_Dump p b = Inr (map (\<lambda>e. \<lparr>dp_Name = pe_name e, dp_Node = inum b (pe_node e)\<rparr>) (rev (recency p)),
      b\<lparr>clock := Suc (clock b)\<rparr>)"
    by (simp add: parents_Dump_def bindM_def now_apply ret_def getsM_def sortParents_rev_recency[OF assms] inum_def)
  then show ?thesis by (auto simp: ticked_def)
qed

lemma Next_eq:
  assumes "id_off s < length (id_inodes s)" "parents_timed (clock b) (parents (heap b (id_inodes s ! id_off s)))"
  shows "\<exists>b'. Next s b = Inr ((Some (dump_node b (id_inodes s ! id_off s)), s\<lparr>id_off := id_off s + 1\<rparr>), b') \<and> ticked b b'"
proof -
  obtain b' where "parents_Dump (parents (heap b (id_inodes s ! id_off s))) b =
      Inr (map (\<lambda>e. \<lparr>dp_Name = pe_name e, dp_Node = inum b (pe_node e)\<rparr>)
        (rev (recency (parents (heap b (id_inodes s ! id_off s))))), b')" "ticked b b'"
    using parents_Dump_eq[OF assms(2)] by blast
  then show ?thesis
    using assms(1) by (auto simp: Next_def bindM_def getsM_def ret_def dump_node_def inum_def lookups_def)
qed

lemma dump_node_ticked: "ticked b b' \<Longrightarrow> dump_node b' = dump_node b"
  using ticked_heap[of b b'] by (simp add: dump_node_def inum_def lookups_def fun_eq_iff)

lemma dump_loop_eq:
  assumes "\<And>a. a \<in> set (id_inodes s) \<Longrightarrow> parents_timed (clock b) (parents (heap b a))"
    and "length (id_inodes s) - id_off s < k"
  shows "\<exists>b'. dump_loop k s b = Inr (map (dump_node b) (drop (id_off s) (id_inodes s)), b') \<and> ticked b b'"
  using assms
proof (induction k arbitrary: s b)
  case (Suc k)
  show ?case
  proof (cases "id_off s < length (id_inodes s)")
    case False
    then show ?thesis using ticked_refl by (auto simp: Next_def bindM_def ret_def)
  next
    case True
    let ?a = "id_inodes s ! id_off s" let ?s = "s\<lparr>id_off := id_off s + 1\<rparr>"
    obtain b1 where b1: "Next s b = Inr ((Some (dump_node b ?a), ?s), b1)" "ticked b b1"
      using Next_eq[OF True] Suc.prems(1) True by (meson nth_mem)
    have "parents_timed (clock b1) (parents (heap b1 a))" if "a \<in> set (id_inodes ?s)" for a
      using Suc.prems(1)[of a] that ticked_heap[OF b1(2)] parents_timed_mono by auto
    moreover have "length (id_inodes ?s) - id_off ?s < k" using Suc.prems(2) True by simp
    ultimately obtain b2 where b2: "dump_loop k ?s b1 = Inr (map (dump_node b1) (drop (id_off ?s) (id_inodes ?s)), b2)"
        "ticked b1 b2"
      using Suc.IH[of ?s b1] by blast
    have "dump_loop (Suc k) s b = Inr (map (dump_node b) (drop (id_off s) (id_inodes s)), b2)"
      using b2(1) True dump_node_ticked[OF b1(2)] by (simp add: bindM_def b1(1) ret_def Cons_nth_drop_Suc[symmetric])
    with ticked_trans[OF b1(2) b2(2)] show ?thesis by blast
  qed
qed simp

lemma tree_tabled:
  assumes "tree_ok b"
  shows "tabled b a \<longleftrightarrow> valid b a \<and> registered b a"
proof -
  have "valid b a" if "tabled b a"
    using that tree_okD(4)[OF assms] tabled_num[OF that] unfolding tabled_def tab_ok_def by metis
  then show ?thesis by (auto simp: tabled_def valid_def)
qed

lemma tree_contained:
  assumes "tree_ok b"
  shows "contained b"
proof -
  note t = tree_okD[OF assms]
  have "contained_tab b" using t(4) by (auto simp: contained_tab_def tab_ok_def valid_def)
  moreover have "contained_node b a" if "tabled b a" for a
  proof -
    have v: "valid b a" "registered b a" using that tree_tabled[OF assms] by simp_all
    have "tabled b (edge b a m)" if m: "edge b a m \<noteq> nil" for m
    proof -
      have c: "valid b (edge b a m)" using edges_okD(2)[OF t(3) v(1) m] .
      then have "pent m a \<in> pset b (edge b a m)" using edges_okD(1)[OF t(3) v(1), of "edge b a m" m] by simp
      then have "registered b (edge b a m)" using t(5) c unfolding live_ok_def by blast
      with c show ?thesis by (simp add: tree_tabled[OF assms])
    qed
    moreover have "tabled b (pe_node e)" if "e \<in> pset b a" for e
      using parent_registered[OF t(1) v(1) that] by (simp add: tree_tabled[OF assms])
    ultimately show ?thesis using t(2) v(1) by (simp add: contained_node_def heap_ok_def)
  qed
  ultimately show ?thesis by (simp add: contained_def)
qed

lemma table_Some:
  assumes "contained b" "table_of b i = Some n"
  obtains a where "tabled b a" "inum b a = i" "node_of b i = a" "n = anode_of b a"
proof (rule that[of "node_of b i"])
  have n: "node_of b i \<noteq> nil" using assms(2) by (auto simp: table_of_def split: if_splits)
  show "tabled b (node_of b i)" "inum b (node_of b i) = i" "n = anode_of b (node_of b i)"
    using tabled_node[OF assms(1) n] num_node[OF assms(1) n] assms(2) n by (simp_all add: table_of_def)
qed simp

lemma table_dir:
  assumes "contained b" "tabled b a" "tabled b c"
  shows "(\<exists>f. an_dir (anode_of b a) = Some f \<and> f m = Some (inum b c)) \<longleftrightarrow> edge b a m = c"
proof -
  have nil: "c \<noteq> nil" using assms(3) by (simp add: tabled_def)
  have "isDir (heap b a)" if "edge b a m \<noteq> nil"
    using that by (auto simp: edge_def child_def childmap_def isDir_def split: option.splits)
  moreover have "inum b (edge b a m) = inum b c \<longleftrightarrow> edge b a m = c" if "edge b a m \<noteq> nil"
    using containedD[OF assms(1,2)] that assms(3) tabled_inj unfolding contained_node_def by blast
  ultimately show ?thesis using nil by (auto simp: anode_of_def dir_of_def)
qed

lemma table_par:
  assumes "contained b" "tabled b a" "tabled b p"
  shows "(m, inum b p) \<in> set (an_par (anode_of b a)) \<longleftrightarrow> pent m p \<in> pset b a"
proof -
  have "e = pent m p" if "e \<in> pset b a" "entry_num b e = (m, inum b p)" for e
    using that containedD[OF assms(1,2)] assms(3) tabled_inj[of b "pe_node e" p] pent_eta[of e]
    by (simp add: contained_node_def entry_num_def)
  moreover have "(m, inum b p) \<in> set (an_par (anode_of b a)) \<longleftrightarrow> (\<exists>e \<in> pset b a. entry_num b e = (m, inum b p))"
    by (force simp: anode_of_def set_recency pset_def)
  moreover have "entry_num b (pent m p) = (m, inum b p)" by (simp add: entry_num_def)
  ultimately show ?thesis by blast
qed

lemma par_tabled:
  assumes "contained b" "tabled b a" "(m, i) \<in> set (an_par (anode_of b a))"
  obtains p where "tabled b p" "inum b p = i"
proof -
  from assms(3) obtain e where "e \<in> pset b a" "entry_num b e = (m, i)"
    by (auto simp: anode_of_def set_recency pset_def)
  then show ?thesis using that containedD[OF assms(1,2)] by (auto simp: entry_num_def contained_node_def)
qed

lemma dir_tabled:
  assumes "contained b" "tabled b a" "an_dir (anode_of b a) = Some f" "f m = Some i"
  obtains c where "tabled b c" "inum b c = i"
proof (rule that[of "edge b a m"])
  have "edge b a m \<noteq> nil" "inum b (edge b a m) = i"
    using assms(3,4) by (auto simp: anode_of_def dir_of_def split: if_splits)
  then show "tabled b (edge b a m)" "inum b (edge b a m) = i"
    using containedD[OF assms(1,2)] by (simp_all add: contained_node_def)
qed

lemma tree_consistent:
  assumes "tree_ok b"
  shows "consistent (table_of b)"
proof -
  note cl = tree_contained[OF assms] and e = tree_okD(3)[OF assms]
  have v: "valid b a" if "tabled b a" for a using that tree_tabled[OF assms] by simp
  show ?thesis
    unfolding consistent_def
  proof (intro conjI allI impI)
    fix c n m i
    assume "table_of b c = Some n"
    then obtain a where a: "tabled b a" "inum b a = c" "n = anode_of b a" by (rule table_Some[OF cl])
    show "(m, i) \<in> set (an_par n) \<longleftrightarrow> (\<exists>n' f. table_of b i = Some n' \<and> an_dir n' = Some f \<and> f m = Some c)"
    proof
      assume l: "(m, i) \<in> set (an_par n)"
      then obtain p where p: "tabled b p" "inum b p = i" using par_tabled[OF cl a(1)] a(3) by blast
      then have "edge b p m = a"
        using l table_par[OF cl a(1) p(1)] edges_okD(1)[OF e v[OF p(1)] v[OF a(1)]] a(3) by simp
      then show "\<exists>n' f. table_of b i = Some n' \<and> an_dir n' = Some f \<and> f m = Some c"
        using table_dir[OF cl p(1) a(1)] table_tabled[OF p(1)] p(2) a(2) by auto
    next
      assume "\<exists>n' f. table_of b i = Some n' \<and> an_dir n' = Some f \<and> f m = Some c"
      then obtain n' f where f: "table_of b i = Some n'" "an_dir n' = Some f" "f m = Some c" by blast
      obtain p where p: "tabled b p" "inum b p = i" "n' = anode_of b p" using table_Some[OF cl f(1)] by metis
      then have "edge b p m = a" using table_dir[OF cl p(1) a(1)] f(2,3) a(2) by blast
      then show "(m, i) \<in> set (an_par n)"
        using table_par[OF cl a(1) p(1)] edges_okD(1)[OF e v[OF p(1)] v[OF a(1)]] a(3) p(2) by simp
    qed
  next
    fix c n
    assume "table_of b c = Some n"
    then obtain a where a: "tabled b a" "n = anode_of b a" by (rule table_Some[OF cl])
    have cn: "contained_node b a" using containedD[OF cl a(1)] .
    have "inj_on (entry_num b) (set (recency (parents (heap b a))))"
      using cn tabled_inj[of b]
      by (intro inj_onI) (auto simp: entry_num_def contained_node_def pset_def set_recency)
    then show "distinct (an_par n)"
      using cn by (auto simp: a(2) anode_of_def distinct_map contained_node_def dest!: parents_timed_ok intro: distinct_recency)
  next
    fix i n f m c
    assume "table_of b i = Some n" and f: "an_dir n = Some f" "f m = Some c"
    then obtain a where a: "tabled b a" "n = anode_of b a" using table_Some[OF cl] by metis
    obtain x where "tabled b x" "inum b x = c" by (rule dir_tabled[OF cl a(1) f(1)[unfolded a(2)] f(2)])
    then show "table_of b c \<noteq> None" using table_tabled by auto
  qed
qed

definition dump_data :: "rawBridge \<Rightarrow> DumpRawBridge" where
  "dump_data b = \<lparr>db_NodeCount = length (nodes b),
     db_Files = map (\<lambda>f. \<lparr>df_Opener = fe_opener f, df_Path = fe_path f, df_UFh = fe_uFh f, df_Stream = fe_stream f\<rparr>) (files b),
     db_FreeFiles = freeFiles b\<rparr>"

lemma nodes_tabled:
  assumes "tree_ok b" "(i, a) \<in> set (nodes b)"
  shows "tabled b a" "inum b a = i" "node_of b i = a"
proof -
  have g: "go_map_ok (nodes b)" using tree_okD(4)[OF assms(1)] by (simp add: tab_ok_def)
  have "a \<noteq> nil" using g assms(2) by (force simp: go_map_ok_def)
  then show n: "node_of b i = a" using go_get_eq_iff[OF g] assms(2) by blast
  show "tabled b a" "inum b a = i"
    using tabled_node[OF tree_contained[OF assms(1)], of i] num_node[OF tree_contained[OF assms(1)], of i] n \<open>a \<noteq> nil\<close>
    by simp_all
qed

lemma send_eq:
  assumes "tree_ok b"
  shows "\<exists>b'. send b = Inr ((dump_data b, map (dump_node b) (map snd (nodes b))), b') \<and> ticked b b'"
proof -
  let ?it = "NewInodeDumper (nodes b)"
  have "parents_timed (clock b) (parents (heap b a))" if "a \<in> set (id_inodes ?it)" for a
    using that nodes_tabled(1)[OF assms] containedD[OF tree_contained[OF assms], of a]
    by (auto simp: NewInodeDumper_def contained_node_def)
  from dump_loop_eq[of ?it b "Suc (length (id_inodes ?it))", OF this]
  obtain b' where b': "dump_loop (Suc (length (id_inodes ?it))) ?it b =
      Inr (map (dump_node b) (drop (id_off ?it) (id_inodes ?it)), b')" "ticked b b'"
    by (meson le_imp_less_Suc diff_le_self)
  have "bridge_Dump b = Inr ((dump_data b, ?it), b)"
    by (simp add: bridge_Dump_def monad_simps NodeCount_def dump_data_def)
  then have "send b = Inr ((dump_data b, map (dump_node b) (map snd (nodes b))), b')"
    using b'(1) by (simp add: send_def bindM_def ret_def NewInodeDumper_def del: dump_loop.simps)
  with b'(2) show ?thesis by blast
qed

lemma dump_node_dumped:
  assumes "tabled b a"
  shows "dumped (table_of b) (dump_node b a)"
  using table_tabled[OF assms]
  by (simp add: dumped_def dump_node_def) (simp add: anode_of_def dir_of_def rev_map comp_def par_num_def entry_num_def)

section \<open>Two bridges with the same table\<close>

lemma finish_views [simp]:
  "nodes (finish_st b) = nodes b" "heap (finish_st b) = heap b" "hnext (finish_st b) = hnext b"
  "clock (finish_st b) = clock b" "files (finish_st b) = files b" "freeFiles (finish_st b) = freeFiles b"
  "options (finish_st b) = options b" "root (finish_st b) = node_of b 1" "nodeCountHigh (finish_st b) = length (nodes b)"
  by (simp_all add: finish_st_def)

lemma table_cong:
  assumes "nodes b' = nodes b" "heap b' = heap b"
  shows "table_of b' = table_of b"
proof -
  have "inum b' = inum b" "edge b' = edge b" "lookups b' = lookups b"
    using assms by (simp_all add: inum_def edge_def lookups_def fun_eq_iff)
  then have "entry_num b' = entry_num b" "dir_of b' = dir_of b" by (simp_all add: fun_eq_iff entry_num_def dir_of_def assms)
  then have "anode_of b' = anode_of b" using \<open>lookups b' = lookups b\<close> by (simp add: fun_eq_iff anode_of_def assms)
  with assms show ?thesis by (simp add: fun_eq_iff table_of_def)
qed

lemma contained_cong:
  assumes "nodes b' = nodes b" "heap b' = heap b" "hnext b' = hnext b" "clock b' = clock b"
  shows "contained b' = contained b" "tabled b' = tabled b" "full b' = full b"
proof -
  have v: "inum b' = inum b" "edge b' = edge b" "pset b' = pset b" "valid b' = valid b"
    using assms by (simp_all add: inum_def edge_def pset_def valid_def fun_eq_iff)
  show t: "tabled b' = tabled b" by (simp add: fun_eq_iff tabled_def registered_def v assms)
  show "contained b' = contained b" by (simp add: contained_def contained_tab_def contained_node_def v t assms)
  show "full b' = full b" by (simp add: full_def registered_def v assms)
qed

definition same_table :: "rawBridge \<Rightarrow> rawBridge \<Rightarrow> bool" where
  "same_table b r \<longleftrightarrow> contained b \<and> contained r \<and> table_of r = table_of b"

text \<open>The inode of \<open>b\<close> with the number that \<open>a\<close> has in \<open>r\<close>.\<close>

definition twin :: "rawBridge \<Rightarrow> rawBridge \<Rightarrow> addr \<Rightarrow> addr" where
  "twin b r a = node_of b (inum r a)"

lemma same_tableD:
  assumes "same_table b r"
  shows "contained b" "contained r" "table_of r = table_of b"
  using assms by (simp_all add: same_table_def)

lemma twin_tabled:
  assumes "same_table b r" "tabled r a"
  shows "tabled b (twin b r a) \<and> inum b (twin b r a) = inum r a"
proof -
  note contained = same_tableD(1,2)[OF assms(1)]
  have "table_of b (inum r a) \<noteq> None" using table_tabled[OF assms(2)] same_tableD(3)[OF assms(1)] by simp
  then have "node_of b (inum r a) \<noteq> nil" by (auto simp: table_of_def split: if_splits)
  then show ?thesis using tabled_node[OF contained(1)] num_node[OF contained(1)] by (simp add: twin_def)
qed

lemma twin_anode: "same_table b r \<Longrightarrow> tabled r a \<Longrightarrow> anode_of b (twin b r a) = anode_of r a"
  using table_tabled[of r a] table_tabled[of b "twin b r a"] twin_tabled[of b r a] same_tableD(3)[of b r] by simp

lemma twin_views:
  assumes "same_table b r" "tabled r a"
  shows "lookups b (twin b r a) = lookups r a" "isDir (heap b (twin b r a)) = isDir (heap r a)"
    "map (entry_num b) (recency (parents (heap b (twin b r a)))) = map (entry_num r) (recency (parents (heap r a)))"
  using twin_anode[OF assms] by (simp_all add: anode_of_def) (auto simp: dir_of_def split: if_splits)

lemma twin_edge:
  assumes "same_table b r" "tabled r a" "tabled r c"
  shows "edge b (twin b r a) m = twin b r c \<longleftrightarrow> edge r a m = c"
  using table_dir[OF same_tableD(1)[OF assms(1)], of "twin b r a" "twin b r c" m] table_dir[OF same_tableD(2)[OF assms(1)] assms(2,3), of m]
    twin_tabled[OF assms(1,2)] twin_tabled[OF assms(1,3)] twin_anode[OF assms(1,2)]
  by simp

lemma twin_no_edge:
  assumes "same_table b r" "tabled r a"
  shows "edge b (twin b r a) m = nil \<longleftrightarrow> edge r a m = nil"
proof -
  have "(\<exists>f i. an_dir (anode_of x y) = Some f \<and> f m = Some i) \<longleftrightarrow> edge x y m \<noteq> nil" for x y
    by (auto simp: anode_of_def dir_of_def edge_def child_def childmap_def isDir_def split: option.splits)
  then show ?thesis using twin_anode[OF assms] by metis
qed

lemma twin_pset: "same_table b r \<Longrightarrow> tabled r a \<Longrightarrow> pset b (twin b r a) = {} \<longleftrightarrow> pset r a = {}"
  using twin_views(3)[of b r a] by (metis list.map_disc_iff pset_def set_empty set_recency)

text \<open>The newest parents.\<close>

lemma newest_recency: "parents_ok p \<Longrightarrow> parents_get p = e \<Longrightarrow> pe_node e \<noteq> nil \<Longrightarrow> \<exists>es. recency p = e # es"
  by (auto simp: recency_get parentEntry_zero_def split: list.splits)

lemma twin_newest:
  assumes "same_table b r" "tabled r a" "parents_get (parents (heap r a)) = e" "pe_node e \<noteq> nil"
  shows "parents_get (parents (heap b (twin b r a))) = pent (pe_name e) (twin b r (pe_node e))" "tabled r (pe_node e)"
proof -
  note contained = same_tableD(1,2)[OF assms(1)]
  have ok: "parents_ok (parents (heap r a))" "parents_ok (parents (heap b (twin b r a)))"
    using containedD[OF contained(2) assms(2)] containedD[OF contained(1)] twin_tabled[OF assms(1,2)]
    by (auto simp: contained_node_def dest: parents_timed_ok)
  obtain es where es: "recency (parents (heap r a)) = e # es" using newest_recency[OF ok(1) assms(3,4)] by blast
  then have "e \<in> pset r a" by (simp add: pset_def set_recency[symmetric])
  then show t: "tabled r (pe_node e)" using containedD[OF contained(2) assms(2)] by (simp add: contained_node_def)
  obtain e' es' where e': "recency (parents (heap b (twin b r a))) = e' # es'" "entry_num b e' = entry_num r e"
    using twin_views(3)[OF assms(1,2)] es by auto
  have "e' \<in> pset b (twin b r a)" using e'(1) by (simp add: pset_def set_recency[symmetric])
  then have "tabled b (pe_node e')"
    using containedD[OF contained(1), of "twin b r a"] twin_tabled[OF assms(1,2)] by (simp add: contained_node_def)
  then have "pe_node e' = twin b r (pe_node e)"
    using e'(2) tabled_num[of b "pe_node e'"] by (simp add: entry_num_def twin_def)
  moreover have "pe_name e' = pe_name e" using e'(2) by (simp add: entry_num_def)
  ultimately have "e' = pent (pe_name e) (twin b r (pe_node e))" using pent_eta[of e'] by simp
  then show "parents_get (parents (heap b (twin b r a))) = pent (pe_name e) (twin b r (pe_node e))"
    using e'(1) ok(2) by (simp add: recency_get)
qed

lemma twin_named:
  assumes "named r a ns" "tabled r a" and s: "same_table b r" and root: "twin b r (root r) = root b"
    
    and inj: "tabled r (root r)"
  shows "named b (twin b r a) ns"
  using assms(1,2)
proof (induction rule: named.induct)
  case named_root
  then show ?case using root named.named_root[of b] by simp
next
  case (named_step a e ns)
  note n = twin_newest[OF s named_step.prems named_step.hyps(3,4)]
  have "twin b r a \<noteq> nil" using twin_tabled[OF s named_step.prems] by (simp add: tabled_def)
  moreover have "twin b r a \<noteq> root b"
    using twin_tabled[OF s named_step.prems] twin_tabled[OF s inj] root named_step.hyps(2)
      tabled_inj[OF named_step.prems inj] by auto
  moreover have "twin b r (pe_node e) \<noteq> nil" using twin_tabled[OF s n(2)] by (simp add: tabled_def)
  ultimately show ?case
    using named.named_step[of "twin b r a" b "pent (pe_name e) (twin b r (pe_node e))" ns] n named_step.IH by simp
qed

section \<open>The invariant of a restored bridge\<close>

lemma full_tabled: "full r \<Longrightarrow> contained r \<Longrightarrow> valid r a \<longleftrightarrow> tabled r a"
  using tabled_less[of r a] by (auto simp: full_def tabled_def valid_def)

lemma full_edges_ok:
  assumes "full r" "contained r" "consistent (table_of r)"
  shows "edges_ok r"
  unfolding edges_ok_def full_tabled[OF assms(1,2)]
proof (intro conjI allI impI)
  show "tabled r (edge r p m)" if "tabled r p" "edge r p m \<noteq> nil" for p m
    using containedD[OF assms(2) that(1)] that(2) by (simp add: contained_node_def)
  show "tabled r (pe_node e)" if "tabled r c" "e \<in> pset r c" for c e
    using containedD[OF assms(2) that(1)] that(2) by (simp add: contained_node_def)
  show "edge r p m = c \<longleftrightarrow> pent m p \<in> pset r c" if t: "tabled r p" "tabled r c" for p m c
  proof -
    have "(m, inum r p) \<in> set (an_par (anode_of r c)) \<longleftrightarrow>
        (\<exists>n' f. table_of r (inum r p) = Some n' \<and> an_dir n' = Some f \<and> f m = Some (inum r c))"
      using assms(3) table_tabled[OF t(2)] unfolding consistent_def by blast
    then show ?thesis
      using table_dir[OF assms(2) t] table_par[OF assms(2) t(2,1)] table_tabled[OF t(1)] by simp
  qed
qed

lemma twin_live:
  assumes "same_table b r" "tree_ok b" "full r" "tabled r a"
  shows "live r a"
proof -
  note s = same_tableD[OF assms(1)] and t = twin_tabled[OF assms(1,4)]
  have v: "valid b (twin b r a)" "registered b (twin b r a)" using t tree_tabled[OF assms(2)] by simp_all
  have h: "heap_ok r"
    using s(2) by (auto simp: heap_ok_def full_tabled[OF assms(3) s(2)] contained_node_def dest: containedD)
  have "live b (twin b r a)" using tree_okD(5)[OF assms(2)] v by (simp add: live_ok_def)
  then have "lookups b (twin b r a) \<noteq> 0 \<or> (\<exists>m. edge b (twin b r a) m \<noteq> nil)"
    using live_iff[OF tree_okD(2)[OF assms(2)] v(1)] by simp
  then have "lookups r a \<noteq> 0 \<or> (\<exists>m. edge r a m \<noteq> nil)"
    using twin_views(1)[OF assms(1,4)] twin_no_edge[OF assms(1,4)] by simp
  then show ?thesis using live_iff[OF h] full_tabled[OF assms(3) s(2)] assms(4) by simp
qed

lemma trancl_image:
  assumes "(x, y) \<in> R\<^sup>+" "\<And>x y. (x, y) \<in> R \<Longrightarrow> (f x, f y) \<in> S"
  shows "(f x, f y) \<in> S\<^sup>+"
  using assms(1) by (induction rule: trancl_induct) (use assms(2) in \<open>auto intro: trancl.intros\<close>)

lemma twin_acyclic:
  assumes "same_table b r" "tree_ok b" "acyclic (down b)" "full r"
  shows "acyclic (down r)"
proof -
  note s = same_tableD[OF assms(1)]
  have "(twin b r p, twin b r c) \<in> down b" if "(p, c) \<in> down r" for p c
  proof -
    obtain m where m: "tabled r p" "c \<noteq> nil" "edge r p m = c"
      using \<open>(p, c) \<in> down r\<close> by (auto simp: down_def full_tabled[OF assms(4) s(2)])
    then have c: "tabled r c" using containedD[OF s(2) m(1)] by (auto simp: contained_node_def)
    then have "edge b (twin b r p) m = twin b r c" using twin_edge[OF assms(1) m(1) c] m(3) by simp
    moreover have "valid b (twin b r p)" "twin b r c \<noteq> nil"
      using twin_tabled[OF assms(1) m(1)] twin_tabled[OF assms(1) c] tree_tabled[OF assms(2)]
      by (auto simp: tabled_def)
    ultimately show ?thesis by (auto simp: down_def)
  qed
  then show ?thesis using assms(3) trancl_image[of _ _ "down r" "twin b r" "down b"] unfolding acyclic_def by blast
qed

lemma restored_tree_ok:
  assumes "same_table b r" "tree_ok b" "full r" "node_of b 1 \<noteq> nil"
  shows "tree_ok (finish_st r)" "node_of r 1 \<noteq> nil" "twin b r (node_of r 1) = node_of b 1"
proof -
  note s = same_tableD[OF assms(1)]
  have n: "table_of r 1 \<noteq> None" using s(3) assms(4) by (simp add: table_of_def)
  then show r: "node_of r 1 \<noteq> nil" by (auto simp: table_of_def split: if_splits)
  note t = tabled_node[OF s(2) r] num_node[OF s(2) r]
  show "twin b r (node_of r 1) = node_of b 1" using t(2) by (simp add: twin_def)
  note f = full_tabled[OF assms(3) s(2)]
  have e: "edges_ok r" using full_edges_ok[OF assms(3) s(2)] tree_consistent[OF assms(2)] s(3) by simp
  have h: "heap_ok r" using s(2) by (auto simp: heap_ok_def f contained_node_def dest: containedD)
  have v: "inum (finish_st r) = inum r" "edge (finish_st r) = edge r" "pset (finish_st r) = pset r"
    "valid (finish_st r) = valid r" "registered (finish_st r) = registered r" "live (finish_st r) = live r"
    by (simp_all add: inum_def edge_def pset_def valid_def registered_def live_def fun_eq_iff)
  have "tab_ok (finish_st r)"
    using s(2) t f by (auto simp: tab_ok_def contained_def contained_tab_def v valid_def)
  moreover have "live_ok {} (finish_st r)"
    using twin_live[OF assms(1-3)] by (auto simp: live_ok_def v f tabled_def)
  ultimately show "tree_ok (finish_st r)"
    using e h by (simp add: tree_ok_def wf_upto_def edges_ok_def heap_ok_def v)
qed

lemma same_finish: "restores (cleared data r) (table_of b) r1 \<Longrightarrow> contained b \<Longrightarrow> same_table b r1 \<and> same_table b (finish_st r1)"
  using contained_cong(1)[of "finish_st r1" r1] table_cong[of "finish_st r1" r1]
  by (simp add: restores_def same_table_def)

text \<open>Some of the inodes of a dump, in any order.\<close>

lemma sub_dump:
  assumes "tree_ok b" "mset ds' \<subseteq># mset (map (dump_node b) (map snd (nodes b)))"
  shows "\<And>d. d \<in> set ds' \<Longrightarrow> dumped (table_of b) d" "distinct (map di_Ino ds')"
    and "mset ds' = mset (map (dump_node b) (map snd (nodes b))) \<Longrightarrow> table_of b i \<noteq> None \<Longrightarrow> i \<in> di_Ino ` set ds'"
proof -
  let ?ds = "map (dump_node b) (map snd (nodes b))"
  note nt = nodes_tabled[OF assms(1)]
  have num: "map di_Ino ?ds = map fst (nodes b)" using nt(2) by (auto simp: dump_node_def)
  obtain M where "mset ?ds = mset ds' + M" using assms(2) by (metis subset_mset.le_iff_add)
  then obtain xs where xs: "mset ?ds = mset (ds' @ xs)" by (metis ex_mset mset_append)
  then have set: "set ?ds = set (ds' @ xs)" by (metis set_mset_mset)
  then have "set ds' \<subseteq> set ?ds" by (metis Un_upper1 set_append)
  then show "dumped (table_of b) d" if "d \<in> set ds'" for d
    using that nt(1) dump_node_dumped by auto
  have "mset (map di_Ino ?ds) = mset (map di_Ino (ds' @ xs))" using xs by (metis mset_map)
  then have "mset (map fst (nodes b)) = mset (map di_Ino (ds' @ xs))" by (simp only: num)
  moreover have "distinct (map fst (nodes b))"
    using tree_okD(4)[OF assms(1)] by (simp add: tab_ok_def go_map_ok_def)
  ultimately have "distinct (map di_Ino (ds' @ xs))" by (metis mset_eq_imp_distinct_iff)
  then show "distinct (map di_Ino ds')" by simp
  show "i \<in> di_Ino ` set ds'" if "mset ds' = mset ?ds" "table_of b i \<noteq> None"
  proof -
    have "node_of b i \<noteq> nil" using that(2) by (auto simp: table_of_def split: if_splits)
    then have "i \<in> set (map fst (nodes b))" by (metis fst_conv go_get_in_set image_eqI set_map)
    then have "i \<in> set (map di_Ino ?ds)" by (simp only: num)
    moreover have "set ds' = set ?ds" using that(1) by (metis set_mset_mset)
    ultimately show ?thesis by (metis set_map)
  qed
qed

text \<open>Sender and receiver together.\<close>

lemma handover:
  assumes "tree_ok b" "node_of b 1 \<noteq> nil" "0 < clock r" "0 < hnext r"
  shows "\<exists>data ds b'. send b = Inr ((data, ds), b') \<and> ticked b b' \<and> data = dump_data b \<and>
    (\<forall>ds'. mset ds' = mset ds \<longrightarrow>
      (\<exists>r1. receive data ds' r = Inr (None, finish_st r1) \<and> restores (cleared data r) (table_of b) r1))"
proof -
  let ?ds = "map (dump_node b) (map snd (nodes b))"
  have "\<exists>r1. receive (dump_data b) ds' r = Inr (None, finish_st r1) \<and>
      restores (cleared (dump_data b) r) (table_of b) r1" if p: "mset ds' = mset ?ds" for ds'
  proof (rule receive_restores[OF tree_consistent[OF assms(1)]])
    note d = sub_dump[OF assms(1), of ds']
    show "dumped (table_of b) d" if "d \<in> set ds'" for d using d(1) p that by simp
    show "distinct (map di_Ino ds')" using d(2) p by simp
    show "i \<in> di_Ino ` set ds'" if "table_of b i \<noteq> None" for i using d(3) p that by simp
    have "length ds' = length ?ds" using p by (metis size_mset)
    then show "db_NodeCount (dump_data b) \<le> length ds'" by (simp add: dump_data_def)
    show "table_of b 1 \<noteq> None" using assms(2) by (simp add: table_of_def)
  qed (use assms(3,4) in simp_all)
  with send_eq[OF assms(1)] show ?thesis by blast
qed

lemma cleared_files: "files (cleared (dump_data b) r) = files b" "freeFiles (cleared (dump_data b) r) = freeFiles b"
  by (simp_all add: cleared_def dump_data_def comp_def map_idI)

end
