(* ===== verification/Dump_Theorems.thy ===== *)
theory Dump_Theorems
  imports Dump_Inv Examples
begin

text \<open>
  What a dump and its restore guarantee together, and what the receiver is told when
  inodes are missing.
\<close>

section \<open>Handing a bridge over\<close>

text \<open>
  C21: a dump and its restore hand the bridge over: the sender's calls return, and a
  receiver that is given the inodes in any order, whatever it held before, ends with the
  same table (numbers, revisions, counts, children, and parents in their order), the same
  files and free handles, and the inode numbered 1 as its root.
\<close>

theorem dump_restore:
  assumes "bridge_ok b" "0 < clock r" "0 < hnext r"
  shows "\<exists>data ds b'. send b = Inr ((data, ds), b') \<and> ticked b b' \<and>
    (\<forall>ds'. mset ds' = mset ds \<longrightarrow>
      (\<exists>r'. receive data ds' r = Inr (None, r') \<and> table_of r' = table_of b \<and>
        files r' = files b \<and> freeFiles r' = freeFiles b \<and> root r' = node_of r' 1 \<and> options r' = options r))"
proof -
  have "tree_ok b" "node_of b 1 \<noteq> nil" using assms(1) root_ne by (auto simp: bridge_ok_def)
  from handover[OF this assms(2,3)] obtain data ds b' where
    s: "send b = Inr ((data, ds), b')" "ticked b b'" "data = dump_data b"
    and r: "\<And>ds'. mset ds' = mset ds \<Longrightarrow>
      \<exists>r1. receive data ds' r = Inr (None, finish_st r1) \<and> restores (cleared data r) (table_of b) r1"
    by blast
  have "\<exists>r'. receive data ds' r = Inr (None, r') \<and> table_of r' = table_of b \<and>
      files r' = files b \<and> freeFiles r' = freeFiles b \<and> root r' = node_of r' 1 \<and> options r' = options r"
    if "mset ds' = mset ds" for ds'
  proof -
    from r[OF that] obtain r1 where r1: "receive data ds' r = Inr (None, finish_st r1)"
      "restores (cleared data r) (table_of b) r1" by blast
    have "table_of (finish_st r1) = table_of b" using r1(2) table_cong[of "finish_st r1" r1] by (simp add: restores_def)
    moreover have "files r1 = files b" "freeFiles r1 = freeFiles b" "options r1 = options r"
      using r1(2) cleared_files[of b r] by (simp_all add: restores_def s(3)) (simp add: cleared_def)
    ultimately show ?thesis using r1(1) by auto
  qed
  with s(1,2) show ?thesis by blast
qed

theorem dump_restore_witness:
  "\<exists>data ds b'. send ex2 = Inr ((data, ds), b') \<and>
    (\<exists>r'. receive data (rev ds) ex0 = Inr (None, r') \<and> table_of r' = table_of ex2 \<and> table_of r' 3 \<noteq> table_of ex0 3)"
proof -
  have "0 < clock ex0" "0 < hnext ex0" by code_simp+
  from dump_restore[OF ex2_ok this] obtain data ds b' where s: "send ex2 = Inr ((data, ds), b')"
    "\<forall>ds'. mset ds' = mset ds \<longrightarrow> (\<exists>r'. receive data ds' ex0 = Inr (None, r') \<and> table_of r' = table_of ex2)"
    by blast
  moreover have "mset (rev ds) = mset ds" by simp
  moreover have "table_of ex2 3 \<noteq> None" "table_of ex0 3 = None"
    using ex2_facts(17) by (simp_all add: table_of_def ex0_def bridge_blank_def go_get_Cons)
  ultimately show ?thesis by metis
qed

text \<open>
  C22: a bridge restored into a blank one keeps the invariant of the bridge, holds the
  references the kernel has, and gives every inode that has a path the path it had.
\<close>

theorem restored_bridge:
  assumes "bridge_ok b" "send b = Inr ((data, ds), b')" "mset ds' = mset ds"
  shows "\<exists>r'. receive data ds' (bridge_blank opts rs) = Inr (None, r') \<and> bridge_ok r' \<and> refs r' = refs b \<and>
    open_files r' = open_files b \<and>
    (\<forall>i ns. node_of b i \<noteq> nil \<longrightarrow> named b (node_of b i) ns \<longrightarrow>
      pathOf (node_of b i) b = Inr (join ''/'' ns, b) \<and> pathOf (node_of r' i) r' = Inr (join ''/'' ns, r'))"
proof -
  let ?r = "bridge_blank opts rs"
  have t: "tree_ok b" "node_of b 1 \<noteq> nil" "node_of b 1 = root b" using assms(1) root_ne by (auto simp: bridge_ok_def)
  have "0 < clock ?r" "0 < hnext ?r" by (simp_all add: bridge_blank_def)
  from handover[OF t(1,2) this] assms(2,3) obtain r1 where
    d: "data = dump_data b" and r1: "receive data ds' ?r = Inr (None, finish_st r1)"
      "restores (cleared data ?r) (table_of b) r1" by auto
  have f: "full r1" using r1(2) by (simp add: restores_def full_def cleared_def bridge_blank_def valid_def)
  have s: "same_table b r1" "same_table b (finish_st r1)" using same_finish[OF r1(2) tree_contained[OF t(1)]] by simp_all
  note ok = restored_tree_ok[OF s(1) t(1) f t(2)]
  let ?f = "finish_st r1" let ?rt = "node_of r1 1"
  have rt: "tabled r1 ?rt" using tabled_node[OF same_tableD(2)[OF s(1)] ok(2)] .
  have files: "files ?f = files b" "freeFiles ?f = freeFiles b"
    using r1(2) cleared_files[of b ?r] by (simp_all add: restores_def d)
  have v: "pset ?f = pset r1" "lookups ?f = lookups r1" "down ?f = down r1" "inum ?f = inum r1"
    by (simp_all add: pset_def lookups_def down_def valid_def edge_def inum_def fun_eq_iff)
  have "bridge_ok ?f"
    using assms(1) ok(1) twin_acyclic[OF s(1) t(1) _ f] files twin_views(1,2)[OF s(1) rt] twin_pset[OF s(1) rt] t(3)
    by (simp add: bridge_ok_def files_ok_def v ok(3))
  moreover have "refs ?f = refs b"
  proof
    fix i
    have "refs x i = (case table_of x i of None \<Rightarrow> 0 | Some n \<Rightarrow> unat (an_cnt n))" for x
      by (simp add: refs_def table_of_def anode_of_def)
    then show "refs ?f i = refs b i" using same_tableD(3)[OF s(2)] by simp
  qed
  moreover have "open_files ?f = open_files b" using open_files_cong[OF files] .
  moreover have "pathOf (node_of b i) b = Inr (join ''/'' ns, b) \<and> pathOf (node_of ?f i) ?f = Inr (join ''/'' ns, ?f)"
    if n: "node_of b i \<noteq> nil" "named b (node_of b i) ns" for i ns
  proof -
    have s': "same_table ?f b" using s(2) by (simp add: same_table_def)
    note cl = tree_contained[OF t(1)]
    note a = tabled_node[OF cl n(1)] num_node[OF cl n(1)]
    have "twin ?f b (root b) = root ?f" using num_node[OF cl t(2)] t(3) by (simp add: twin_def)
    moreover have "tabled b (root b)" using tabled_node[OF cl t(2)] t(3) by simp
    ultimately have "named ?f (twin ?f b (node_of b i)) ns" using twin_named[OF n(2) a(1) s'] by blast
    then have "named ?f (node_of ?f i) ns" using a(2) by (simp add: twin_def)
    with n(2) show ?thesis using pathOf_named by blast
  qed
  ultimately show ?thesis using r1(1) by blast
qed

theorem restored_bridge_witness:
  "\<exists>data ds b' r'. send ex2 = Inr ((data, ds), b') \<and>
    receive data ds (bridge_blank Options_default (\<lambda>_. 7)) = Inr (None, r') \<and> bridge_ok r' \<and> refs r' 3 = 1"
proof -
  obtain data ds b' where s: "send ex2 = Inr ((data, ds), b')"
    using dump_restore[OF ex2_ok, of ex0] handover[OF ex2_tree(1), of ex0] by (metis (full_types) send_eq[OF ex2_tree(1)])
  have "refs ex2 3 = 1" by code_simp
  with restored_bridge[OF ex2_ok s refl] s show ?thesis by metis
qed

text \<open>
  C23: a receiver that is not given every inode of a dump is told so: \<open>Finished\<close> answers
  that the root is missing, or how many inodes were expected and how many came. What it
  was given is in place, up to the children that are missing.
\<close>

theorem partial_restore:
  assumes "bridge_ok b" "send b = Inr ((data, ds), b')" "mset ds' \<subset># mset ds" "0 < clock r" "0 < hnext r"
  shows "\<exists>r'. table_of r' = restored (table_of b) (di_Ino ` set ds') \<and>
    receive data ds' r =
      Inr (Some (if table_of r' 1 = None then Root_not_found else Inodes_missing (length ds) (length ds')), r')"
proof -
  have t: "tree_ok b" using assms(1) by (simp add: bridge_ok_def)
  obtain b1 where "send b = Inr ((dump_data b, map (dump_node b) (map snd (nodes b))), b1)" using send_eq[OF t] by blast
  with assms(2) have d: "data = dump_data b" "ds = map (dump_node b) (map snd (nodes b))" by simp_all
  have sub: "mset ds' \<subseteq># mset (map (dump_node b) (map snd (nodes b)))"
    using assms(3) by (simp only: d(2) subset_mset.less_imp_le)
  have len: "length ds' < length ds" using mset_subset_size[OF assms(3)] by simp
  let ?r = "\<lparr>ir_nodeCount = length ds, ir_addNodeCount = 0\<rparr>"
  obtain r1 where r1: "restore_loop ds' ?r (cleared data r) = Inr (?r\<lparr>ir_addNodeCount := length ds'\<rparr>, r1)"
      "restores (cleared data r) (restored (table_of b) (di_Ino ` set ds')) r1"
    using restore_loop_restores[OF tree_consistent[OF t] sub_dump(1,2)[OF t sub] cleared_contained(1)[OF assms(4,5), of data],
        of "{}" ?r] cleared_contained(2)[OF assms(4,5), of data]
    by (auto simp: restored_empty)
  obtain r' where r': "Finished (?r\<lparr>ir_addNodeCount := length ds'\<rparr>) r1 =
      Inr (Some (if node_of r1 1 = nil then Root_not_found else Inodes_missing (length ds) (length ds')), r')"
      "nodes r' = nodes r1" "heap r' = heap r1"
    using Finished_missing[of "?r\<lparr>ir_addNodeCount := length ds'\<rparr>" r1] len by auto
  have "table_of r' = restored (table_of b) (di_Ino ` set ds')"
    using table_cong[OF r'(2,3)] restoresD[OF r1(2)] by simp
  moreover have "node_of r1 1 = nil \<longleftrightarrow> table_of r' 1 = None" by (simp add: table_of_def r'(2))
  moreover have "db_NodeCount data = length ds" by (simp add: d dump_data_def)
  then have "receive data ds' r =
      Inr (Some (if node_of r1 1 = nil then Root_not_found else Inodes_missing (length ds) (length ds')), r')"
    using r1(1) r'(1) by (simp add: receive_def bindM_def Restore_eq)
  ultimately show ?thesis by auto
qed

theorem partial_restore_witness:
  "\<exists>data ds b' r'. send ex2 = Inr ((data, ds), b') \<and> receive data [] ex0 = Inr (Some Root_not_found, r')"
proof -
  obtain b' where s: "send ex2 = Inr ((dump_data ex2, map (dump_node ex2) (map snd (nodes ex2))), b')"
    using send_eq[OF ex2_tree(1)] by blast
  have "map (dump_node ex2) (map snd (nodes ex2)) \<noteq> []" using ex2_facts(17) by auto
  then have "mset [] \<subset># mset (map (dump_node ex2) (map snd (nodes ex2)))" by (simp add: subset_mset.zero_less_iff_neq_zero)
  moreover have "0 < clock ex0" "0 < hnext ex0" by code_simp+
  ultimately show ?thesis using partial_restore[OF ex2_ok s, of "[]" ex0] s by (auto simp: restored_empty)
qed

end
