(* ===== verification/Listing_Theorems.thy ===== *)
theory Listing_Theorems
  imports Examples
begin

text \<open>
  What a listing with look-ups hands out, and a state at which it does: the root is open, its
  listing has one entry, and the look-up of that entry makes a second inode.
\<close>

lemma fold_count_in: "fold count_in is K i = K i + count_list is i"
  by (induction "is" arbitrary: K) (simp_all add: count_in_def)

text \<open>
  C32: \<open>ReadDirPlus\<close> returns, and the kernel gets one reference for each time a number is in the reply, for those
  that look-ups before have given it as well as for new ones; every number of the reply is that of an inode, and
  the handles stay.
\<close>

theorem ReadDirPlus_references:
  assumes "bridge_ok (sy_bridge s)" "fuse_ok lib out" "legal fs (sy_bridge s) (sy_world s) (Req_ReadDirPlus c h off)"
  shows "\<exists>code d s'. ReadDirPlus fs lib c h off out s = Inr ((code, d), s') \<and> bridge_ok (sy_bridge s') \<and>
    (\<forall>i. refs (sy_bridge s') i = refs (sy_bridge s) i + count_list (lib_NodeIds lib d) i) \<and>
    (\<forall>i \<in> set (lib_NodeIds lib d). node_of (sy_bridge s') i \<noteq> nil) \<and>
    dom (open_files (sy_bridge s')) = dom (open_files (sy_bridge s))"
proof -
  have "total (ReadDirPlus fs lib c h off out) s
      (\<lambda>r b _. \<exists>is. listed (sy_bridge s) b is \<and> lib_NodeIds lib (snd r) = lib_NodeIds lib out @ is)"
    by (rule ReadDirPlus_listed) (use assms in \<open>simp_all add: fuse_ok_def\<close>)
  then obtain code d s' "is" where r: "ReadDirPlus fs lib c h off out s = Inr ((code, d), s')"
    "listed (sy_bridge s) (sy_bridge s') is" "lib_NodeIds lib d = is"
    using assms(2) by (auto simp: total_def fuse_ok_def)
  have k: "refs (sy_bridge s') i = refs (sy_bridge s) i + count_list is i" for i
    using r(2) by (simp add: listed_def fold_count_in)
  have "node_of (sy_bridge s') i \<noteq> nil" if "i \<in> set is" for i
  proof -
    have "0 < refs (sy_bridge s') i" using that k[of i] count_list_0_iff[of "is" i] by auto
    then show ?thesis by (rule refs_pos)
  qed
  with r k show ?thesis using held_dom[of "sy_bridge s"] held_dom[of "sy_bridge s'"] by (auto simp: listed_def)
qed

text \<open>A reply that notes the numbers, and the root of the first state with a handle on it.\<close>

definition explus :: "u64 list fuselib" where
  "explus = \<lparr>lib_goos = Linux, lib_IsDir = (\<lambda>a. at_Mode a AND 0xF000 = 0x4000),
     lib_EntryOut_SetAttrTimeout = (\<lambda>t out. out\<lparr>eo_AttrValid := t div 1000000000\<rparr>),
     lib_EntryOut_SetEntryTimeout = (\<lambda>t out. out\<lparr>eo_EntryValid := t div 1000000000\<rparr>),
     lib_AttrOut_SetTimeout = (\<lambda>t out. out\<lparr>ao_AttrValid := t div 1000000000\<rparr>),
     lib_FOPEN_DIRECT_IO = 1, lib_FOPEN_KEEP_CACHE = 2,
     lib_AddDirEntry = (\<lambda>e d. (False, d)),
     lib_AddDirLookupEntry = (\<lambda>e d. (Some exout, d)),
     lib_SetLookupEntry = (\<lambda>eo d. d @ (if eo_NodeId eo = 0 then [] else [eo_NodeId eo])), lib_NodeIds = (\<lambda>d. d)\<rparr>"

lemma explus_fuse: "fuse_ok explus []"
  unfolding fuse_ok_def
proof (intro conjI)
  show "timeouts_ok explus" by (simp add: timeouts_ok_def explus_def)
  show "entries_ok explus" by (simp add: entries_ok_def) (simp add: explus_def exout_def)
  show "lib_NodeIds explus [] = []" by (simp add: explus_def)
qed

definition exopendir :: rawBridge where
  "exopendir = (case registerFile (ca_Owner Caller_zero) '''' 0 None ex0 of Inr (_, b) \<Rightarrow> b | Inl _ \<Rightarrow> ex0)"

lemma exopendir_ok: "bridge_ok exopendir" "refs exopendir = refs ex0"
  "open_files exopendir = (open_files ex0)
    (1 \<mapsto> \<lparr>fe_opener = ca_Owner Caller_zero, fe_path = '''', fe_uFh = 0, fe_stream = None\<rparr>)"
proof -
  have room: "files_room ex0" by (simp add: files_room_def ex0_def)
  obtain fh b where b: "registerFile (ca_Owner Caller_zero) '''' 0 None ex0 = Inr (fh, b)" "bridge_ok b"
    "refs b = refs ex0" "open_files b = (open_files ex0)
      (fh \<mapsto> \<lparr>fe_opener = ca_Owner Caller_zero, fe_path = '''', fe_uFh = 0, fe_stream = None\<rparr>)"
    using registerFile_ok[OF ex0_ok room, of "ca_Owner Caller_zero" "''''" 0 None] by blast
  moreover have "fst (projr (registerFile (ca_Owner Caller_zero) '''' 0 None ex0)) = 1" by code_simp
  ultimately show "bridge_ok exopendir" "refs exopendir = refs ex0" "open_files exopendir = (open_files ex0)
      (1 \<mapsto> \<lparr>fe_opener = ca_Owner Caller_zero, fe_path = '''', fe_uFh = 0, fe_stream = None\<rparr>)"
    by (simp_all add: exopendir_def)
qed

lemma exopendir_facts: "root exopendir = 1" "isDir (heap exopendir 1)" "edge exopendir 1 ''d'' = nil"
  "go_get (nodes exopendir) 2 = nil" "go_get (nodes exopendir) 1 = 1" "files exopendir ! 1 =
    \<lparr>fe_opener = ca_Owner Caller_zero, fe_path = '''', fe_uFh = 0, fe_stream = None\<rparr>" "length (files exopendir) = 2"
  by code_simp+

lemma exopendir_answer: "answer_ok exopendir 1 ''d'' 2"
  unfolding answer_ok_def using exopendir_ok(2) ex0_facts(4) nil_above[of 1 exopendir] exopendir_facts by simp

lemma answer_files: "answer_ok (b\<lparr>files := fs\<rparr>) p name i = answer_ok b p name i"
proof -
  have "edge (b\<lparr>files := fs\<rparr>) = edge b" "refs (b\<lparr>files := fs\<rparr>) = refs b" "valid (b\<lparr>files := fs\<rparr>) = valid b"
    by (simp_all add: fun_eq_iff edge_def refs_def valid_def lookups_def)
  then show ?thesis by (simp add: answer_ok_def down_def)
qed

definition exdirhdr :: FileIn where
  "exdirhdr = \<lparr>ih_NodeId = 1, ih_Caller = Caller_zero, fi_Fh = 1\<rparr>"

lemma exopendir_path:
  "\<exists>d ctx'. fe_stream d = None \<and> file_path 1 1 ctx \<lparr>sy_bridge = exopendir, sy_world = w, sy_pool = pool\<rparr> =
    Inr ((1, d, '''', ctx'), \<lparr>sy_bridge = exopendir, sy_world = w, sy_pool = pool\<rparr>)"
  using pathOf_root[of exopendir] exopendir_facts(6,7)
  by (simp add: file_path_def onBridge_def inodeAndFile_def bindM_def bridge_inode_apply fpathOf_def getsM_def ret_def
      exopendir_facts(1,5) Let_def)

lemma exopendir_legal: "legal exfs exopendir () (Req_ReadDirPlus 0 exdirhdr 0)"
proof -
  let ?e = "\<lparr>de_Mode = 0x4000, de_Name = ''d'', de_Ino = 2\<rparr> :: DirEntry"
  have l: "listing_ok exfs ctx '''' 1 (?e # dots) b ()" if "answer_ok b 1 ''d'' 2" for ctx b
    using that by (simp add: answers_ok_def exfs_def childPathOf_def dots_def)
  have "plus_ok exfs ctx exopendir 1 1 0 ()" for ctx
    unfolding plus_ok_def
  proof (intro allI impI)
    fix pool n d path ctx' s2 stream s3
    assume f: "file_path 1 1 ctx \<lparr>sy_bridge = exopendir, sy_world = (), sy_pool = pool\<rparr> = Inr ((n, d, path, ctx'), s2)"
      and d: "dir_stream exfs ctx' path (ucast (1 :: u64)) d 0 s2 = Inr (Inr stream, s3)"
    have n: "n = 1" "path = ''''" "fe_stream d = None" "sy_bridge s2 = exopendir"
      using f exopendir_path[of ctx "()" pool] by auto
    have s: "stream = ?e # dots" "\<exists>fs. sy_bridge s3 = exopendir\<lparr>files := fs\<rparr>"
      using d n by (auto simp: dir_stream_def dir_load_def bindM_def onFS_def exfs_def modifyM_def ret_def Let_def)
    have "answer_ok (sy_bridge s3) 1 ''d'' 2" using s(2) exopendir_answer answer_files by auto
    with l n s show "listing_ok exfs ctx' path n (drop (unat (0 :: u64)) stream) (sy_bridge s3) (sy_world s3)" by simp
  qed
  then show ?thesis using exopendir_ok(2,3) ex0_facts(5) by (simp add: exdirhdr_def)
qed

theorem ReadDirPlus_references_witness:
  "\<exists>s'. ReadDirPlus exfs explus 0 exdirhdr 0 [] (exsys exopendir) = Inr ((OK, [2]), s') \<and>
     refs (sy_bridge s') 2 = 1 \<and> node_of (sy_bridge s') 2 \<noteq> nil"
proof -
  have "case ReadDirPlus exfs explus 0 exdirhdr 0 [] (exsys exopendir) of
      Inr (r, s') \<Rightarrow> r = (OK, [2]) | Inl _ \<Rightarrow> False"
    by code_simp
  moreover have "bridge_ok (sy_bridge (exsys exopendir))"
    "legal exfs (sy_bridge (exsys exopendir)) (sy_world (exsys exopendir)) (Req_ReadDirPlus 0 exdirhdr 0)"
    using exopendir_ok(1) exopendir_legal by (simp_all add: exsys_def)
  moreover have "refs (sy_bridge (exsys exopendir)) 2 = 0" "lib_NodeIds explus [2] = [2]"
    using exopendir_ok(2) ex0_facts(4) by (simp_all add: exsys_def explus_def)
  ultimately show ?thesis using ReadDirPlus_references[OF _ explus_fuse] by fastforce
qed

end
