(* ===== verification/Reading.thy ===== *)
theory Reading
  imports Bridge_Theorems
begin

text \<open>
  An open directory that is read to its end: the kernel asks for what comes after the entries it has got
  until a reply is empty. Of go-fuse it is used that \<open>AddDirEntry\<close> tries to add an entry and reports
  whether it did; how many entries a reply holds, and that they differ in size, is left open.
\<close>

section \<open>Replies\<close>

text \<open>\<open>names\<close> are the names of the entries in a reply, in order.\<close>

definition adds_entries :: "('d \<Rightarrow> string list) \<Rightarrow> 'd fuselib \<Rightarrow> bool" where
  "adds_entries names lib \<longleftrightarrow> (\<forall>e d. case lib_AddDirEntry lib e d of
     (ok, d') \<Rightarrow> names d' = (if ok then names d @ [de_Name e] else names d))"

lemma adds_entriesD:
  "adds_entries names lib \<Longrightarrow> lib_AddDirEntry lib e d = (ok, d') \<Longrightarrow>
    names d' = (if ok then names d @ [de_Name e] else names d)"
  unfolding adds_entries_def by (metis (mono_tags, lifting) case_prod_conv)

definition takes :: "'d fuselib \<Rightarrow> 'd \<Rightarrow> DirEntry list \<Rightarrow> bool" where
  "takes lib out es \<longleftrightarrow> (\<forall>e \<in> set es. fst (lib_AddDirEntry lib e out))"

definition all_named :: "DirEntry list \<Rightarrow> bool" where
  "all_named es \<longleftrightarrow> (\<forall>e \<in> set es. de_Name e \<noteq> '''')"

lemma ReadDir_loop_adds:
  assumes "adds_entries names lib"
  shows "all_named es \<Longrightarrow> \<exists>k d'. ReadDir_loop lib es d s = Inr (d', s) \<and> k \<le> length es \<and>
    names d' = names d @ map de_Name (take k es) \<and> (es \<noteq> [] \<and> fst (lib_AddDirEntry lib (hd es) d) \<longrightarrow> 0 < k)"
proof (induction es arbitrary: d)
  case Nil
  then show ?case by (simp add: ret_def)
next
  case (Cons e es)
  obtain ok d1 where a: "lib_AddDirEntry lib e d = (ok, d1)" by (cases "lib_AddDirEntry lib e d")
  then have n: "names d1 = (if ok then names d @ [de_Name e] else names d)"
    by (rule adds_entriesD[OF assms])
  have e: "de_Name e \<noteq> ''''" "all_named es" using Cons.prems by (simp_all add: all_named_def)
  show ?case
  proof (cases ok)
    case True
    from Cons.IH[OF e(2), of d1] obtain k d' where
      "ReadDir_loop lib es d1 s = Inr (d', s)" "k \<le> length es" "names d' = names d1 @ map de_Name (take k es)" by blast
    with a n e True show ?thesis by (intro exI[of _ "Suc k"] exI[of _ d']) simp
  next
    case False
    with a n e show ?thesis by (intro exI[of _ 0] exI[of _ d1]) (simp add: ret_def)
  qed
qed

section \<open>One request\<close>

lemma file_path_open:
  assumes "node_of (sy_bridge s) i \<noteq> nil" "open_files (sy_bridge s) (ucast fh) = Some d"
    and "fpathOf (node_of (sy_bridge s) i) d (sy_bridge s) = Inr (path, b)"
  shows "file_path i fh ctx s =
    Inr ((node_of (sy_bridge s) i, d, path, ctx\<lparr>cx_Opener := Some (fe_opener d)\<rparr>), s\<lparr>sy_bridge := b\<rparr>)"
proof -
  let ?b = "sy_bridge s"
  have "inodeAndFile i (ucast fh) ctx ?b =
      Inr ((node_of ?b i, d, ctx\<lparr>cx_Opener := Some (fe_opener d)\<rparr>), ?b)"
    using assms(1,2) by (auto simp: inodeAndFile_def open_files_def bindM_def getsM_def ret_def Let_def split: if_splits)
  then show ?thesis
    unfolding file_path_def by (intro onBridge_eq) (simp add: bindM_def assms(3) ret_def)
qed

lemma fpathOf_total:
  assumes "bridge_ok b" "node_of b i \<noteq> nil"
  obtains path b' where "fpathOf (node_of b i) d b = Inr (path, b')" "quiet b b'"
proof -
  have t: "tree_ok b" "acyclic (down b)" using assms(1) by (simp_all add: bridge_ok_def)
  obtain path b' where "pathOf (node_of b i) b = Inr (path, b')" "quiet b b'"
    using pathOf_total[OF t table_valid(1)[OF t(1) assms(2)]] by blast
  then show ?thesis
    using that[of path b'] that[of "fe_path d" b] by (cases "fe_path d = ''''") (auto simp: fpathOf_def ret_def)
qed

text \<open>The context of a request on an open file.\<close>

definition file_ctx :: "chan \<Rightarrow> FileIn \<Rightarrow> fileEntry \<Rightarrow> Context" where
  "file_ctx c h d = (ctx_of c h)\<lparr>cx_Opener := Some (fe_opener d)\<rparr>"

definition reading :: "'w sys \<Rightarrow> FileIn \<Rightarrow> fileEntry \<Rightarrow> bool" where
  "reading s h d \<longleftrightarrow> bridge_ok (sy_bridge s) \<and> 0 < refs (sy_bridge s) (ih_NodeId h) \<and>
     open_files (sy_bridge s) (ucast (fi_Fh h)) = Some d"

lemma reading_quiet: "reading s h d \<Longrightarrow> quiet (sy_bridge s) (sy_bridge s') \<Longrightarrow> reading s' h d"
  using quiet_ok[of "sy_bridge s" "sy_bridge s'"] quiet_views(8)[of "sy_bridge s" "sy_bridge s'"]
    quiet_open[of "sy_bridge s" "sy_bridge s'"] by (simp add: reading_def)

lemma reading_pool [simp]: "reading (s\<lparr>sy_pool := pool\<rparr>) h d = reading s h d"
  by (simp add: reading_def)

text \<open>A request that has its listing answers with a part of it.\<close>

lemma ReadDir_listed:
  assumes "reading s h d" "fpathOf (node_of (sy_bridge s) (ih_NodeId h)) d (sy_bridge s) = Inr (path, b)"
    and "\<And>pool. dir_stream fs (file_ctx c h d) path (ucast (fi_Fh h)) d off (s\<lparr>sy_bridge := b, sy_pool := pool\<rparr>) =
      Inr (Inr st, s2\<lparr>sy_pool := pool\<rparr>)"
    and "unat off \<le> length st" "all_named st" "adds_entries names lib" "names out = []"
  shows "\<exists>k d' pool. ReadDir fs lib c h off out s = Inr ((OK, d'), s2\<lparr>sy_pool := pool\<rparr>) \<and>
    names d' = map de_Name (take k (drop (unat off) st)) \<and> unat off + k \<le> length st \<and>
    (takes lib out st \<and> unat off < length st \<longrightarrow> 0 < k)"
proof -
  let ?pool = "snd (contextPool_Get (sy_pool s))"
  let ?s = "s\<lparr>sy_pool := ?pool\<rparr>"
  have n: "node_of (sy_bridge ?s) (ih_NodeId h) \<noteq> nil" using assms(1) refs_pos(1) by (simp add: reading_def)
  have f: "file_path (ih_NodeId h) (fi_Fh h) (ctx_of c h) ?s =
      Inr ((node_of (sy_bridge s) (ih_NodeId h), d, path, file_ctx c h d), s\<lparr>sy_bridge := b, sy_pool := ?pool\<rparr>)"
    using file_path_open[OF n, of "fi_Fh h" d path b] assms(1,2) by (simp add: reading_def file_ctx_def)
  have "all_named (drop (unat off) st)" using assms(5) by (auto simp: all_named_def dest: in_set_dropD)
  from ReadDir_loop_adds[OF assms(6) this, of out "s2\<lparr>sy_pool := ?pool\<rparr>"] obtain k d' where
    k: "ReadDir_loop lib (drop (unat off) st) out (s2\<lparr>sy_pool := ?pool\<rparr>) = Inr (d', s2\<lparr>sy_pool := ?pool\<rparr>)"
      "k \<le> length (drop (unat off) st)" "names d' = map de_Name (take k (drop (unat off) st))"
      "drop (unat off) st \<noteq> [] \<and> fst (lib_AddDirEntry lib (hd (drop (unat off) st)) out) \<longrightarrow> 0 < k"
    using assms(7) by auto
  have "0 < k" if "takes lib out st \<and> unat off < length st"
    using that k(4) by (auto simp: takes_def hd_drop_conv_nth)
  moreover have "\<exists>pool. ReadDir fs lib c h off out s = Inr ((OK, d'), s2\<lparr>sy_pool := pool\<rparr>)"
    using f k(1) assms(3,4) by (simp add: ReadDir_def withContext_eq ctx_of_def[symmetric] bindM_def ret_def) blast
  ultimately show ?thesis using k(2,3) assms(4) by fastforce
qed

lemma ReadDir_on:
  assumes "reading s h d" "fe_stream d = Some st" "off \<noteq> 0"
    and "unat off \<le> length st" "all_named st" "adds_entries names lib" "names out = []"
  shows "\<exists>k d' s'. ReadDir fs lib c h off out s = Inr ((OK, d'), s') \<and> reading s' h d \<and> sy_world s' = sy_world s \<and>
    names d' = map de_Name (take k (drop (unat off) st)) \<and> unat off + k \<le> length st \<and>
    (takes lib out st \<and> unat off < length st \<longrightarrow> 0 < k)"
proof -
  have b: "bridge_ok (sy_bridge s)" "node_of (sy_bridge s) (ih_NodeId h) \<noteq> nil"
    using assms(1) refs_pos(1) by (simp_all add: reading_def)
  obtain path b' where p: "fpathOf (node_of (sy_bridge s) (ih_NodeId h)) d (sy_bridge s) = Inr (path, b')"
    "quiet (sy_bridge s) b'" by (rule fpathOf_total[OF b])
  let ?s2 = "s\<lparr>sy_bridge := b'\<rparr>"
  have d: "dir_stream fs (file_ctx c h d) path (ucast (fi_Fh h)) d off (s\<lparr>sy_bridge := b', sy_pool := pool\<rparr>) =
      Inr (Inr st, ?s2\<lparr>sy_pool := pool\<rparr>)" for pool
    using assms(2,3) by (simp add: dir_stream_def ret_def)
  have r: "reading (?s2\<lparr>sy_pool := pool\<rparr>) h d" for pool
    using reading_quiet[OF assms(1), of ?s2] p(2) by simp
  show ?thesis using ReadDir_listed[OF assms(1) p(1) d assms(4-7)] r by fastforce
qed

lemma ReadDir_start:
  assumes "reading s h d" "fpathOf (node_of (sy_bridge s) (ih_NodeId h)) d (sy_bridge s) = Inr (path, b)"
    and "fs_Lsdir fs (file_ctx c h d) path (sy_world s) = ((es, OK), w)"
    and "all_named (es @ dots)" "adds_entries names lib" "names out = []"
  shows "\<exists>k d' s'. ReadDir fs lib c h 0 out s = Inr ((OK, d'), s') \<and>
    reading s' h (d\<lparr>fe_stream := Some (es @ dots)\<rparr>) \<and> sy_world s' = w \<and>
    names d' = map de_Name (take k (es @ dots)) \<and> k \<le> length (es @ dots) \<and> (takes lib out (es @ dots) \<longrightarrow> 0 < k)"
proof -
  let ?fh = "ucast (fi_Fh h) :: u32" and ?st = "es @ dots"
  have b: "bridge_ok (sy_bridge s)" "node_of (sy_bridge s) (ih_NodeId h) \<noteq> nil"
    using assms(1) refs_pos(1) by (simp_all add: reading_def)
  have q: "quiet (sy_bridge s) b" by (rule fpathOf_total[OF b, of d]) (use assms(2) in simp)
  let ?s1 = "s\<lparr>sy_bridge := b\<rparr>"
  have r1: "reading ?s1 h d" using reading_quiet[OF assms(1), of ?s1] q by simp
  then have o: "open_files b ?fh = Some d" by (simp add: reading_def)
  define b2 where "b2 = b\<lparr>files := (files b)[unat ?fh := (files b ! unat ?fh)\<lparr>fe_stream := Some ?st\<rparr>]\<rparr>"
  let ?s2 = "s\<lparr>sy_bridge := b2, sy_world := w\<rparr>"
  have l: "dir_load fs (file_ctx c h d) path ?fh (s\<lparr>sy_bridge := b, sy_pool := pool\<rparr>) =
      Inr (Inr ?st, ?s2\<lparr>sy_pool := pool\<rparr>)" for pool
    using assms(3) by (simp add: dir_load_def bindM_def onFS_def modifyM_def ret_def Let_def b2_def)
  then have "dir_stream fs (file_ctx c h d) path ?fh d 0 (s\<lparr>sy_bridge := b, sy_pool := pool\<rparr>) =
      Inr (Inr ?st, ?s2\<lparr>sy_pool := pool\<rparr>)" for pool
    by (simp add: dir_stream_def split: option.split)
  note R = ReadDir_listed[OF assms(1,2) this _ assms(4-6)]
  have "keeps b b2"
    using total_dir_load[of "s\<lparr>sy_bridge := b, sy_pool := []\<rparr>" ?fh fs "file_ctx c h d" path] r1 l[of "[]"] o
    by (simp add: reading_def total_def)
  moreover have "open_files b2 ?fh = Some (d\<lparr>fe_stream := Some ?st\<rparr>)"
    using o by (auto simp: b2_def open_files_def split: if_splits)
  ultimately have "reading (?s2\<lparr>sy_pool := pool\<rparr>) h (d\<lparr>fe_stream := Some ?st\<rparr>)" for pool
    using r1 by (simp add: reading_def keeps_def)
  moreover have "0 < length ?st" by (simp add: dots_def)
  ultimately show ?thesis using R by fastforce
qed

section \<open>Reading to the end\<close>

text \<open>
  The kernel reads on at the offset it has read at plus the number of entries it got there, which is what
  go-fuse writes into the entries of a reply.
\<close>

inductive reads ::
  "'w FileSystem \<Rightarrow> 'd fuselib \<Rightarrow> ('d \<Rightarrow> string list) \<Rightarrow> chan \<Rightarrow> FileIn \<Rightarrow> 'd \<Rightarrow> u64 \<Rightarrow> 'w sys \<Rightarrow>
    string list \<Rightarrow> 'w sys \<Rightarrow> bool" for fs lib names c h out where
  reads_end: "ReadDir fs lib c h off out s = Inr ((OK, d), s') \<Longrightarrow> names d = [] \<Longrightarrow>
    reads fs lib names c h out off s [] s'"
| reads_more: "ReadDir fs lib c h off out s = Inr ((OK, d), s1) \<Longrightarrow> names d \<noteq> [] \<Longrightarrow>
    reads fs lib names c h out (off + of_nat (length (names d))) s1 ns s' \<Longrightarrow>
    reads fs lib names c h out off s (names d @ ns) s'"

inductive_cases readsE: "reads fs lib names c h out off s ns s'"

lemma reads_deterministic:
  "reads fs lib names c h out off s ns s' \<Longrightarrow> reads fs lib names c h out off s ms t \<Longrightarrow> ms = ns \<and> t = s'"
proof (induction arbitrary: ms t rule: reads.induct)
  case (reads_end off s d s')
  from reads_end.prems show ?case by (rule readsE) (use reads_end.hyps in auto)
next
  case (reads_more off s d s1 ns s')
  from reads_more.prems show ?case
  proof (rule readsE)
    fix d' s1' ns' assume r: "ms = names d' @ ns'" "ReadDir fs lib c h off out s = Inr ((OK, d'), s1')"
      "reads fs lib names c h out (off + of_nat (length (names d'))) s1' ns' t"
    then have "d' = d" "s1' = s1" using reads_more.hyps(1) by simp_all
    with r reads_more.IH[of ns' t] show ?thesis by simp
  qed (use reads_more.hyps in simp)
qed

lemma reads_on:
  assumes "all_named st" "adds_entries names lib" "names out = []" "takes lib out st" "length st < 2 ^ 64"
  shows "reading s h d \<Longrightarrow> fe_stream d = Some st \<Longrightarrow> 0 < n \<Longrightarrow> n \<le> length st \<Longrightarrow>
    \<exists>s'. reads fs lib names c h out (of_nat n) s (map de_Name (drop n st)) s' \<and> sy_world s' = sy_world s \<and>
      bridge_ok (sy_bridge s')"
proof (induction "length st - n" arbitrary: n s rule: less_induct)
  case less
  let ?off = "of_nat n :: u64"
  have u: "unat ?off = n" using less.prems(4) assms(5) by (simp add: unat_of_nat take_bit_nat_eq_self)
  then have "?off \<noteq> 0" using less.prems(3) by (metis unat_0 less_irrefl)
  from ReadDir_on[OF less.prems(1,2) this _ assms(1-3), of fs c] u less.prems(4) obtain k d' s1 where
    r: "ReadDir fs lib c h ?off out s = Inr ((OK, d'), s1)" "reading s1 h d" "sy_world s1 = sy_world s"
      "names d' = map de_Name (take k (drop n st))" "n + k \<le> length st" "n < length st \<longrightarrow> 0 < k"
    using assms(4) by auto
  show ?case
  proof (cases "k = 0")
    case True
    with r(4-6) less.prems(4) have "names d' = []" "drop n st = []" by auto
    with reads_end[OF r(1)] r(2,3) show ?thesis by (auto simp: reading_def)
  next
    case False
    then have l: "length st - (n + k) < length st - n" "0 < n + k" using r(5) by simp_all
    from less.hyps[OF l(1) r(2) less.prems(2) l(2) r(5)] obtain s' where
      s': "reads fs lib names c h out (of_nat (n + k)) s1 (map de_Name (drop (n + k) st)) s'"
        "sy_world s' = sy_world s1" "bridge_ok (sy_bridge s')" by blast
    have d: "length (names d') = k" "names d' \<noteq> []" using r(4,5) False by auto
    have "reads fs lib names c h out ?off s (names d' @ map de_Name (drop (n + k) st)) s'"
      by (rule reads_more[where names = names, OF r(1) d(2)]) (use s'(1) d(1) in simp)
    moreover have "names d' @ map de_Name (drop (n + k) st) = map de_Name (drop n st)"
      unfolding r(4) map_append[symmetric] by (simp add: add.commute drop_drop[symmetric] del: drop_drop)
    ultimately show ?thesis using s'(2,3) r(3) by auto
  qed
qed

text \<open>
  C31: reading an open directory from its start, request by request until a reply is empty, gives the names of the
  listing and then \<open>.\<close> and \<open>..\<close>, each once and in the order of the file system, however the entries
  are spread over the replies. The file system is asked for the listing once, by the first request. The
  names of the listing are not empty, and every entry fits into an empty reply.
\<close>

theorem ReadDir_listing:
  fixes s :: "'w sys"
  assumes "bridge_ok (sy_bridge s)" "0 < refs (sy_bridge s) (ih_NodeId h)"
    and "open_files (sy_bridge s) (ucast (fi_Fh h)) = Some d"
    and "fpathOf (node_of (sy_bridge s) (ih_NodeId h)) d (sy_bridge s) = Inr (path, b)"
    and "fs_Lsdir fs (file_ctx c h d) path (sy_world s) = ((es, OK), w)"
    and "all_named es" "length es + 2 < 2 ^ 64"
    and "adds_entries names lib" "names out = []" "takes lib out (es @ dots)"
  shows "\<exists>s'. (\<forall>ns t. reads fs lib names c h out 0 s ns t \<longleftrightarrow> ns = map de_Name es @ [''.'', ''..''] \<and> t = s') \<and>
    sy_world s' = w \<and> bridge_ok (sy_bridge s')"
proof -
  let ?st = "es @ dots"
  have n: "all_named ?st" "length ?st < 2 ^ 64" "map de_Name ?st = map de_Name es @ [''.'', ''..'']"
    using assms(6,7) by (auto simp: all_named_def dots_def)
  have "reading s h d" using assms(1-3) by (simp add: reading_def)
  from ReadDir_start[OF this assms(4,5) n(1) assms(8,9)] obtain k d' s1 where
    r: "ReadDir fs lib c h 0 out s = Inr ((OK, d'), s1)" "reading s1 h (d\<lparr>fe_stream := Some ?st\<rparr>)" "sy_world s1 = w"
      "names d' = map de_Name (take k ?st)" "k \<le> length ?st" "0 < k"
    using assms(10) by auto
  from reads_on[OF n(1) assms(8-10) n(2) r(2) _ r(6,5)] obtain s' where
    s': "reads fs lib names c h out (of_nat k) s1 (map de_Name (drop k ?st)) s'" "sy_world s' = w" "bridge_ok (sy_bridge s')"
    using r(3) by auto
  have d: "length (names d') = k" "names d' \<noteq> []" using r(4-6) by auto
  have "reads fs lib names c h out 0 s (names d' @ map de_Name (drop k ?st)) s'"
    by (rule reads_more[where names = names, OF r(1) d(2)]) (use s'(1) d(1) in simp)
  then have "reads fs lib names c h out 0 s (map de_Name es @ [''.'', ''..'']) s'"
    unfolding r(4) map_append[symmetric] append_take_drop_id n(3) .
  with reads_deterministic[OF this] s'(2,3) show ?thesis by blast
qed

text \<open>
  The directory \<open>d\<close> of the second state is opened and read, with room for three entries in a reply: two
  replies have the two files and the two dots, a third one is empty.
\<close>

definition exfiles :: "DirEntry list" where
  "exfiles = map (\<lambda>n. \<lparr>de_Mode = 0, de_Name = n, de_Ino = 0\<rparr>) [''a'', ''b'']"

theorem ReadDir_listing_witness:
  "\<exists>s h s'. reads (exfs\<lparr>fs_Lsdir := \<lambda>ctx path w. ((exfiles, OK), w)\<rparr>) exlib (map de_Name) 0 h [] 0 s
     [''a'', ''b'', ''.'', ''..''] s'"
proof -
  let ?fs = "exfs\<lparr>fs_Lsdir := \<lambda>ctx path w. ((exfiles, OK), w)\<rparr>"
  let ?d = "\<lparr>fe_opener = ca_Owner Caller_zero, fe_path = ''d'', fe_uFh = 0, fe_stream = None\<rparr>"
  have "length (files ex1) = 1" by code_simp
  then have "files_room ex1" by (simp add: files_room_def)
  then obtain fh b where b: "bridge_ok b" "refs b = refs ex1" "open_files b = (open_files ex1)(fh \<mapsto> ?d)"
    using registerFile_ok[OF ex1_ok, of "ca_Owner Caller_zero" "''d''" 0 None] by blast
  let ?h = "\<lparr>ih_NodeId = 2, ih_Caller = Caller_zero, fi_Fh = ucast fh\<rparr>"
  have "bridge_ok (sy_bridge (exsys b))" "0 < refs (sy_bridge (exsys b)) (ih_NodeId ?h)"
    "open_files (sy_bridge (exsys b)) (ucast (fi_Fh ?h)) = Some ?d"
    using b ex1_facts(5) by simp_all
  moreover have "fpathOf (node_of (sy_bridge (exsys b)) (ih_NodeId ?h)) ?d (sy_bridge (exsys b)) = Inr (''d'', b)"
    by (simp add: fpathOf_def ret_def)
  moreover have "fs_Lsdir ?fs (file_ctx 0 ?h ?d) ''d'' (sy_world (exsys b)) = ((exfiles, OK), ())" by simp
  moreover have "all_named exfiles" "length exfiles + 2 < 2 ^ 64" by (simp_all add: all_named_def exfiles_def)
  moreover have "adds_entries (map de_Name) exlib" "map de_Name [] = []" "takes exlib [] (exfiles @ dots)"
    by (simp_all add: adds_entries_def takes_def exlib_def)
  ultimately have "\<exists>s'. (\<forall>ns t. reads ?fs exlib (map de_Name) 0 ?h [] 0 (exsys b) ns t \<longleftrightarrow>
      ns = map de_Name exfiles @ [''.'', ''..''] \<and> t = s') \<and> sy_world s' = () \<and> bridge_ok (sy_bridge s')"
    by (rule ReadDir_listing)
  moreover have "map de_Name exfiles @ [''.'', ''..''] = [''a'', ''b'', ''.'', ''..'']" by (simp add: exfiles_def)
  ultimately show ?thesis by metis
qed

text \<open>
  An entry with an empty name is left out of the reply but counts in the listing, while the offset that
  the kernel reads on from counts the entries it got: when the reply is full after \<open>b\<close>, the next one has \<open>b\<close> again.
\<close>

lemma ReadDir_repeats:
  fixes s :: "'w sys"
  assumes "map de_Name es = [a, '''', b, c]" "a \<noteq> ''''" "b \<noteq> ''''" "c \<noteq> ''''"
    and "adds_entries names lib" "names out = []" "takes lib out es"
    and "lib_AddDirEntry lib (es ! 0) out = (True, d1)" "lib_AddDirEntry lib (es ! 2) d1 = (True, d2)"
    and "lib_AddDirEntry lib (es ! 3) d2 = (False, d3)"
  shows "\<exists>s' d' ns. ReadDir_loop lib es out s = Inr (d3, s') \<and> names d3 = [a, b] \<and>
    ReadDir_loop lib (drop (length (names d3)) es) out s' = Inr (d', s') \<and> names d' = b # ns"
proof -
  from assms(1) obtain e1 e2 e3 e4 where e: "es = [e1, e2, e3, e4]" "de_Name e1 = a" "de_Name e2 = ''''"
      "de_Name e3 = b" "de_Name e4 = c"
    by (auto simp: map_eq_Cons_conv)
  have n: "names d1 = names out @ [a]" "names d2 = names d1 @ [b]" "names d3 = names d2"
    using adds_entriesD[OF assms(5,8)] adds_entriesD[OF assms(5,9)] adds_entriesD[OF assms(5,10)] e
    by (simp_all add: numeral_eq_Suc)
  obtain x where "logf (Log_empty_name (de_Mode e2)) (sy_bridge s) = Inr ((), x)" using logf_total by blast
  then have l: "ReadDir_loop lib es out s = Inr (d3, s\<lparr>sy_bridge := x\<rparr>)"
    using e assms(2-4,8-10) by (simp add: bindM_def onBridge_def ret_def numeral_eq_Suc)
  have d: "names d3 = [a, b]" "drop (length (names d3)) es = [e3, e4]" using n assms(6) e(1) by simp_all
  have a: "all_named [e3, e4]" "fst (lib_AddDirEntry lib e3 out)"
    using e assms(3,4,7) by (simp_all add: all_named_def takes_def)
  from ReadDir_loop_adds[OF assms(5) a(1), of out "s\<lparr>sy_bridge := x\<rparr>"] a(2) obtain k d' where
    "ReadDir_loop lib [e3, e4] out (s\<lparr>sy_bridge := x\<rparr>) = Inr (d', s\<lparr>sy_bridge := x\<rparr>)"
    "names d' = map de_Name (take k [e3, e4])" "0 < k"
    using assms(6) by auto
  with l d e(4) show ?thesis by (cases k) auto
qed

end
