(* ===== verification/Handles.thy ===== *)
theory Handles
  imports Bridge_Theorems
begin

text \<open>
  Open files through a session: between the request that opens a file and the one that
  releases its handle, whatever legal requests come between, the handle stands for the
  file system's own handle, the opener and the path at the time of opening.
\<close>

section \<open>Handles stay\<close>

definition releases :: "request \<Rightarrow> u32 \<Rightarrow> bool" where
  "releases req fh \<longleftrightarrow> (case req of
     Req_Release c h \<Rightarrow> ucast (fi_Fh h) = fh
   | Req_ReleaseDir k \<Rightarrow> ucast k = fh
   | _ \<Rightarrow> False)"

text \<open>\<open>goes_on fs lib out s reqs s'\<close>: the legal requests are served one after the other, from \<open>s\<close> on.\<close>

inductive goes_on :: "'w FileSystem \<Rightarrow> 'd fuselib \<Rightarrow> 'd \<Rightarrow> 'w sys \<Rightarrow> request list \<Rightarrow> 'w sys \<Rightarrow> bool" for fs lib out where
  goes_on_none: "goes_on fs lib out s [] s"
| goes_on_more: "goes_on fs lib out s reqs s1 \<Longrightarrow> legal fs (sy_bridge s1) (sy_world s1) req \<Longrightarrow>
    serve fs lib out req s1 = Inr (rep, s2) \<Longrightarrow> goes_on fs lib out s (reqs @ [req]) s2"

lemma held_handed: "fh \<in> H \<Longrightarrow> \<not> releases req fh \<Longrightarrow> fh \<in> handed req rep H"
  by (auto simp: handed_def releases_def split: option.splits request.splits)

lemma held_served:
  assumes "bridge_ok (sy_bridge s)" "fuse_ok lib out" "legal fs (sy_bridge s) (sy_world s) req"
    and "serve fs lib out req s = Inr (rep, s')" "\<not> releases req fh" "held (sy_bridge s) fh = Some f"
  shows "bridge_ok (sy_bridge s') \<and> held (sy_bridge s') fh = Some f"
proof -
  have o: "outcome req (sy_bridge s) rep (sy_bridge s')"
    using serve_ok[OF assms(1-3)] assms(4) by (simp add: total_def)
  have "fh \<in> dom (held (sy_bridge s))" using assms(6) by (simp add: domIff del: held_None)
  then have "fh \<in> dom (held (sy_bridge s'))" using o held_handed[OF _ assms(5)] by (simp add: outcome_def)
  then obtain g where "held (sy_bridge s') fh = Some g" by blast
  moreover from this assms(6) o have "held (sy_bridge s') fh = held (sy_bridge s) fh"
    unfolding outcome_def stays_def by (metis option.distinct(1))
  ultimately show ?thesis using o assms(6) by (simp add: outcome_def)
qed

lemma held_goes_on:
  assumes "goes_on fs lib out s reqs s'" "bridge_ok (sy_bridge s)" "fuse_ok lib out"
    and "held (sy_bridge s) fh = Some f" "\<forall>req \<in> set reqs. \<not> releases req fh"
  shows "bridge_ok (sy_bridge s') \<and> held (sy_bridge s') fh = Some f"
  using assms
proof (induction rule: goes_on.induct)
  case (goes_on_none s)
  then show ?case by simp
next
  case (goes_on_more s reqs s1 req rep s2)
  have "\<not> releases req fh" "\<forall>req \<in> set reqs. \<not> releases req fh" using goes_on_more.prems(4) by simp_all
  note k = goes_on_more.IH[OF goes_on_more.prems(1-3) this(2)]
  show ?case
    by (rule held_served[OF conjunct1[OF k] assms(3) goes_on_more.hyps(2,3) \<open>\<not> releases req fh\<close> conjunct2[OF k]])
qed

section \<open>Requests on a handle\<close>

lemma open_files_entry:
  "open_files b h = Some f \<Longrightarrow> unat h < length (files b)"
  "open_files b h = Some f \<Longrightarrow> h \<noteq> 0"
  "open_files b h = Some f \<Longrightarrow> files b ! unat h = f"
  by (auto simp: open_files_def split: if_splits)

lemma file_at:
  assumes "bridge_ok (sy_bridge s)" "node_of (sy_bridge s) i \<noteq> nil"
    and "held (sy_bridge s) (ucast fh) = Some (opener, path, uFh)" "path \<noteq> ''''"
  shows "\<exists>f. fe_uFh f = uFh \<and>
    file_path i fh ctx s = Inr ((node_of (sy_bridge s) i, f, path, ctx\<lparr>cx_Opener := Some opener\<rparr>), s)"
proof -
  let ?b = "sy_bridge s" let ?fh = "ucast fh :: u32"
  obtain f where f: "open_files ?b ?fh = Some f" "fe_opener f = opener" "fe_path f = path" "fe_uFh f = uFh"
    using assms(3) by (auto simp: held_def)
  note k = open_files_entry[OF f(1)]
  have 1: "inodeAndFile i ?fh ctx ?b = Inr ((node_of ?b i, f, ctx\<lparr>cx_Opener := Some opener\<rparr>), ?b)"
    using k f(2) assms(2) by (simp add: inodeAndFile_def bindM_def getsM_def ret_def Let_def)
  have 2: "fpathOf n f ?b = Inr (path, ?b)" for n using f(3) assms(4) by (simp add: fpathOf_def ret_def)
  have "file_path i fh ctx s = Inr ((node_of ?b i, f, path, ctx\<lparr>cx_Opener := Some opener\<rparr>), s\<lparr>sy_bridge := ?b\<rparr>)"
    unfolding file_path_def by (rule onBridge_eq) (simp add: bindM_def 1 2 ret_def)
  with f(4) show ?thesis by (intro exI[of _ f]) simp
qed

text \<open>What a request on an open file comes to: the call of the file system with the entry's handle, path and opener.\<close>

lemma with_file:
  assumes "bridge_ok (sy_bridge s)" "0 < refs (sy_bridge s) (ih_NodeId h)"
    and "held (sy_bridge s) (ucast fh) = Some (opener, path, uFh)" "path \<noteq> ''''"
    and "\<And>n f pool. fe_uFh f = uFh \<Longrightarrow> body n f path ((ctx_of c h)\<lparr>cx_Opener := Some opener\<rparr>) (s\<lparr>sy_pool := pool\<rparr>) =
      Inr (r, s'\<lparr>sy_pool := pool\<rparr>)"
  shows "\<exists>pool. withContext c (ih_Caller h)
      (\<lambda>ctx. bindM (file_path (ih_NodeId h) fh ctx) (\<lambda>(n, f, path, ctx). body n f path ctx)) s =
    Inr (r, s'\<lparr>sy_pool := pool\<rparr>)"
proof -
  let ?s = "s\<lparr>sy_pool := snd (contextPool_Get (sy_pool s))\<rparr>"
  obtain f where "fe_uFh f = uFh" "file_path (ih_NodeId h) fh (ctx_of c h) ?s =
      Inr ((node_of (sy_bridge s) (ih_NodeId h), f, path, (ctx_of c h)\<lparr>cx_Opener := Some opener\<rparr>), ?s)"
    using file_at[of ?s "ih_NodeId h" fh opener path uFh "ctx_of c h"] assms(1,3,4) refs_pos(1)[OF assms(2)] by auto
  then have "bindM (file_path (ih_NodeId h) fh (ctx_of c h)) (\<lambda>(n, f, path, ctx). body n f path ctx) ?s =
      Inr (r, s'\<lparr>sy_pool := snd (contextPool_Get (sy_pool s))\<rparr>)"
    using assms(5) by (simp add: bindM_Inr)
  then show ?thesis by (auto simp: withContext_eq ctx_of_def)
qed

lemma Open_enters:
  assumes "bridge_ok (sy_bridge s)" "0 < refs (sy_bridge s) (ih_NodeId h)" "files_room (sy_bridge s)"
    and "pathOf (node_of (sy_bridge s) (ih_NodeId h)) (sy_bridge s) = Inr (path, b)"
    and "fs_Open fs (ctx_of c h) path flags (sy_world s) = ((uFh, keep, dio, OK), w)"
  shows "\<exists>oo' s'. Open fs lib c h flags oo s = Inr ((OK, oo'), s') \<and> sy_world s' = w \<and> bridge_ok (sy_bridge s') \<and>
    held (sy_bridge s') (ucast (oo_Fh oo')) = Some (ca_Owner (ih_Caller h), path, uFh)"
proof -
  note n = refs_pos(1)[OF assms(2)]
  have q: "quiet (sy_bridge s) b" using pathOf_quiet[OF assms(1) n assms(4)] .
  obtain fh b' where r: "registerFile (ca_Owner (ih_Caller h)) path uFh None b = Inr (fh, b')" "bridge_ok b'"
    "open_files b' = (open_files b)
      (fh \<mapsto> \<lparr>fe_opener = ca_Owner (ih_Caller h), fe_path = path, fe_uFh = uFh, fe_stream = None\<rparr>)"
    using registerFile_ok[OF quiet_ok[OF q assms(1)] quiet_room[OF q assms(3)]] by blast
  let ?oo = "oo\<lparr>oo_Fh := ucast fh\<rparr>"
  define oo' where "oo' = (if dio then ?oo\<lparr>oo_OpenFlags := oo_OpenFlags ?oo OR lib_FOPEN_DIRECT_IO lib\<rparr>
    else if keep then ?oo\<lparr>oo_OpenFlags := oo_OpenFlags ?oo OR lib_FOPEN_KEEP_CACHE lib\<rparr> else ?oo)"
  have "\<exists>pool. Open fs lib c h flags oo s = Inr ((OK, oo'), (s\<lparr>sy_bridge := b', sy_world := w\<rparr>)\<lparr>sy_pool := pool\<rparr>)"
    unfolding Open_def
    by (rule with_node[OF n assms(4)])
      (simp add: bindM_def onFS_def assms(5) onBridge_def r(1) ret_def oo'_def Let_def Ok_def)
  moreover have "oo_Fh oo' = ucast fh" by (simp add: oo'_def)
  moreover have "held b' fh = Some (ca_Owner (ih_Caller h), path, uFh)" by (simp add: held_open[OF r(3)])
  ultimately show ?thesis using r(2) by fastforce
qed

section \<open>From open to release\<close>

text \<open>
  C13: a handle of \<open>Open\<close> stands for the open file of the file system until it is released, whatever legal
  requests come between: a read, a write and the release hand the file system the number it answered to the open,
  the opener, and the path at the time of opening, even if the file has been renamed or unlinked since. The release
  frees the handle.
\<close>

theorem Open_kept:
  fixes s :: "'w sys" and lib :: "'d fuselib"
  assumes "bridge_ok (sy_bridge s)" "fuse_ok lib out" "0 < refs (sy_bridge s) (ih_NodeId h)" "files_room (sy_bridge s)"
    and "pathOf (node_of (sy_bridge s) (ih_NodeId h)) (sy_bridge s) = Inr (path, b)" "path \<noteq> ''''"
    and "fs_Open fs (ctx_of c h) path flags (sy_world s) = ((uFh, keep, dio, OK), w)"
    and "Open fs lib c h flags oo s = Inr ((code, oo'), s1)"
    and "goes_on fs lib out s1 reqs s2" "\<forall>req \<in> set reqs. \<not> releases req (ucast (oo_Fh oo'))"
    and "0 < refs (sy_bridge s2) (ih_NodeId h2)" "fi_Fh h2 = oo_Fh oo'"
    and "ctx = (ctx_of c2 h2)\<lparr>cx_Opener := Some (ca_Owner (ih_Caller h))\<rparr>"
  shows "code = OK \<and>
    (\<exists>pool. Read fs c2 h2 off dest s2 = (case fs_Read fs ctx path uFh dest off (sy_world s2) of
       (r, w') \<Rightarrow> Inr (r, s2\<lparr>sy_world := w', sy_pool := pool\<rparr>))) \<and>
    (\<exists>pool. Write fs c2 h2 off data s2 = (case fs_Write fs ctx path uFh data off (sy_world s2) of
       (r, w') \<Rightarrow> Inr (r, s2\<lparr>sy_world := w', sy_pool := pool\<rparr>))) \<and>
    (\<exists>pool b'. Release fs c2 h2 s2 = (case fs_Release fs ctx path uFh (sy_world s2) of
       (_, w') \<Rightarrow> Inr ((), \<lparr>sy_bridge = b', sy_world = w', sy_pool = pool\<rparr>)) \<and>
       open_files b' = (open_files (sy_bridge s2))(ucast (oo_Fh oo') := None))"
proof -
  let ?o = "ca_Owner (ih_Caller h)" and ?w = "sy_world s2"
  have c: "code = OK" and h1: "bridge_ok (sy_bridge s1)" "held (sy_bridge s1) (ucast (oo_Fh oo')) = Some (?o, path, uFh)"
    using Open_enters[OF assms(1,3-5,7), of lib oo] assms(8) by auto
  have h2: "bridge_ok (sy_bridge s2)" "held (sy_bridge s2) (ucast (fi_Fh h2)) = Some (?o, path, uFh)"
    using held_goes_on[OF assms(9) h1(1) assms(2) h1(2) assms(10)] assms(12) by simp_all
  note f = with_file[OF h2(1) assms(11) h2(2) assms(6), where c = c2, folded assms(13)]
  have r: "\<exists>pool. Read fs c2 h2 off dest s2 = Inr (fst (fs_Read fs ctx path uFh dest off ?w),
      (s2\<lparr>sy_world := snd (fs_Read fs ctx path uFh dest off ?w)\<rparr>)\<lparr>sy_pool := pool\<rparr>)"
    unfolding Read_def by (rule f) (simp add: onFS_def case_prod_unfold Let_def)
  have wr: "\<exists>pool. Write fs c2 h2 off data s2 = Inr (fst (fs_Write fs ctx path uFh data off ?w),
      (s2\<lparr>sy_world := snd (fs_Write fs ctx path uFh data off ?w)\<rparr>)\<lparr>sy_pool := pool\<rparr>)"
    unfolding Write_def by (rule f) (simp add: onFS_def case_prod_unfold Let_def)
  have "ucast (fi_Fh h2) = (0 :: u32) \<or> open_files (sy_bridge s2) (ucast (fi_Fh h2)) \<noteq> None"
    using h2(2) held_None by (metis option.distinct(1))
  then obtain b' where u: "unregisterFile (ucast (fi_Fh h2)) (sy_bridge s2) = Inr ((), b')"
    "open_files b' = (open_files (sy_bridge s2))(ucast (fi_Fh h2) := None)"
    using unregisterFile_ok[OF h2(1)] by blast
  have "\<exists>pool. Release fs c2 h2 s2 = Inr ((),
      (s2\<lparr>sy_bridge := b', sy_world := snd (fs_Release fs ctx path uFh ?w)\<rparr>)\<lparr>sy_pool := pool\<rparr>)"
    unfolding Release_def
    by (rule f) (simp add: bindM_def onFS_def case_prod_unfold Let_def onBridge_def u(1))
  then have rel: "\<exists>pool. Release fs c2 h2 s2 = Inr ((),
      \<lparr>sy_bridge = b', sy_world = snd (fs_Release fs ctx path uFh ?w), sy_pool = pool\<rparr>)"
    by (cases s2) simp
  show ?thesis unfolding case_prod_unfold using c r wr rel u(2) assms(12) by auto
qed

text \<open>The file \<open>d/x\<close> of the third state is opened, unlinked and read: the read is of \<open>d/x\<close>, number 7.\<close>

definition exopenfs :: "unit FileSystem" where
  "exopenfs = exunlink\<lparr>fs_Open := (\<lambda>ctx path flags w. ((7, False, False, OK), w)),
     fs_Read := (\<lambda>ctx path uFh dest off w. ((if uFh = 7 then Some path else None, OK), w))\<rparr>"

definition exfile :: InHeader where
  "exfile = \<lparr>ih_NodeId = 3, ih_Caller = Caller_zero\<rparr>"

definition exindir :: InHeader where
  "exindir = \<lparr>ih_NodeId = 2, ih_Caller = Caller_zero\<rparr>"

lemma ex2_file: "refs ex2 3 = 1" "refs ex2 2 = 1" "node_of ex2 3 = 3" "files_room ex2"
proof -
  show "refs ex2 3 = 1" "refs ex2 2 = 1" "node_of ex2 3 = 3" by code_simp+
  have "length (files ex2) = 1" by code_simp
  then show "files_room ex2" by (simp add: files_room_def)
qed

lemma ex2_path: "pathOf 3 ex2 = Inr (''d/x'', ex2)"
  using pathOf_named[OF ex2_named(3)] by simp

theorem Open_kept_witness:
  "\<exists>oo' s1 s2 h2 s3. Open exopenfs exlib 0 exfile 0 exopen (exsys ex2) = Inr ((OK, oo'), s1) \<and>
     serve exopenfs exlib [] (Req_Unlink 0 exindir ''x'') s1 = Inr (Reply [] None, s2) \<and>
     Read exopenfs 0 h2 0 [] s2 = Inr ((Some ''d/x'', OK), s3)"
proof -
  let ?req = "Req_Unlink 0 exindir ''x''"
  have n: "0 < refs (sy_bridge (exsys ex2)) (ih_NodeId exfile)" "files_room (sy_bridge (exsys ex2))"
    "pathOf (node_of (sy_bridge (exsys ex2)) (ih_NodeId exfile)) (sy_bridge (exsys ex2)) = Inr (''d/x'', ex2)"
    "bridge_ok (sy_bridge (exsys ex2))"
    using ex2_file ex2_path ex2_ok by (simp_all add: exfile_def)
  have o: "fs_Open exopenfs (ctx_of 0 exfile) ''d/x'' 0 (sy_world (exsys ex2)) = ((7, False, False, OK), ())"
    by (simp add: exopenfs_def)
  obtain oo' s1 where s1: "Open exopenfs exlib 0 exfile 0 exopen (exsys ex2) = Inr ((OK, oo'), s1)"
    using Open_enters[OF n(4,1-3) o] by blast
  then have op: "opened ex2 (sy_bridge s1) (oo_Fh oo')"
    using Open_opens[OF n(4,1,2), of exopenfs exlib 0 0 exopen] by (simp add: total_def)
  then have b1: "bridge_ok (sy_bridge s1)" "refs (sy_bridge s1) = refs ex2" by (simp_all add: opened_def)
  have l: "legal exopenfs (sy_bridge s1) (sy_world s1) ?req" using b1 ex2_file by (simp add: exindir_def)
  obtain rep s2 where s2: "serve exopenfs exlib [] ?req s1 = Inr (rep, s2)"
    and r2: "outcome ?req (sy_bridge s1) rep (sy_bridge s2)"
    using serve_ok[OF b1(1) exlib_fuse l] unfolding total_def by blast
  have p: "rep = Reply [] None" using s2 mapM_plain by simp
  define h2 where "h2 = \<lparr>ih_NodeId = 3, ih_Caller = Caller_zero, fi_Fh = oo_Fh oo'\<rparr>"
  have g: "goes_on exopenfs exlib [] s1 [?req] s2"
    using goes_on_more[OF goes_on_none l s2] by simp
  have f: "0 < refs (sy_bridge s2) (ih_NodeId h2)" "fi_Fh h2 = oo_Fh oo'"
    using r2 b1(2) ex2_file(1) by (simp_all add: outcome_def p counted_def h2_def)
  have "\<forall>req \<in> set [?req]. \<not> releases req (ucast (oo_Fh oo'))" by (simp add: releases_def)
  from Open_kept[OF n(4) exlib_fuse n(1-3) _ o s1 g this f refl, of 0 0 "[]" "[]"]
  obtain pool where "Read exopenfs 0 h2 0 [] s2 = (case fs_Read exopenfs
      ((ctx_of 0 h2)\<lparr>cx_Opener := Some (ca_Owner (ih_Caller exfile))\<rparr>) ''d/x'' 7 [] 0 (sy_world s2) of
        (r, w') \<Rightarrow> Inr (r, s2\<lparr>sy_world := w', sy_pool := pool\<rparr>))" by blast
  moreover have "fs_Read exopenfs ctx ''d/x'' 7 [] 0 w = ((Some ''d/x'', OK), w)" for ctx w
    by (simp add: exopenfs_def)
  ultimately show ?thesis using s1 s2 p by auto
qed

end
