(* ===== verification/Changes.thy ===== *)
theory Changes
  imports Handles
begin

text \<open>
  Changes of attributes. \<open>SetAttr\<close> takes up to four calls of the file system; what the file has afterwards
  is told by a view of the world, \<open>file_meta\<close>, for which the calls do what POSIX says of the calls of their names.
\<close>

section \<open>A file and the calls that change it\<close>

record file_meta =
  fm_perms :: u32
  fm_uid :: u32
  fm_gid :: u32
  fm_size :: u64
  fm_atime :: time
  fm_mtime :: time

definition reports :: "Attr \<Rightarrow> file_meta \<Rightarrow> bool" where
  "reports a m \<longleftrightarrow> at_Mode a AND 0x1FF = fm_perms m \<and> at_Uid a = fm_uid m \<and> at_Gid a = fm_gid m \<and> at_Size a = fm_size m"

text \<open>
  A call that fails changes nothing. An owner or group of all ones is left as it is, a new size can come with
  a new time of modification, and a time that is not given stays. The permissions are the last nine bits of the mode.
\<close>

definition attr_calls :: "'w FileSystem \<Rightarrow> Context \<Rightarrow> string \<Rightarrow> u32 \<Rightarrow> ('w \<Rightarrow> file_meta) \<Rightarrow> bool" where
  "attr_calls fs ctx path uFh meta \<longleftrightarrow>
     (\<forall>perms w code w'. fs_Chmod fs ctx path uFh perms w = (code, w') \<longrightarrow>
        meta w' = (if code = OK then (meta w)\<lparr>fm_perms := perms AND 0x1FF\<rparr> else meta w)) \<and>
     (\<forall>uid gid w code w'. fs_Chown fs ctx path uFh uid gid w = (code, w') \<longrightarrow>
        meta w' = (if code = OK then (meta w)\<lparr>fm_uid := if uid = - 1 then fm_uid (meta w) else uid,
          fm_gid := if gid = - 1 then fm_gid (meta w) else gid\<rparr> else meta w)) \<and>
     (\<forall>sz w code w'. fs_Truncate fs ctx path uFh sz w = (code, w') \<longrightarrow>
        (if code = OK then \<exists>t. meta w' = (meta w)\<lparr>fm_size := sz, fm_mtime := t\<rparr> else meta w' = meta w)) \<and>
     (\<forall>a m w code w'. fs_Utimens fs ctx path uFh a m w = (code, w') \<longrightarrow>
        meta w' = (if code = OK then (meta w)\<lparr>fm_atime := case_option (fm_atime (meta w)) id a,
          fm_mtime := case_option (fm_mtime (meta w)) id m\<rparr> else meta w)) \<and>
     (\<forall>a w code a' w'. fs_GetAttr fs ctx path uFh a w = ((code, a'), w') \<longrightarrow>
        meta w' = meta w \<and> (code = OK \<longrightarrow> reports a' (meta w)))"

lemma attr_callsD:
  assumes "attr_calls fs ctx path uFh meta"
  shows "fs_Chmod fs ctx path uFh perms w = (code, w') \<Longrightarrow>
      meta w' = (if code = OK then (meta w)\<lparr>fm_perms := perms AND 0x1FF\<rparr> else meta w)"
    and "fs_Chown fs ctx path uFh uid gid w = (code, w') \<Longrightarrow>
      meta w' = (if code = OK then (meta w)\<lparr>fm_uid := if uid = - 1 then fm_uid (meta w) else uid,
        fm_gid := if gid = - 1 then fm_gid (meta w) else gid\<rparr> else meta w)"
    and "fs_Truncate fs ctx path uFh sz w = (code, w') \<Longrightarrow>
      if code = OK then \<exists>t. meta w' = (meta w)\<lparr>fm_size := sz, fm_mtime := t\<rparr> else meta w' = meta w"
    and "fs_Utimens fs ctx path uFh a m w = (code, w') \<Longrightarrow>
      meta w' = (if code = OK then (meta w)\<lparr>fm_atime := case_option (fm_atime (meta w)) id a,
        fm_mtime := case_option (fm_mtime (meta w)) id m\<rparr> else meta w)"
    and "fs_GetAttr fs ctx path uFh at w = ((code, at'), w') \<Longrightarrow>
      meta w' = meta w \<and> (code = OK \<longrightarrow> reports at' (meta w))"
proof -
  note a = assms[unfolded attr_calls_def]
  note r = conjunct2[OF conjunct2[OF a]]
  show "fs_Chmod fs ctx path uFh perms w = (code, w') \<Longrightarrow>
      meta w' = (if code = OK then (meta w)\<lparr>fm_perms := perms AND 0x1FF\<rparr> else meta w)"
    by (rule conjunct1[OF a, rule_format])
  show "fs_Chown fs ctx path uFh uid gid w = (code, w') \<Longrightarrow>
      meta w' = (if code = OK then (meta w)\<lparr>fm_uid := if uid = - 1 then fm_uid (meta w) else uid,
        fm_gid := if gid = - 1 then fm_gid (meta w) else gid\<rparr> else meta w)"
    by (rule conjunct1[OF conjunct2[OF a], rule_format])
  show "fs_Truncate fs ctx path uFh sz w = (code, w') \<Longrightarrow>
      if code = OK then \<exists>t. meta w' = (meta w)\<lparr>fm_size := sz, fm_mtime := t\<rparr> else meta w' = meta w"
    by (rule conjunct1[OF r, rule_format])
  show "fs_Utimens fs ctx path uFh a m w = (code, w') \<Longrightarrow>
      meta w' = (if code = OK then (meta w)\<lparr>fm_atime := case_option (fm_atime (meta w)) id a,
        fm_mtime := case_option (fm_mtime (meta w)) id m\<rparr> else meta w)"
    by (rule conjunct1[OF conjunct2[OF r], rule_format])
  show "fs_GetAttr fs ctx path uFh at w = ((code, at'), w') \<Longrightarrow>
      meta w' = meta w \<and> (code = OK \<longrightarrow> reports at' (meta w))"
    by (rule conjunct2[OF conjunct2[OF r], rule_format])
qed

section \<open>What a request asks for\<close>

text \<open>
  \<open>changed k h m m'\<close>: of the mode, the owner, the size and the times, the first \<open>k\<close> are as the request asks for,
  and whatever is not asked for, or comes later, is as it was.
\<close>

definition changed :: "nat \<Rightarrow> SetAttrIn \<Rightarrow> file_meta \<Rightarrow> file_meta \<Rightarrow> bool" where
  "changed k h m m' \<longleftrightarrow>
     fm_perms m' = (if 0 < k \<and> snd (sa_GetMode h) then fst (sa_GetMode h) AND 0x1FF else fm_perms m) \<and>
     fm_uid m' = (if 1 < k \<and> snd (sa_GetUID h) then fst (sa_GetUID h) else fm_uid m) \<and>
     fm_gid m' = (if 1 < k \<and> snd (sa_GetGID h) then fst (sa_GetGID h) else fm_gid m) \<and>
     fm_size m' = (if 2 < k \<and> snd (sa_GetSize h) then fst (sa_GetSize h) else fm_size m) \<and>
     fm_atime m' = (if 3 < k \<and> snd (sa_GetATime h) then fst (sa_GetATime h) else fm_atime m) \<and>
     (if 3 < k \<and> snd (sa_GetMTime h) then fm_mtime m' = fst (sa_GetMTime h)
      else 2 < k \<and> snd (sa_GetSize h) \<or> fm_mtime m' = fm_mtime m)"

text \<open>What go-fuse answers for an owner, or a group, that is not to be changed; all ones never is a new owner.\<close>

definition owners_given :: "SetAttrIn \<Rightarrow> bool" where
  "owners_given h \<longleftrightarrow> snd (sa_GetUID h) = (fst (sa_GetUID h) \<noteq> - 1) \<and> snd (sa_GetGID h) = (fst (sa_GetGID h) \<noteq> - 1)"

text \<open>\<open>code\<close> is an error that the call \<open>k\<close> of the four, which is asked for, has answered.\<close>

definition refused :: "'w FileSystem \<Rightarrow> Context \<Rightarrow> string \<Rightarrow> u32 \<Rightarrow> nat \<Rightarrow> SetAttrIn \<Rightarrow> Status \<Rightarrow> bool" where
  "refused fs ctx path uFh k h code \<longleftrightarrow> code \<noteq> OK \<and>
     (k = 0 \<and> snd (sa_GetMode h) \<and> (\<exists>p w w'. fs_Chmod fs ctx path uFh p w = (code, w')) \<or>
      k = 1 \<and> (snd (sa_GetUID h) \<or> snd (sa_GetGID h)) \<and> (\<exists>u g w w'. fs_Chown fs ctx path uFh u g w = (code, w')) \<or>
      k = 2 \<and> snd (sa_GetSize h) \<and> (\<exists>sz w w'. fs_Truncate fs ctx path uFh sz w = (code, w')) \<or>
      k = 3 \<and> (snd (sa_GetATime h) \<or> snd (sa_GetMTime h)) \<and>
        (\<exists>a m w w'. fs_Utimens fs ctx path uFh a m w = (code, w')))"

lemma run_if:
  "(if P then f w else (code, w)) = (code', w') \<Longrightarrow>
    bindM (if P then onFS f else ret code) body (s\<lparr>sy_world := w\<rparr>) = body code' (s\<lparr>sy_world := w'\<rparr>)"
  by (simp add: bindM_def onFS_def ret_def Let_def split: if_splits)

text \<open>The four calls, each made when it is asked for and nothing has failed, and what becomes of the file.\<close>

lemma calls_change:
  assumes "attr_calls fs ctx path uFh meta" "owners_given h"
    and 1: "(if snd (sa_GetMode h) then fs_Chmod fs ctx path uFh (fst (sa_GetMode h)) w0 else (OK, w0)) = (c1, w1)"
    and 2: "(if c1 = OK \<and> (snd (sa_GetUID h) \<or> snd (sa_GetGID h))
        then fs_Chown fs ctx path uFh (fst (sa_GetUID h)) (fst (sa_GetGID h)) w1 else (c1, w1)) = (c2, w2)"
    and 3: "(if c2 = OK \<and> snd (sa_GetSize h) then fs_Truncate fs ctx path uFh (fst (sa_GetSize h)) w2 else (c2, w2)) = (c3, w3)"
    and 4: "(if c3 = OK \<and> (snd (sa_GetATime h) \<or> snd (sa_GetMTime h))
        then fs_Utimens fs ctx path uFh (if snd (sa_GetATime h) then Some (fst (sa_GetATime h)) else None)
          (if snd (sa_GetMTime h) then Some (fst (sa_GetMTime h)) else None) w3 else (c3, w3)) = (c4, w4)"
  shows "if c4 = OK then changed 4 h (meta w0) (meta w4)
    else \<exists>k < 4. changed k h (meta w0) (meta w4) \<and> refused fs ctx path uFh k h c4"
proof -
  note D = attr_callsD[OF assms(1)]
  have o: "snd (sa_GetUID h) = (fst (sa_GetUID h) \<noteq> - 1)" "snd (sa_GetGID h) = (fst (sa_GetGID h) \<noteq> - 1)"
    using assms(2) by (simp_all add: owners_given_def)
  have m1: "meta w1 = (if c1 = OK \<and> snd (sa_GetMode h)
      then (meta w0)\<lparr>fm_perms := fst (sa_GetMode h) AND 0x1FF\<rparr> else meta w0)"
    using 1 D(1)[of "fst (sa_GetMode h)" w0 c1 w1] by (auto split: if_splits)
  have m2: "meta w2 = (if c2 = OK then (meta w1)\<lparr>fm_uid := if snd (sa_GetUID h) then fst (sa_GetUID h) else fm_uid (meta w1),
      fm_gid := if snd (sa_GetGID h) then fst (sa_GetGID h) else fm_gid (meta w1)\<rparr> else meta w1)"
    using 2 D(2)[of "fst (sa_GetUID h)" "fst (sa_GetGID h)" w1 c2 w2] o by (auto split: if_splits)
  have m3: "if c3 = OK \<and> snd (sa_GetSize h) then \<exists>t. meta w3 = (meta w2)\<lparr>fm_size := fst (sa_GetSize h), fm_mtime := t\<rparr>
      else meta w3 = meta w2"
    using 3 D(3)[of "fst (sa_GetSize h)" w2 c3 w3] by (auto split: if_splits)
  have m4: "meta w4 = (if c4 = OK
      then (meta w3)\<lparr>fm_atime := if snd (sa_GetATime h) then fst (sa_GetATime h) else fm_atime (meta w3),
        fm_mtime := if snd (sa_GetMTime h) then fst (sa_GetMTime h) else fm_mtime (meta w3)\<rparr> else meta w3)"
    using 4 D(4)[of _ _ w3 c4 w4] by (auto split: if_splits)
  show ?thesis
  proof (cases "c4 = OK")
    case True
    then have "c1 = OK" "c2 = OK" "c3 = OK" using 2 3 4 by (auto split: if_splits)
    with True m1 m2 m3 m4 show ?thesis by (auto simp: changed_def split: if_splits)
  next
    case False
    consider (mode) "c1 \<noteq> OK" | (owner) "c1 = OK" "c2 \<noteq> OK" | (size) "c1 = OK" "c2 = OK" "c3 \<noteq> OK"
      | (times) "c1 = OK" "c2 = OK" "c3 = OK" by blast
    then have "\<exists>k < 4. changed k h (meta w0) (meta w4) \<and> refused fs ctx path uFh k h c4"
    proof cases
      case mode
      then have "c4 = c1" "meta w4 = meta w0" "snd (sa_GetMode h)" "fs_Chmod fs ctx path uFh (fst (sa_GetMode h)) w0 = (c1, w1)"
        using 1 2 3 4 m1 by (auto split: if_splits)
      then have "changed 0 h (meta w0) (meta w4) \<and> refused fs ctx path uFh 0 h c4"
        using mode by (auto simp: changed_def refused_def)
      then show ?thesis by (intro exI[of _ 0]) simp
    next
      case owner
      then have "c4 = c2" "meta w4 = meta w1" "snd (sa_GetUID h) \<or> snd (sa_GetGID h)"
        "fs_Chown fs ctx path uFh (fst (sa_GetUID h)) (fst (sa_GetGID h)) w1 = (c2, w2)"
        using 2 3 4 m2 by (auto split: if_splits)
      then have "changed 1 h (meta w0) (meta w4) \<and> refused fs ctx path uFh 1 h c4"
        using owner m1 by (auto simp: changed_def refused_def)
      then show ?thesis by (intro exI[of _ 1]) simp
    next
      case size
      then have "c4 = c3" "meta w4 = meta w2" "snd (sa_GetSize h)" "fs_Truncate fs ctx path uFh (fst (sa_GetSize h)) w2 = (c3, w3)"
        using 3 4 m3 by (auto split: if_splits)
      then have "changed 2 h (meta w0) (meta w4) \<and> refused fs ctx path uFh 2 h c4"
        using size m1 m2 by (auto simp: changed_def refused_def)
      then show ?thesis by (intro exI[of _ 2]) simp
    next
      case times
      then have "meta w4 = meta w3" "snd (sa_GetATime h) \<or> snd (sa_GetMTime h)"
        "\<exists>a m. fs_Utimens fs ctx path uFh a m w3 = (c4, w4)"
        using 4 m4 False by (auto split: if_splits)
      then have "changed 3 h (meta w0) (meta w4) \<and> refused fs ctx path uFh 3 h c4"
        using False times m1 m2 m3 by (auto simp: changed_def refused_def split: if_splits)
      then show ?thesis by (intro exI[of _ 3]) simp
    qed
    with False show ?thesis by simp
  qed
qed

text \<open>The request, when its calls and what they answer are known.\<close>

lemma SetAttr_runs:
  fixes s :: "'w sys"
  assumes "bridge_ok (sy_bridge s)" "0 < refs (sy_bridge s) (ih_NodeId h)"
    and "held (sy_bridge s) (ucast (fst (sa_GetFh h))) = Some (opener, path, uFh)" "path \<noteq> ''''"
    and "ctx = (ctx_of c h)\<lparr>cx_Opener := Some opener\<rparr>"
    and h: "sa_GetMode h = (p, pg)" "sa_GetUID h = (u, ug)" "sa_GetGID h = (g, gg)" "sa_GetSize h = (z, zg)"
      "sa_GetATime h = (a, ag)" "sa_GetMTime h = (m, mg)"
    and 1: "(if pg then fs_Chmod fs ctx path uFh p (sy_world s) else (OK, sy_world s)) = (c1, w1)"
    and 2: "(if c1 = OK \<and> (ug \<or> gg) then fs_Chown fs ctx path uFh u g w1 else (c1, w1)) = (c2, w2)"
    and 3: "(if c2 = OK \<and> zg then fs_Truncate fs ctx path uFh z w2 else (c2, w2)) = (c3, w3)"
    and 4: "(if c3 = OK \<and> (ag \<or> mg) then fs_Utimens fs ctx path uFh (if ag then Some a else None)
        (if mg then Some m else None) w3 else (c3, w3)) = (c4, w4)"
    and 5: "fs_GetAttr fs ctx path uFh (ao_Attr out) w4 = ((c5, at), w5)"
  shows "\<exists>pool. SetAttr fs lib c h out s =
    Inr (if c4 \<noteq> OK then (c4, out)
         else (c5, if c5 \<noteq> OK then out\<lparr>ao_Attr := at\<rparr> else setAttrTimeout lib (options (sy_bridge s))
           (setAttr (lib_goos lib) (options (sy_bridge s)) (out\<lparr>ao_Attr := at\<rparr>))),
      (s\<lparr>sy_world := if c4 \<noteq> OK then w4 else w5\<rparr>)\<lparr>sy_pool := pool\<rparr>)"
  unfolding SetAttr_def h split_conv Let_def
proof (rule with_file[OF assms(1-4)])
  let ?am = "if ag then Some a else None" and ?mm = "if mg then Some m else None" and ?opts = "options (sy_bridge s)"
  fix n f pool assume f: "fe_uFh f = uFh"
  let ?s = "s\<lparr>sy_pool := pool\<rparr>" and ?c = "(ctx_of c h)\<lparr>cx_Opener := Some opener\<rparr>"
  have g: "getAttr fs lib ctx path uFh out (?s\<lparr>sy_world := w4\<rparr>) =
      Inr ((c5, if c5 \<noteq> OK then out\<lparr>ao_Attr := at\<rparr>
        else setAttrTimeout lib ?opts (setAttr (lib_goos lib) ?opts (out\<lparr>ao_Attr := at\<rparr>))), ?s\<lparr>sy_world := w5\<rparr>)"
    using 5 by (simp add: getAttr_def bindM_def onFS_def getsM_def ret_def Let_def)
  have w: "?s = ?s\<lparr>sy_world := sy_world s\<rparr>" by simp
  show "bindM (if pg then onFS (fs_Chmod fs ?c path (fe_uFh f) p) else ret OK) (\<lambda>code.
      bindM (if Ok code \<and> (ug \<or> gg) then onFS (fs_Chown fs ?c path (fe_uFh f) u g) else ret code) (\<lambda>code.
      bindM (if Ok code \<and> zg then onFS (fs_Truncate fs ?c path (fe_uFh f) z) else ret code) (\<lambda>code.
      bindM (if Ok code \<and> (ag \<or> mg) then onFS (fs_Utimens fs ?c path (fe_uFh f) ?am ?mm) else ret code) (\<lambda>code.
        if \<not> Ok code then ret (code, out) else getAttr fs lib ?c path (fe_uFh f) out)))) ?s =
    Inr (if c4 \<noteq> OK then (c4, out)
         else (c5, if c5 \<noteq> OK then out\<lparr>ao_Attr := at\<rparr>
           else setAttrTimeout lib ?opts (setAttr (lib_goos lib) ?opts (out\<lparr>ao_Attr := at\<rparr>))),
      (s\<lparr>sy_world := if c4 \<noteq> OK then w4 else w5\<rparr>)\<lparr>sy_pool := pool\<rparr>)"
    unfolding assms(5)[symmetric] f Ok_def
    by (subst w) (simp only: run_if[where f = "fs_Chmod fs ctx path uFh p", OF 1]
        run_if[where f = "fs_Chown fs ctx path uFh u g", OF 2] run_if[where f = "fs_Truncate fs ctx path uFh z", OF 3]
        run_if[where f = "fs_Utimens fs ctx path uFh ?am ?mm", OF 4], simp add: g ret_def)
qed

section \<open>The request\<close>

text \<open>
  C20: \<open>SetAttr\<close> on an open file changes what it is asked to change, and nothing else: when it answers \<open>OK\<close> the
  permissions, the owner, the size and the times that were given are those of the file, a new time of modification
  is not lost to the change of the size, and the reply shows the file as it is then. It stops at the first call
  that fails: its error is the answer, what comes after it is not changed, and the reply is left as it was.
  Otherwise the answer is that of the \<open>GetAttr\<close> that fills the reply.
\<close>

theorem SetAttr_changes:
  fixes s :: "'w sys"
  assumes "bridge_ok (sy_bridge s)" "0 < refs (sy_bridge s) (ih_NodeId h)"
    and "held (sy_bridge s) (ucast (fst (sa_GetFh h))) = Some (opener, path, uFh)" "path \<noteq> ''''"
    and "ctx = (ctx_of c h)\<lparr>cx_Opener := Some opener\<rparr>" "attr_calls fs ctx path uFh meta" "owners_given h"
  shows "\<exists>k code out' s'. SetAttr fs lib c h out s = Inr ((code, out'), s') \<and> sy_bridge s' = sy_bridge s \<and>
    changed k h (meta (sy_world s)) (meta (sy_world s')) \<and>
    (if k < 4 then refused fs ctx path uFh k h code \<and> out' = out
     else k = 4 \<and> (\<exists>at. (\<exists>w w'. fs_GetAttr fs ctx path uFh (ao_Attr out) w = ((code, at), w')) \<and> out' = (if code = OK then setAttrTimeout lib (options (sy_bridge s))
            (setAttr (lib_goos lib) (options (sy_bridge s)) (out\<lparr>ao_Attr := at\<rparr>)) else out\<lparr>ao_Attr := at\<rparr>) \<and>
          (code = OK \<longrightarrow> reports at (meta (sy_world s')))))"
proof -
  obtain p pg u ug g gg z zg a ag m mg where
    h: "sa_GetMode h = (p, pg)" "sa_GetUID h = (u, ug)" "sa_GetGID h = (g, gg)" "sa_GetSize h = (z, zg)"
      "sa_GetATime h = (a, ag)" "sa_GetMTime h = (m, mg)"
    by (metis surj_pair)
  obtain c1 w1 where 1: "(if pg then fs_Chmod fs ctx path uFh p (sy_world s) else (OK, sy_world s)) = (c1, w1)"
    by (metis surj_pair)
  obtain c2 w2 where 2: "(if c1 = OK \<and> (ug \<or> gg) then fs_Chown fs ctx path uFh u g w1 else (c1, w1)) = (c2, w2)"
    by (metis surj_pair)
  obtain c3 w3 where 3: "(if c2 = OK \<and> zg then fs_Truncate fs ctx path uFh z w2 else (c2, w2)) = (c3, w3)"
    by (metis surj_pair)
  obtain c4 w4 where 4: "(if c3 = OK \<and> (ag \<or> mg) then fs_Utimens fs ctx path uFh (if ag then Some a else None)
      (if mg then Some m else None) w3 else (c3, w3)) = (c4, w4)"
    by (metis surj_pair)
  obtain c5 at w5 where 5: "fs_GetAttr fs ctx path uFh (ao_Attr out) w4 = ((c5, at), w5)" by (metis surj_pair)
  obtain pool where r: "SetAttr fs lib c h out s =
      Inr (if c4 \<noteq> OK then (c4, out)
           else (c5, if c5 \<noteq> OK then out\<lparr>ao_Attr := at\<rparr> else setAttrTimeout lib (options (sy_bridge s))
             (setAttr (lib_goos lib) (options (sy_bridge s)) (out\<lparr>ao_Attr := at\<rparr>))),
        (s\<lparr>sy_world := if c4 \<noteq> OK then w4 else w5\<rparr>)\<lparr>sy_pool := pool\<rparr>)"
    using SetAttr_runs[OF assms(1-5) h 1 2 3 4 5] by blast
  note k = calls_change[OF assms(6,7), unfolded h fst_conv snd_conv, OF 1 2 3 4]
  note m = attr_callsD(5)[OF assms(6) 5]
  show ?thesis
  proof (cases "c4 = OK")
    case True
    with r k m 5 show ?thesis by (intro exI[of _ 4]) auto
  next
    case False
    with k obtain k where "k < 4" "changed k h (meta (sy_world s)) (meta w4)" "refused fs ctx path uFh k h c4" by auto
    with r False show ?thesis by (intro exI[of _ k]) auto
  qed
qed

text \<open>The world is a file of which the size and the times can be changed, but not the owner.\<close>

definition exmeta :: file_meta where
  "exmeta = \<lparr>fm_perms = 0x1A4, fm_uid = 1, fm_gid = 1, fm_size = 10, fm_atime = 3, fm_mtime = 3\<rparr>"

definition exchange :: "file_meta FileSystem" where
  "exchange = defaultFileSystem
     \<lparr>fs_GetAttr := (\<lambda>ctx path uFh out w. ((OK, out\<lparr>at_Mode := 0x8000 OR fm_perms w, at_Uid := fm_uid w,
        at_Gid := fm_gid w, at_Size := fm_size w\<rparr>), w)),
      fs_Chmod := (\<lambda>ctx path uFh perms w. (OK, w\<lparr>fm_perms := perms AND 0x1FF\<rparr>)),
      fs_Chown := (\<lambda>ctx path uFh uid gid w. (Errno 1, w)),
      fs_Truncate := (\<lambda>ctx path uFh sz w. (OK, w\<lparr>fm_size := sz, fm_mtime := 9\<rparr>)),
      fs_Utimens := (\<lambda>ctx path uFh a m w. (OK, w\<lparr>fm_atime := case_option (fm_atime w) id a,
        fm_mtime := case_option (fm_mtime w) id m\<rparr>))\<rparr>"

lemma exchange_calls: "attr_calls exchange ctx path uFh (\<lambda>w. w\<lparr>fm_perms := fm_perms w AND 0x1FF\<rparr>)"
  by (auto simp: attr_calls_def exchange_def reports_def and.assoc bit.conj_disj_distrib2
      intro!: exI[of _ 9] file_meta.equality split: option.split)

definition exattrs :: AttrOut where
  "exattrs = \<lparr>ao_AttrValid = 0, ao_AttrValidNsec = 0, ao_Attr = eo_Attr exout\<rparr>"

theorem SetAttr_changes_witness:
  "\<exists>h code out' s s'. sa_GetSize h = (5, True) \<and> sa_GetMTime h = (7, True) \<and>
     SetAttr exchange exlib 0 h exattrs s = Inr ((code, out'), s') \<and> sy_world s = exmeta \<and>
     fm_size (sy_world s') = 5 \<and> fm_mtime (sy_world s') = 7 \<and> fm_uid (sy_world s') = 1 \<and> fm_atime (sy_world s') = 3"
proof -
  let ?d = "\<lparr>fe_opener = ca_Owner Caller_zero, fe_path = ''d/x'', fe_uFh = 7, fe_stream = None\<rparr>"
  obtain fh b where b: "bridge_ok b" "refs b = refs ex2" "open_files b = (open_files ex2)(fh \<mapsto> ?d)"
    using registerFile_ok[OF ex2_ok ex2_file(4), of "ca_Owner Caller_zero" "''d/x''" 7 None] by blast
  let ?s = "\<lparr>sy_bridge = b, sy_world = exmeta, sy_pool = []\<rparr>"
  let ?h = "\<lparr>ih_NodeId = 3, ih_Caller = Caller_zero, sa_GetFh = (ucast fh, True), sa_GetMode = (0x180, True),
    sa_GetUID = (- 1, False), sa_GetGID = (- 1, False), sa_GetSize = (5, True), sa_GetATime = (0, False), sa_GetMTime = (7, True)\<rparr>"
  let ?ctx = "(ctx_of 0 ?h)\<lparr>cx_Opener := Some (ca_Owner Caller_zero)\<rparr>"
  have "bridge_ok (sy_bridge ?s)" "0 < refs (sy_bridge ?s) (ih_NodeId ?h)"
    "held (sy_bridge ?s) (ucast (fst (sa_GetFh ?h))) = Some (ca_Owner Caller_zero, ''d/x'', 7)" "''d/x'' \<noteq> ''''"
    using b ex2_file(1) by (simp_all add: held_open)
  from SetAttr_changes[OF this refl exchange_calls, where c = 0 and lib = exlib and out = exattrs] obtain k code out' s' where
    r: "SetAttr exchange exlib 0 ?h exattrs ?s = Inr ((code, out'), s')"
      "changed k ?h (exmeta\<lparr>fm_perms := fm_perms exmeta AND 0x1FF\<rparr>)
        ((sy_world s')\<lparr>fm_perms := fm_perms (sy_world s') AND 0x1FF\<rparr>)"
      "k < 4 \<longrightarrow> refused exchange ?ctx ''d/x'' 7 k ?h code"
    by (auto simp: owners_given_def split: if_splits)
  have "\<not> refused exchange ?ctx ''d/x'' 7 k ?h code" by (auto simp: refused_def exchange_def)
  with r(3) have "3 < k" by simp
  with r(1,2) show ?thesis
    by (intro exI[of _ ?h] exI[of _ code] exI[of _ out'] exI[of _ ?s] exI[of _ s']) (simp add: changed_def exmeta_def)
qed

end
