(* ===== verification/Reuse.thy ===== *)
theory Reuse
  imports Bridge_Theorems
begin

text \<open>
  What happens when the file system uses a number again while the kernel still has references on it: the bridge
  keeps the inode it knows, of the kind it was made with.
\<close>

section \<open>A number that changes its kind\<close>

lemma Lookup_in_file:
  assumes "bridge_ok (sy_bridge s)" "0 < refs (sy_bridge s) (ih_NodeId h)"
    and "\<not> isDir (heap (sy_bridge s) (node_of (sy_bridge s) (ih_NodeId h)))"
    and "pathOf (node_of (sy_bridge s) (ih_NodeId h)) (sy_bridge s) = Inr (path, b)"
    and "fs_GetAttr fs (ctx_of c h) (childPathOf path name) 0 (eo_Attr out) (sy_world s) = ((OK, attr), w)"
    and "name \<noteq> ''.''" "name \<noteq> ''..''" "at_Ino attr \<noteq> NOT 0"
  shows "Lookup fs lib c h name out s = Inl Panic_nil_map"
proof -
  let ?p = "node_of (sy_bridge s) (ih_NodeId h)" and ?i = "at_Ino attr" and ?dir = "lib_IsDir lib attr"
  note n = refs_pos(1)[OF assms(2)]
  have q: "quiet (sy_bridge s) b" using pathOf_quiet[OF assms(1) n assms(4)] .
  have t: "tree_ok (sy_bridge s)" using assms(1) by (simp add: bridge_ok_def)
  have p: "valid b ?p" "\<not> isDir (heap b ?p)"
    using table_valid(1)[OF t n] assms(3) quiet_views[OF q] quiet_frame[OF q] by simp_all
  obtain c' b1 where k: "known ?i ?dir b = (c', b1)" by (metis surj_pair)
  have "\<not> isDir (heap (ref_st ?i c' b1) ?p)"
    using known_cases[OF k] p by (auto simp: ref_heap valid_def isDir_simps alloc_st_def)
  then have a: "addChild ?p name ?i ?dir b = Inl Panic_nil_map"
    using addChild_file[of name ?i b ?dir ?p] assms(6-8) k by simp
  let ?s = "s\<lparr>sy_pool := snd (contextPool_Get (sy_pool s))\<rparr>"
  have "child_path (ih_NodeId h) name ?s = Inr ((?p, childPathOf path name), ?s\<lparr>sy_bridge := b\<rparr>)"
    using child_path_at[of ?s "ih_NodeId h" path b name] n assms(4) by simp
  then show ?thesis
    using assms(5) a
    by (simp add: Lookup_def withContext_eq bindM_def lookup_def onFS_def onBridge_def flip: ctx_of_def)
qed

text \<open>
  C38: \<open>addChild\<close> takes a known inode as it is, whatever the file system says it is now: when the number of a
  file that the kernel still has references on is used again for a directory, the look-up is answered as that of
  a directory, and the first look-up in this directory that finds something panics.
\<close>

theorem reused_number:
  assumes "bridge_ok (sy_bridge s)" "fuse_ok lib out0" "0 < refs (sy_bridge s) (ih_NodeId h)"
    and "pathOf (node_of (sy_bridge s) (ih_NodeId h)) (sy_bridge s) = Inr (path, b)"
    and "fs_GetAttr fs (ctx_of c h) (childPathOf path name) 0 (eo_Attr out) (sy_world s) = ((OK, attr), w)"
    and "answer_ok (sy_bridge s) (node_of (sy_bridge s) (ih_NodeId h)) name (at_Ino attr)"
    and "0 < refs (sy_bridge s) (at_Ino attr)"
    and "\<not> isDir (heap (sy_bridge s) (node_of (sy_bridge s) (at_Ino attr)))"
  shows "\<exists>out' s'. Lookup fs lib c h name out s = Inr ((OK, out'), s') \<and> eo_NodeId out' = at_Ino attr \<and>
    bridge_ok (sy_bridge s') \<and> 0 < refs (sy_bridge s') (at_Ino attr) \<and>
    (\<forall>c2 h2 m out2 path2 b2 attr2 w2. ih_NodeId h2 = at_Ino attr \<longrightarrow> m \<noteq> ''.'' \<longrightarrow> m \<noteq> ''..'' \<longrightarrow>
       pathOf (node_of (sy_bridge s') (at_Ino attr)) (sy_bridge s') = Inr (path2, b2) \<longrightarrow>
       fs_GetAttr fs (ctx_of c2 h2) (childPathOf path2 m) 0 (eo_Attr out2) w = ((OK, attr2), w2) \<longrightarrow>
       at_Ino attr2 \<noteq> NOT 0 \<longrightarrow> Lookup fs lib c2 (h2 :: InHeader) m out2 s' = Inl Panic_nil_map)"
proof -
  let ?p = "node_of (sy_bridge s) (ih_NodeId h)" and ?i = "at_Ino attr"
  note n = refs_pos[OF assms(3)] and k = refs_pos(1)[OF assms(7)]
  have q: "quiet (sy_bridge s) b" using pathOf_quiet[OF assms(1) n(1) assms(4)] .
  have t: "tree_ok (sy_bridge s)" using assms(1) by (simp add: bridge_ok_def)
  note v = quiet_views[OF q]
  have p: "valid b ?p" "registered b ?p" "valid b (node_of (sy_bridge s) ?i)"
    using table_valid[OF t n(1)] table_valid(1)[OF t k] v by simp_all
  have a: "answer_ok b ?p name ?i" using quiet_answer[OF q] assms(6) by simp
  obtain c' b' where b': "addChild ?p name ?i (lib_IsDir lib attr) b = Inr (c', b')" "bridge_ok b'"
    "added b ?p name ?i (lib_IsDir lib attr) c' b'" "refs b' = (refs b)(?i := Suc (refs b ?i))"
    using addChild_ok[OF quiet_ok[OF q assms(1)] p(1,2) a] by blast
  have e: "node_of b ?i = node_of (sy_bridge s) ?i" by (simp add: quiet_frame[OF q])
  then have o: "c' = node_of (sy_bridge s) ?i" using added_old(1)[OF b'(3)] k by simp
  moreover have "isDir (heap b' (node_of (sy_bridge s) ?i)) = isDir (heap b (node_of (sy_bridge s) ?i))"
    using b'(3) p(3) by (simp add: added_def)
  ultimately have f: "node_of b' ?i = c'" "\<not> isDir (heap b' c')"
    using added_frame(3)[OF b'(3)] assms(8) quiet_frame[OF q] by simp_all
  have l: "lookup fs lib (ctx_of c h) (childPathOf path name) ?p name out (s\<lparr>sy_bridge := b, sy_pool := pool\<rparr>) =
      Inr ((OK, entry_reply lib (options b) ?i attr out), s\<lparr>sy_world := w, sy_bridge := b', sy_pool := pool\<rparr>)" for pool
    using lookup_added[of fs _ _ out "s\<lparr>sy_bridge := b, sy_pool := pool\<rparr>" attr w ?p name lib c' b'] assms(5) b'(1,3)
    by simp
  have "\<exists>pool. Lookup fs lib c h name out s =
      Inr ((OK, entry_reply lib (options b) ?i attr out), (s\<lparr>sy_world := w, sy_bridge := b'\<rparr>)\<lparr>sy_pool := pool\<rparr>)"
    unfolding Lookup_def
    by (rule with_child[OF n(1) assms(4)]) (simp add: bindM_def l ret_def)
  then obtain s' where s': "Lookup fs lib c h name out s = Inr ((OK, entry_reply lib (options b) ?i attr out), s')"
    "sy_bridge s' = b'" "sy_world s' = w" by fastforce
  have "Lookup fs lib c2 h2 m out2 s' = Inl Panic_nil_map"
    if "ih_NodeId h2 = ?i" "m \<noteq> ''.''" "m \<noteq> ''..''" "pathOf (node_of b' ?i) b' = Inr (path2, b2)"
      "fs_GetAttr fs (ctx_of c2 h2) (childPathOf path2 m) 0 (eo_Attr out2) w = ((OK, attr2), w2)" "at_Ino attr2 \<noteq> NOT 0"
    for c2 m out2 path2 b2 attr2 w2 and h2 :: InHeader
    by (rule Lookup_in_file[OF _ _ _ _ _ that(2,3,6)]) (use that s'(2,3) b'(2,4) f in simp_all)
  then have all: "\<forall>c2 h2 m out2 path2 b2 attr2 w2. ih_NodeId h2 = ?i \<longrightarrow> m \<noteq> ''.'' \<longrightarrow> m \<noteq> ''..'' \<longrightarrow>
      pathOf (node_of (sy_bridge s') ?i) (sy_bridge s') = Inr (path2, b2) \<longrightarrow>
      fs_GetAttr fs (ctx_of c2 h2) (childPathOf path2 m) 0 (eo_Attr out2) w = ((OK, attr2), w2) \<longrightarrow>
      at_Ino attr2 \<noteq> NOT 0 \<longrightarrow> Lookup fs lib c2 (h2 :: InHeader) m out2 s' = Inl Panic_nil_map"
    unfolding s'(2) by blast
  have "0 < refs b' ?i" by (simp add: b'(4))
  with s'(1) entry_reply_NodeId[of lib "options b" ?i attr out] assms(2) b'(2) all show ?thesis
    by (auto simp: fuse_ok_def s'(2))
qed

text \<open>The file 3 of the third state, of which the file system says that it is the directory \<open>z\<close>.\<close>

definition exreuse :: "unit FileSystem" where
  "exreuse = exfs\<lparr>fs_GetAttr := (\<lambda>ctx path uFh out w.
     if path = ''z'' then ((OK, out\<lparr>at_Ino := 3, at_Mode := 0x4000\<rparr>), w) else ((OK, out\<lparr>at_Ino := 7\<rparr>), w))\<rparr>"

lemma ex2_z: "refs ex2 3 = 1" "edge ex2 1 ''z'' = nil" "node_of ex2 3 = 3" "\<not> isDir (heap ex2 3)"
  by code_simp+

lemma ex2_answer: "answer_ok ex2 1 ''z'' 3"
proof -
  have "(3, 1) \<notin> (down ex2)\<^sup>*" using ex2_no_down by (simp add: ex2_facts(10))
  with ex2_z ex2_facts(7) show ?thesis by (simp add: answer_ok_def)
qed

theorem reused_number_witness:
  "\<exists>out' s'. Lookup exreuse exlib 0 exhdr ''z'' exout (exsys ex2) = Inr ((OK, out'), s') \<and> eo_NodeId out' = 3 \<and>
     Lookup exreuse exlib 0 (exhdr\<lparr>ih_NodeId := 3\<rparr>) ''w'' exout s' = Inl Panic_nil_map"
proof -
  let ?attr = "(eo_Attr exout)\<lparr>at_Ino := 3, at_Mode := 0x4000\<rparr>"
  have r: "node_of ex2 (ih_NodeId exhdr) = root ex2" using ex2_refs(4) ex2_facts(15) by (simp add: exhdr_def)
  have f: "fs_GetAttr exreuse ctx (childPathOf '''' ''z'') 0 (eo_Attr exout) () = ((OK, ?attr), ())" for ctx
    by (simp add: exreuse_def childPathOf_def)
  have a: "answer_ok ex2 (node_of ex2 (ih_NodeId exhdr)) ''z'' (at_Ino ?attr)"
    using ex2_answer ex2_refs(4) by (simp add: exhdr_def)
  have n: "0 < refs ex2 (ih_NodeId exhdr)" using ex2_refs(2) by (simp add: exhdr_def)
  from reused_number[of "exsys ex2" exlib "[]" exhdr "''''" ex2 exreuse 0 "''z''" exout ?attr "()"]
  obtain out' s' where s': "Lookup exreuse exlib 0 exhdr ''z'' exout (exsys ex2) = Inr ((OK, out'), s')"
    "eo_NodeId out' = 3" "bridge_ok (sy_bridge s')" "0 < refs (sy_bridge s') 3"
    "\<And>path2 b2 attr2 w2. pathOf (node_of (sy_bridge s') 3) (sy_bridge s') = Inr (path2, b2) \<Longrightarrow>
       fs_GetAttr exreuse (ctx_of 0 (exhdr\<lparr>ih_NodeId := 3\<rparr>)) (childPathOf path2 ''w'') 0 (eo_Attr exout) () = ((OK, attr2), w2) \<Longrightarrow>
       at_Ino attr2 \<noteq> NOT 0 \<Longrightarrow> Lookup exreuse exlib 0 (exhdr\<lparr>ih_NodeId := 3\<rparr>) ''w'' exout s' = Inl Panic_nil_map"
    using ex2_ok exlib_fuse n r pathOf_root[of ex2] f a ex2_z by (auto simp: exhdr_def)
  have t: "tree_ok (sy_bridge s')" "acyclic (down (sy_bridge s'))" using s'(3) by (simp_all add: bridge_ok_def)
  obtain path2 b2 where p: "pathOf (node_of (sy_bridge s') 3) (sy_bridge s') = Inr (path2, b2)"
    using pathOf_total[OF t table_valid(1)[OF t(1) refs_pos(1)[OF s'(4)]]] by blast
  have g: "\<exists>attr2. fs_GetAttr exreuse ctx path 0 (eo_Attr exout) () = ((OK, attr2), ()) \<and> at_Ino attr2 \<noteq> NOT 0" for ctx path
    by (simp add: exreuse_def)
  from g obtain attr2 where "fs_GetAttr exreuse (ctx_of 0 (exhdr\<lparr>ih_NodeId := 3\<rparr>)) (childPathOf path2 ''w'') 0 (eo_Attr exout) ()
      = ((OK, attr2), ())" "at_Ino attr2 \<noteq> NOT 0" by blast
  from s'(5)[OF p this] s'(1,2) show ?thesis by blast
qed

end
