(* ===== verification/Mount.thy ===== *)
theory Mount
  imports Session
begin

text \<open>
  \<open>Mount\<close> (\<open>mount.go\<close>): a new bridge is given to a go-fuse server, which is a parameter:
  making the server, starting its loop, and waiting until the mount is there, each a
  function over the state of the system. A nil server is None, and so is a nil error.
\<close>

record ('v, 'm, 'e, 'k) fuseserver =
  srv_NewServer :: "rawBridge \<Rightarrow> string \<Rightarrow> 'm \<Rightarrow> 'k \<Rightarrow> ('v option \<times> 'e option) \<times> 'k"
  srv_Serve :: "'v \<Rightarrow> 'k \<Rightarrow> 'k"
  srv_WaitMount :: "'v \<Rightarrow> 'k \<Rightarrow> 'e option \<times> 'k"

definition oneSec :: duration where
  "oneSec = 1000000000"

definition Mount_options :: "Options option \<Rightarrow> Options" where
  "Mount_options opts =
    (case opts of
       None \<Rightarrow> \<lparr>op_EntryTimeout = Some oneSec, op_AttrTimeout = Some oneSec, op_NegativeTimeout = None,
                op_NullPermissions = False, op_UID = 0, op_GID = 0, op_Logger = False\<rparr>
     | Some opts \<Rightarrow> opts)"

definition Mount ::
  "('v, 'm, 'e, 'k) fuseserver \<Rightarrow> string \<Rightarrow> Options option \<Rightarrow> 'm \<Rightarrow> (nat \<Rightarrow> u64) \<Rightarrow> 'k
    \<Rightarrow> abort + (('v option \<times> 'e option) \<times> 'k)" where
  "Mount lib dir opts mntOptions rs k =
    (case NewPathFS (Some (Mount_options opts)) rs of
       Inl e \<Rightarrow> Inl e
     | Inr rawFS \<Rightarrow>
         (case srv_NewServer lib rawFS dir mntOptions k of
            ((_, Some err), k) \<Rightarrow> Inr ((None, Some err), k)
          | ((None, None), k) \<Rightarrow> Inl Panic_nil_pointer
          | ((Some server, None), k) \<Rightarrow>
              (case srv_WaitMount lib server (srv_Serve lib server k) of
                 (Some err, k) \<Rightarrow> Inr ((None, Some err), k)
               | (None, k) \<Rightarrow> Inr ((Some server, None), k))))"

section \<open>What is served\<close>

text \<open>\<open>Mount\<close> and \<open>NewPathFS\<close> have the same default options, as the doc of \<open>Mount\<close> says.\<close>

lemma Mount_default: "Mount_options None = Options_default"
  by (simp add: Mount_options_def Options_default_def oneSec_def)

text \<open>The server gets a bridge in its first state, and no error of the server is lost.\<close>

lemma Mount_serves:
  assumes "srv_NewServer lib b dir m k = ((Some server, None), k1)" "NewPathFS (Some (Mount_options opts)) rs = Inr b"
    and "srv_WaitMount lib server (srv_Serve lib server k1) = (err, k2)"
  shows "bridge_ok b"
    and "Mount lib dir opts m rs k = Inr ((if err = None then Some server else None, err), k2)"
  using NewPathFS_ok(1)[OF assms(2)] assms by (auto simp: Mount_def split: option.splits)

end
