(* ===== verification/Spec2Isabelle.thy ===== *)
theory Spec2Isabelle
  imports Walks Footprints Syscalls_Theorems Dump_Theorems Listing_Theorems Reading Changes Reuse Mount
begin

text \<open>
  A verification of \<open>pathfs\<close>: the bridge between the node interface of go-fuse, which names
  inodes by numbers and counts the references the kernel has on them, and a file system
  that is written in terms of paths.

  \<^bold>\<open>The program.\<close> \<open>bridge.go\<close> has one method per request of the kernel. A method finds the
  inode of its request in the table \<open>nodes\<close>, asks \<open>pathOf\<close> (\<open>file.go\<close>) for the path that
  leads to it, calls the \<open>FileSystem\<close> (\<open>api.go\<close>) with that path, and brings the tree of
  inodes (\<open>inode.go\<close>) up to date: \<open>addChild\<close> after a look-up, \<open>rmChild\<close> and \<open>mvChild\<close> after
  the removal or the renaming of an entry, \<open>removeRef\<close> when the kernel forgets. An inode
  has its parents in a store that knows the one added last (\<open>inode_parents.go\<close>); open files
  have handles (\<open>file.go\<close>). A bridge can be handed over to another process (\<open>dump.go\<close>).

  \<^bold>\<open>The theories, and what they model.\<close>
  \<^item> \<open>Prelude\<close>: words, addresses, the monad of state and aborts (every panic of the code is
    an abort, and so is a loop that does not end), Go maps as association lists.
  \<^item> \<open>Parents\<close> (\<open>inode_parents.go\<close>): the store, and the two contracts the others rely on, a
    set of entries (\<open>parent_store\<close>) and a list of them by recency (\<open>recency_store\<close>), both
    locales that are interpreted on the code's operations.
  \<^item> \<open>Api\<close>, \<open>Default_FS\<close> (\<open>api.go\<close>, \<open>context.go\<close>, \<open>default.go\<close>): the data of go-fuse, a file
    system as a record of functions over a world, options, contexts and their pool. The
    functions of go-fuse are the record \<open>fuselib\<close>, a parameter.
  \<^item> \<open>Attributes\<close> (\<open>inode.go\<close>, \<open>file_linux.go\<close>, \<open>file_darwin.go\<close>): how attributes are completed.
  \<^item> \<open>Inode\<close>, \<open>Tree\<close> (\<open>inode.go\<close>): inodes on a heap, the state \<open>rawBridge\<close>, and the operations
    on the tree, each with its loops and early returns. \<open>Tree_Inv\<close> and \<open>Tree_Ops\<close> have the
    invariant \<open>tree_ok\<close> (table, children, parents and counts agree) and what each operation
    does to edges, parents, table and counts.
  \<^item> \<open>Paths\<close>, \<open>Files\<close> (\<open>file.go\<close>): \<open>pathOf\<close>, and the table of open files with its contract
    \<open>handle_table\<close>, a locale interpreted on \<open>registerFile\<close> and \<open>unregisterFile\<close>.
  \<^item> \<open>Locks\<close> (\<open>inode.go\<close>): the lock events of \<open>lockNodes\<close> and \<open>lockNode2\<close>.
  \<^item> \<open>Interleaving\<close>, \<open>Shared\<close>, \<open>Atomic\<close> (\<open>inode.go\<close>): the operations on the tree as sequences of
    critical sections (\<open>task\<close>, \<open>run_task\<close>), which threads run in any order (\<open>threads_run\<close>); what
    every section keeps (\<open>shared_ok\<close>); and the operations in steps that are not interrupted
    (\<open>atomic_run\<close>), which the interleavings refine. \<open>Footprints\<close>: the locks of a section
    (\<open>section_locks\<close>, \<open>takes_mu\<close>), and that it runs on what it has locked. \<open>Walks\<close> (\<open>file.go\<close>): the walk of
    \<open>pathOf\<close>, read by read, among such threads (\<open>walk_run\<close>).
  \<^item> \<open>Bridge\<close> (\<open>bridge.go\<close>): every request. \<open>Bridge_Inv\<close> and \<open>Requests\<close> prove them totally
    correct over the invariant \<open>bridge_ok\<close>; what they rely on of the tree is the locale
    \<open>inode_tree\<close>, interpreted on its operations. \<open>Listing\<close> does so for \<open>ReadDirPlus\<close>, a listing that
    looks up its entries; \<open>Session\<close> runs the requests one after the other.
  \<^item> \<open>Dump\<close> (\<open>dump.go\<close>, \<open>Dump\<close> and \<open>Restore\<close> of \<open>bridge.go\<close>), \<open>Dump_Table\<close> and \<open>Dump_Inv\<close>: the
    table of inodes without addresses (\<open>table_of\<close>), which a dump writes down, and the
    simulation of \<open>AddInode\<close> by an operation on such tables.
  \<^item> \<open>Syscalls\<close> (\<open>syscall.go\<close>, \<open>syscall_linux.go\<close>, \<open>syscall_darwin.go\<close>): extended attributes and
    times by system calls, over a kernel that is a parameter. \<open>Mount\<close> (\<open>mount.go\<close>).
  \<^item> \<open>Examples\<close>: small states, at which the theorems are applied.
  \<^item> \<open>Tree_Theorems\<close>, \<open>Interleaving_Theorems\<close>, \<open>Bridge_Theorems\<close>, \<open>Listing_Theorems\<close>,
    \<open>Handles\<close> (open files from open to release), \<open>Reading\<close> (directories read to their end), \<open>Changes\<close>
    (attributes that are set), \<open>Reuse\<close> (numbers used again), \<open>Dump_Theorems\<close>, \<open>Syscalls_Theorems\<close> and this
    theory: the properties of single components, and those of whole sessions.

  \<^bold>\<open>What the theorems show.\<close> Sessions: the counts of the bridge are those of the kernel,
  no legal request panics, and nothing leaks. The tree: what \<open>addChild\<close>, \<open>rmChild\<close>,
  \<open>mvChild\<close> and \<open>removeRef\<close> change and keep, on every branch. Paths: \<open>pathOf\<close> leads back to
  its inode, paths differ, and they follow additions and renamings. Requests: the replies,
  and which errors of the file system go where; a handle stands for the same open file from the
  open to the release, a directory read to its end gives each entry of the listing once, and attributes
  that are set are set in an order that keeps all of them. Dump: a restored bridge has the same
  table and the same paths. Threads: the checks of the revisions make the sections of a call
  act as one, a section reads and writes only what it has locked, and the locks do not block
  each other for good. A few theorems show how the code fails: a stale parent, a number
  that is used again for a directory, a removal that is overtaken by another thread, a walk of
  \<open>pathOf\<close> that ends in the path of another file, an open file that is never released, a panic of \<open>listXAttr\<close>.

  \<^bold>\<open>Assumptions.\<close> \<open>time.Now()\<close> answers a later time whenever it is asked (the order of
  the older parents rests on it). The kernel names inodes it has references on, forgets no
  more than it was given, and uses handles it was given (\<open>legal\<close>). The file system answers
  a look-up in a directory only, with a number that is not 0, not 1, not the reserved one, and
  not that of an ancestor; a name that is in the tree keeps its number until it is removed
  (\<open>stale_parent\<close> shows what happens otherwise), and no count reaches \<open>2 ^ 32\<close>
  (\<open>answer_ok\<close>; \<open>plus_ok\<close> asks it of each entry of a listing, in the tree the entries before
  have made). The file system does not move a directory into itself (\<open>move_ok\<close>). Of go-fuse:
  the timeouts it fills in leave the number of an entry alone, a reply to a listing starts
  empty, and an entry added to it has the number written through its pointer (\<open>fuse_ok\<close>);
  \<open>AddDirEntry\<close> reports whether it has added the entry (\<open>adds_entries\<close>), and \<open>SetAttrIn\<close> has all ones for an owner that
  is not given (\<open>owners_given\<close>). For \<open>SetAttr_changes\<close> the calls of the file system change what the POSIX
  calls of their names do (\<open>attr_calls\<close>).

  \<^bold>\<open>Fuel.\<close> The loops of the tree that start over when an inode has changed get the rounds
  an undisturbed call needs, one or two. \<open>removeRef\<close> gets one more than the number of parent
  links (\<open>links\<close>), as each level of it drops at least one; \<open>removeRef_total\<close> shows that this is
  enough. The walk of \<open>pathOf\<close> has no fuel: it is a partial function, defined on trees
  without cycles (\<open>pathOf_leads_back\<close>). \<open>dump_loop\<close> gets one round more than there are
  inodes; the loops over system calls need two rounds (\<open>xattr_calls_return\<close>).

  \<^bold>\<open>Not modelled.\<close> Sessions run one request at a time. Of concurrency the operations on the tree
  and their locks are modelled, and the walk of \<open>pathOf\<close>, not the requests around them; a critical
  section is one step, as \<open>sections_local\<close> allows. Left out are
  \<open>Init\<close>, \<open>String\<close> and \<open>SetDebug\<close>, which do nothing, \<open>verifyAttrTesting\<close>, which serves the
  tests, the loopback file system \<open>test_fs.go\<close>, which hands every call to the operating
  system, and the tests.
\<close>

section \<open>Sessions\<close>

text \<open>
  C1: in every session the bridge keeps its invariant, its reference counts are those of the kernel, and
  its open files are the handles the kernel was given and has not released.
\<close>

theorem session_counts:
  assumes "fuse_ok lib out" "session fs lib out s K H"
  shows "bridge_ok (sy_bridge s) \<and> (\<forall>i. refs (sy_bridge s) i = K i) \<and> dom (open_files (sy_bridge s)) = H"
  using session_inv[OF assms] by simp

theorem session_counts_witness:
  "\<exists>s. bridge_ok (sy_bridge s) \<and> (\<forall>i. refs (sy_bridge s) i = (if i = 1 \<or> i = 2 then 1 else 0)) \<and>
     sy_bridge s \<noteq> ex0 \<and> dom (open_files (sy_bridge (s :: unit sys))) = {}"
proof -
  obtain s :: "unit sys" where "session exfs exlib [] s ((\<lambda>_. 0)(1 := 1, 2 := 1)) {}" using ex_lookup by blast
  from session_counts[OF exlib_fuse this] ex0_facts(4) show ?thesis by (intro exI[of _ s]) auto
qed

text \<open>
  C2: a legal request of a session is answered: no handler panics or loops, and a handle it gives out is
  not 0 and not in use.
\<close>

theorem session_never_fails:
  assumes "fuse_ok lib out" "session fs lib out s K H" "legal fs (sy_bridge s) (sy_world s) req"
  shows "\<exists>rep s'. serve fs lib out req s = Inr (rep, s') \<and>
    (\<forall>fh. reply_handle rep = Some fh \<longrightarrow> ucast fh \<noteq> (0 :: u32) \<and> ucast fh \<notin> H)"
proof -
  have "bridge_ok (sy_bridge s)" "dom (open_files (sy_bridge s)) = H" using session_inv[OF assms(1,2)] by simp_all
  with serve_ok[OF this(1) assms(1,3)] show ?thesis unfolding total_def outcome_def held_dom by blast
qed

theorem session_never_fails_witness:
  "\<exists>rep s'. serve exfs exlib [] exlookup (exsys ex0) = Inr (rep, s')"
proof -
  have "legal exfs (sy_bridge (exsys ex0)) (sy_world (exsys ex0)) exlookup"
    using exfs_lookup_legal by (simp add: exsys_def exlookup_def)
  from session_never_fails[OF exlib_fuse ex_start this] show ?thesis by blast
qed

text \<open>
  C3: nothing leaks: when the kernel has given back its references on everything but the root, the table
  of inodes holds the root only.
\<close>

theorem session_all_forgotten:
  assumes "fuse_ok lib out" "session fs lib out s K H" "\<And>i. i \<noteq> 1 \<Longrightarrow> K i = 0"
  shows "NodeCount (sy_bridge s) = Inr (1, sy_bridge s)"
proof -
  have "bridge_ok (sy_bridge s)" "refs (sy_bridge s) = K" using session_inv[OF assms(1,2)] by simp_all
  then have "length (nodes (sy_bridge s)) = 1" using one_node assms(3) by blast
  then show ?thesis by (simp add: NodeCount_def getsM_def)
qed

theorem session_all_forgotten_witness:
  "\<exists>s s'. refs (sy_bridge s) 2 = 1 \<and> serve exfs exlib [] exforget s = Inr (Reply [] None, s') \<and>
     NodeCount (sy_bridge s') = Inr (1, sy_bridge s')"
proof -
  obtain s s' where s: "session exfs exlib [] s ((\<lambda>_. 0)(1 := 1, 2 := 1)) {}"
    "serve exfs exlib [] exforget s = Inr (Reply [] None, s')" "session exfs exlib [] s' ((\<lambda>_. 0)(1 := 1)) {}"
    using ex_forget by blast
  from session_inv[OF exlib_fuse s(1)] have "refs (sy_bridge s) 2 = 1" by simp
  with s(2) session_all_forgotten[OF exlib_fuse s(3)] show ?thesis by auto
qed

end
